(* ===== verification/Gateway_Prelude.thy ===== *)
theory Gateway_Prelude
  imports
    Main
    "HOL-Library.Word"
    "HOL-Library.Char_ord"
    "HOL-Library.List_Lexorder"
    "HOL-Library.Sublist"
begin

text \<open>
  Shared vocabulary of the development.

  A Rust \<^verbatim>\<open>String\<close> is its UTF-8 byte sequence: \<open>string\<close> is a list of
  8-bit \<open>char\<close>s, ordered by \<open>Char_ord\<close> and \<open>List_Lexorder\<close>, which is the byte order
  \<^verbatim>\<open>str::cmp\<close> uses.  Searching or cutting a string at an ASCII byte is the same
  operation on the bytes as on the code points.  The theory holds the pieces of the Rust
  standard library the gateway calls (\<^verbatim>\<open>Ordering\<close>, \<^verbatim>\<open>str::split\<close>,
  \<^verbatim>\<open>str::find\<close>, \<^verbatim>\<open>slice::sort_by\<close>, \<^verbatim>\<open>slice::partition_point\<close>,
  hexadecimal and decimal formatting) and the lemmas the components share.
\<close>

named_theorems path_simps \<open>rewrite rules of the path mapper\<close>
named_theorems order_simps \<open>rewrite rules of the byte-order comparators\<close>

type_synonym u64 = "64 word"
type_synonym usize = "64 word"

section \<open>Three-way comparison\<close>

datatype ordering = Less | Equal | Greater

fun reverse :: "ordering \<Rightarrow> ordering" where
  "reverse Less = Greater"
| "reverse Equal = Equal"
| "reverse Greater = Less"

definition cmp :: "'a::linorder \<Rightarrow> 'a \<Rightarrow> ordering" where
  "cmp a b = (if a < b then Less else if a = b then Equal else Greater)"

lemma cmp_iff [simp]:
  "cmp a b = Less \<longleftrightarrow> a < b"
  "cmp a b = Equal \<longleftrightarrow> a = b"
  "cmp a b = Greater \<longleftrightarrow> b < a"
  "Less = cmp a b \<longleftrightarrow> a < b"
  "Equal = cmp a b \<longleftrightarrow> a = b"
  "Greater = cmp a b \<longleftrightarrow> b < a"
  by (auto simp: cmp_def)

lemma reverse_cmp [simp]: "reverse (cmp a b) = cmp b a"
  by (auto simp: cmp_def)

lemma cmp_refl [simp]: "cmp a a = Equal"
  by simp

lemma cmp_Cons [simp]:
  "cmp (x # xs) (y # ys) = (case cmp x y of Equal \<Rightarrow> cmp xs ys | r \<Rightarrow> r)"
  by (auto simp: cmp_def)

section \<open>Stable sorting with a comparator\<close>

text \<open>
  \<^verbatim>\<open>slice::sort_by\<close> is a stable sort.  The model inserts from the right, so that an
  element stays in front of the equal elements that followed it.
\<close>

fun insert_by :: "('a \<Rightarrow> 'a \<Rightarrow> ordering) \<Rightarrow> 'a \<Rightarrow> 'a list \<Rightarrow> 'a list" where
  "insert_by c x [] = [x]"
| "insert_by c x (y # ys) = (if c x y = Greater then y # insert_by c x ys else x # y # ys)"

fun sort_by :: "('a \<Rightarrow> 'a \<Rightarrow> ordering) \<Rightarrow> 'a list \<Rightarrow> 'a list" where
  "sort_by c [] = []"
| "sort_by c (x # xs) = insert_by c x (sort_by c xs)"

lemma insert_by_key: "insert_by (\<lambda>a b. cmp (f a) (f b)) x xs = insort_key f x xs"
  by (induction xs) (auto simp: not_less)

lemma sort_by_key: "sort_by (\<lambda>a b. cmp (f a) (f b)) xs = sort_key f xs"
  by (induction xs) (auto simp: insert_by_key)

section \<open>Binary search for a partition point\<close>

text \<open>
  \<^verbatim>\<open>slice::partition_point\<close>: the index of the first element that fails the predicate,
  found by bisection.  The answer is meaningful on a list that the predicate partitions.
\<close>

function pp_search :: "('a \<Rightarrow> bool) \<Rightarrow> 'a list \<Rightarrow> nat \<Rightarrow> nat \<Rightarrow> nat" where
  "pp_search P xs lo hi =
     (if lo < hi
      then let mid = lo + (hi - lo) div 2
           in if P (xs ! mid) then pp_search P xs (Suc mid) hi else pp_search P xs lo mid
      else lo)"
  by pat_completeness auto
termination
  by (relation "measure (\<lambda>(P, xs, lo, hi). hi - lo)") auto

declare pp_search.simps [simp del]

definition partition_point :: "('a \<Rightarrow> bool) \<Rightarrow> 'a list \<Rightarrow> nat" where
  "partition_point P xs = pp_search P xs 0 (length xs)"

definition partitioned :: "('a \<Rightarrow> bool) \<Rightarrow> 'a list \<Rightarrow> bool" where
  "partitioned P xs \<longleftrightarrow> (\<forall>i j. i < j \<longrightarrow> j < length xs \<longrightarrow> P (xs ! j) \<longrightarrow> P (xs ! i))"

lemma pp_search_unique:
  assumes "n \<le> length xs" "\<forall>i < n. P (xs ! i)" "\<forall>i. n \<le> i \<longrightarrow> i < length xs \<longrightarrow> \<not> P (xs ! i)"
    and "lo \<le> n" "n \<le> hi" "hi \<le> length xs"
  shows "pp_search P xs lo hi = n"
  using assms
proof (induction P xs lo hi rule: pp_search.induct)
  case (1 P xs lo hi)
  show ?case
  proof (cases "lo < hi")
    case False
    with "1.prems" show ?thesis by (simp add: pp_search.simps [of P xs lo hi])
  next
    case True
    define mid where "mid = lo + (hi - lo) div 2"
    with True have mid: "lo \<le> mid" "mid < hi" by auto
    have split: "P (xs ! mid) \<longleftrightarrow> mid < n"
      using "1.prems" mid by (meson leI order_less_le_trans)
    show ?thesis
    proof (cases "P (xs ! mid)")
      case True
      with "1.IH"(1) [OF \<open>lo < hi\<close> mid_def] "1.prems" split \<open>lo < hi\<close> show ?thesis
        by (simp add: pp_search.simps [of P xs lo hi] mid_def [symmetric] Let_def)
    next
      case False
      with "1.IH"(2) [OF \<open>lo < hi\<close> mid_def] "1.prems" split mid \<open>lo < hi\<close> show ?thesis
        by (simp add: pp_search.simps [of P xs lo hi] mid_def [symmetric] Let_def)
    qed
  qed
qed

lemma partitioned_Cons_False:
  assumes "partitioned P (x # xs)" "\<not> P x"
  shows "\<forall>y \<in> set xs. \<not> P y"
proof
  fix y assume "y \<in> set xs"
  then obtain i where "i < length xs" "xs ! i = y" by (auto simp: in_set_conv_nth)
  with assms show "\<not> P y"
    unfolding partitioned_def by (metis Suc_mono length_Cons nth_Cons_0 nth_Cons_Suc zero_less_Suc)
qed

lemma partitioned_tl: "partitioned P (x # xs) \<Longrightarrow> partitioned P xs"
  unfolding partitioned_def by (metis Suc_mono length_Cons nth_Cons_Suc)

lemma partitioned_dropWhile:
  "partitioned P xs \<Longrightarrow> \<forall>y \<in> set (dropWhile P xs). \<not> P y"
  by (induction xs) (auto dest: partitioned_tl partitioned_Cons_False)

lemma partition_point_takeWhile:
  assumes "partitioned P xs"
  shows "partition_point P xs = length (takeWhile P xs)"
  unfolding partition_point_def
proof (rule pp_search_unique)
  show "\<forall>i < length (takeWhile P xs). P (xs ! i)"
    by (metis nth_mem set_takeWhileD takeWhile_nth)
  show "\<forall>i. length (takeWhile P xs) \<le> i \<longrightarrow> i < length xs \<longrightarrow> \<not> P (xs ! i)"
  proof (intro allI impI)
    fix i assume i: "length (takeWhile P xs) \<le> i" "i < length xs"
    then have "xs ! i \<in> set (dropWhile P xs)"
      by (simp add: dropWhile_eq_drop in_set_conv_nth)
         (metis diff_less_mono le_add_diff_inverse)
    with partitioned_dropWhile [OF assms] show "\<not> P (xs ! i)" by blast
  qed
qed (auto simp: length_takeWhile_le)

lemma drop_partition_point:
  "partitioned P xs \<Longrightarrow> drop (partition_point P xs) xs = dropWhile P xs"
  by (simp add: partition_point_takeWhile dropWhile_eq_drop)

lemma partition_point_le: "partitioned P xs \<Longrightarrow> partition_point P xs \<le> length xs"
  by (simp add: partition_point_takeWhile length_takeWhile_le)

lemma dropWhile_filter_partitioned:
  "partitioned P xs \<Longrightarrow> dropWhile P xs = filter (\<lambda>x. \<not> P x) xs"
proof (induction xs)
  case (Cons x xs)
  show ?case
  proof (cases "P x")
    case True
    with Cons show ?thesis by (auto dest: partitioned_tl)
  next
    case False
    with Cons.prems have "\<forall>y \<in> set xs. \<not> P y" by (blast dest: partitioned_Cons_False)
    with False show ?thesis by simp
  qed
qed simp

lemma partitioned_sorted:
  assumes "sorted_wrt R xs" and "\<And>x y. R x y \<Longrightarrow> P y \<Longrightarrow> P x"
  shows "partitioned P xs"
  using assms unfolding partitioned_def by (blast dest: sorted_wrt_nth_less)

section \<open>Strings\<close>

abbreviation slash :: char where "slash \<equiv> CHR ''/''"

text \<open>\<^verbatim>\<open>str::split(c)\<close>: the pieces between separators, at least one.\<close>

fun split_on :: "char \<Rightarrow> string \<Rightarrow> string list" where
  "split_on c [] = [[]]"
| "split_on c (x # xs) =
     (if x = c then [] # split_on c xs
      else (case split_on c xs of [] \<Rightarrow> [[x]] | s # ss \<Rightarrow> (x # s) # ss))"

text \<open>\<^verbatim>\<open>[T]::join(sep)\<close>.\<close>

fun join_with :: "string \<Rightarrow> string list \<Rightarrow> string" where
  "join_with sep [] = []"
| "join_with sep [x] = x"
| "join_with sep (x # y # xs) = x @ sep @ join_with sep (y # xs)"

text \<open>\<^verbatim>\<open>str::find(pat)\<close>: the first byte index at which the pattern occurs.\<close>

fun find_sub :: "string \<Rightarrow> string \<Rightarrow> nat option" where
  "find_sub pat [] = (if pat = [] then Some 0 else None)"
| "find_sub pat (x # xs) =
     (if prefix pat (x # xs) then Some 0 else map_option Suc (find_sub pat xs))"

text \<open>\<^verbatim>\<open>str::rfind(c)\<close> for one ASCII character: the last index of the byte.\<close>

fun rfind_char :: "char \<Rightarrow> string \<Rightarrow> nat option" where
  "rfind_char c [] = None"
| "rfind_char c (x # xs) =
     (case rfind_char c xs of Some i \<Rightarrow> Some (Suc i) | None \<Rightarrow> if x = c then Some 0 else None)"

lemma split_on_neq_Nil [simp]: "split_on c xs \<noteq> []"
  by (cases xs) (auto split: list.splits)

lemma split_on_no_sep: "s \<in> set (split_on c xs) \<Longrightarrow> c \<notin> set s"
  by (induction xs arbitrary: s) (force split: if_splits list.splits)+

lemma split_on_single: "c \<notin> set s \<Longrightarrow> split_on c s = [s]"
  by (induction s) auto

lemma split_on_append_sep: "split_on c (xs @ c # ys) = split_on c xs @ split_on c ys"
  by (induction xs) (auto split: list.splits)

lemma split_on_join:
  "\<forall>s \<in> set ss. c \<notin> set s \<Longrightarrow> ss \<noteq> [] \<Longrightarrow> split_on c (join_with [c] ss) = ss"
  by (induction "[c]" ss rule: join_with.induct)
     (auto simp: split_on_single split_on_append_sep)

lemma join_split_on: "join_with [c] (split_on c xs) = xs"
proof (induction xs)
  case (Cons x xs)
  obtain s ss where ss: "split_on c xs = s # ss" by (cases "split_on c xs") auto
  with Cons show ?case by (cases ss) (auto simp: ss)
qed simp

lemma join_with_append:
  "xs \<noteq> [] \<Longrightarrow> ys \<noteq> [] \<Longrightarrow> join_with sep (xs @ ys) = join_with sep xs @ sep @ join_with sep ys"
proof (induction sep xs rule: join_with.induct)
  case (2 sep x)
  then show ?case by (cases ys) auto
qed auto

lemma rfind_char_None: "rfind_char c xs = None \<longleftrightarrow> c \<notin> set xs"
  by (induction xs) (auto split: option.splits)

lemma rfind_char_notin [simp]: "c \<notin> set xs \<Longrightarrow> rfind_char c xs = None"
  by (simp add: rfind_char_None)

lemma rfind_char_Some:
  "rfind_char c xs = Some i \<Longrightarrow>
     \<exists>ys zs. xs = ys @ c # zs \<and> c \<notin> set zs \<and> i = length ys"
proof (induction xs arbitrary: i)
  case (Cons x xs)
  show ?case
  proof (cases "rfind_char c xs")
    case None
    with Cons.prems show ?thesis by (auto simp: rfind_char_None split: if_splits intro!: exI [of _ "[]"])
  next
    case (Some j)
    with Cons.IH obtain ys zs where "xs = ys @ c # zs" "c \<notin> set zs" "j = length ys" by blast
    with Some Cons.prems have "x # xs = (x # ys) @ c # zs \<and> c \<notin> set zs \<and> i = length (x # ys)"
      by simp
    then show ?thesis by blast
  qed
qed simp

lemma find_sub_char_None: "find_sub [c] xs = None \<longleftrightarrow> c \<notin> set xs"
  by (induction xs) auto

lemma find_sub_char_notin [simp]: "c \<notin> set xs \<Longrightarrow> find_sub [c] xs = None"
  by (simp add: find_sub_char_None)

lemma find_sub_Some_split:
  "find_sub pat xs = Some i \<Longrightarrow> \<exists>ys. xs = take i xs @ pat @ ys \<and> i + length pat \<le> length xs"
proof (induction xs arbitrary: i)
  case (Cons x xs)
  show ?case
  proof (cases "prefix pat (x # xs)")
    case True
    then obtain zs where "x # xs = pat @ zs" by (auto simp: prefix_def)
    moreover from Cons.prems True have "i = 0" by simp
    moreover from True have "length pat \<le> length (x # xs)" by (rule prefix_length_le)
    ultimately show ?thesis by simp
  next
    case False
    with Cons.prems obtain j where "find_sub pat xs = Some j" "i = Suc j" by auto
    with Cons.IH show ?thesis by fastforce
  qed
qed (auto split: if_splits)

section \<open>Strictly sorted lists\<close>

definition strictly_sorted :: "('a \<Rightarrow> 'b::linorder) \<Rightarrow> 'a list \<Rightarrow> bool" where
  "strictly_sorted f xs \<longleftrightarrow> sorted_wrt (\<lambda>a b. f a < f b) xs"

lemma strictly_sorted_simps [simp]:
  "strictly_sorted f []"
  "strictly_sorted f (x # xs) \<longleftrightarrow> (\<forall>y \<in> set xs. f x < f y) \<and> strictly_sorted f xs"
  by (simp_all add: strictly_sorted_def)

lemma strictly_sorted_append:
  "strictly_sorted f (xs @ ys) \<longleftrightarrow>
     strictly_sorted f xs \<and> strictly_sorted f ys \<and> (\<forall>x \<in> set xs. \<forall>y \<in> set ys. f x < f y)"
  by (auto simp: strictly_sorted_def sorted_wrt_append)

lemma strictly_sorted_filter: "strictly_sorted f xs \<Longrightarrow> strictly_sorted f (filter P xs)"
  by (simp add: strictly_sorted_def sorted_wrt_filter)

lemma strictly_sorted_take: "strictly_sorted f xs \<Longrightarrow> strictly_sorted f (take n xs)"
  by (simp add: strictly_sorted_def sorted_wrt_take)

lemma strictly_sorted_drop: "strictly_sorted f xs \<Longrightarrow> strictly_sorted f (drop n xs)"
  by (simp add: strictly_sorted_def sorted_wrt_drop)

lemma strictly_sorted_map: "strictly_sorted f (map g xs) \<longleftrightarrow> strictly_sorted (f \<circ> g) xs"
  by (simp add: strictly_sorted_def sorted_wrt_map)

text \<open>A strictly sorted list is determined by its elements.\<close>

lemma strictly_sorted_unique:
  "strictly_sorted f xs \<Longrightarrow> strictly_sorted f ys \<Longrightarrow> set xs = set ys \<Longrightarrow> xs = ys"
proof (induction xs arbitrary: ys)
  case (Cons x xs)
  then obtain y ys' where ys: "ys = y # ys'" by (cases ys) auto
  have "x = y"
  proof (rule ccontr)
    assume "x \<noteq> y"
    with Cons.prems ys have "y \<in> set xs" "x \<in> set ys'" by auto
    with Cons.prems ys have "f x < f y" "f y < f x" by auto
    then show False by simp
  qed
  with Cons.prems ys have "set xs = set ys'" by auto
  with Cons ys \<open>x = y\<close> show ?case by simp
qed simp

lemma strictly_sorted_iff:
  "strictly_sorted f xs \<longleftrightarrow> sorted (map f xs) \<and> distinct (map f xs)"
  unfolding strictly_sorted_def strict_sorted_iff [symmetric] by (simp add: sorted_wrt_map)

lemma strictly_sorted_sort_key:
  "distinct (map f xs) \<Longrightarrow> strictly_sorted f (sort_key f xs)"
  by (simp add: strictly_sorted_iff distinct_map)

lemma last_take: "0 < n \<Longrightarrow> n < length xs \<Longrightarrow> take n xs \<noteq> [] \<and> last (take n xs) = xs ! (n - 1)"
  by (metis Suc_diff_1 last_snoc less_imp_diff_less snoc_eq_iff_butlast take_Suc_conv_app_nth)

lemma strictly_sorted_after_last:
  assumes "strictly_sorted f xs" "0 < n" "n < length xs"
  shows "filter (\<lambda>x. f (last (take n xs)) < f x) xs = drop n xs"
proof -
  have split: "xs = take n xs @ drop n xs" by simp
  have ne: "take n xs \<noteq> []" using assms by auto
  have "strictly_sorted f (take n xs @ drop n xs)" using assms(1) by simp
  then have later: "\<forall>y \<in> set (drop n xs). f (last (take n xs)) < f y"
    using ne last_in_set by (metis strictly_sorted_append)
  have "strictly_sorted f (butlast (take n xs) @ [last (take n xs)])"
    using assms(1) ne by (simp add: strictly_sorted_take)
  then have "\<forall>y \<in> set (butlast (take n xs)). f y < f (last (take n xs))"
    by (simp add: strictly_sorted_append)
  then have "\<forall>y \<in> set (take n xs). \<not> f (last (take n xs)) < f y"
    using ne by (metis (no_types, lifting) append_butlast_last_id insert_iff list.simps(15) not_less_iff_gr_or_eq rotate1.simps(2) set_rotate1)
  then have "filter (\<lambda>x. f (last (take n xs)) < f x) (take n xs) = []" by (simp add: filter_empty_conv)
  moreover from later have "filter (\<lambda>x. f (last (take n xs)) < f x) (drop n xs) = drop n xs"
    by (simp add: filter_id_conv)
  ultimately show ?thesis by (subst split) (simp only: filter_append append_Nil)
qed

section \<open>Byte order and prefixes\<close>

lemma less_append_Cons: "(xs :: 'a::linorder list) < xs @ y # ys"
  by (induction xs) auto

lemma le_append: "(xs :: 'a::linorder list) \<le> xs @ ys"
  by (cases ys) (auto intro: less_imp_le less_append_Cons)

lemma prefix_le: "prefix xs ys \<Longrightarrow> (xs :: 'a::linorder list) \<le> ys"
  by (auto simp: prefix_def le_append)

lemma append_less_append [simp]: "(xs @ ys < xs @ zs) = ((ys :: 'a::linorder list) < zs)"
  by (induction xs) auto

lemma append_le_append [simp]: "(xs @ ys \<le> xs @ zs) = ((ys :: 'a::linorder list) \<le> zs)"
  by (induction xs) auto

lemma append_less_self [simp]: "\<not> xs @ ys < (xs :: 'a::linorder list)"
  using le_append [of xs ys] by (simp add: not_less)

lemma self_less_append [simp]: "(xs :: 'a::linorder list) < xs @ ys \<longleftrightarrow> ys \<noteq> []"
  by (cases ys) (simp_all add: less_append_Cons)

lemma Nil_less_iff [simp]: "[] < (xs :: 'a::linorder list) \<longleftrightarrow> xs \<noteq> []"
  by (cases xs) simp_all

text \<open>A string between a prefix and one of its extensions extends the prefix as well.\<close>

lemma prefix_interval:
  assumes "(p :: 'a::linorder list) \<le> x" "x \<le> y" "prefix p y"
  shows "prefix p x"
  using assms
proof (induction p arbitrary: x y)
  case (Cons a p)
  from Cons.prems obtain x' b where x: "x = b # x'" by (cases x) auto
  from Cons.prems obtain y' where y: "y = a # y'" "prefix p y'" by (cases y) auto
  from Cons.prems x y have "a = b" "p \<le> x'" "x' \<le> y'" by auto
  with Cons.IH y show ?case by (simp add: x)
qed simp

lemma prefix_append_less:
  "(p :: 'a::linorder list) < x \<Longrightarrow> \<not> prefix p x \<Longrightarrow> p @ q < x"
proof (induction p arbitrary: x)
  case (Cons a p)
  then show ?case by (cases x) auto
qed simp

lemma less_not_prefix_append:
  "(x :: 'a::linorder list) < p \<Longrightarrow> x < p @ q"
  by (rule less_le_trans [OF _ le_append])

lemma prefix_or_mono:
  assumes "prefix p x" "prefix q x"
  shows "prefix p q \<or> prefix q p"
  using assms by (rule prefix_same_cases)

section \<open>Numbers as text\<close>

text \<open>Rust's \<^verbatim>\<open>char::from_digit\<close> for radix 16, and the \<^verbatim>\<open>{:x}\<close> and
  \<^verbatim>\<open>{}\<close> formats of an unsigned integer.\<close>

definition digit_char :: "nat \<Rightarrow> char" where
  "digit_char d = (if d < 10 then char_of (48 + d) else char_of (87 + d))"

fun digits_radix :: "nat \<Rightarrow> nat \<Rightarrow> string" where
  "digits_radix b n =
     (if n < b \<or> b < 2 then [digit_char n] else digits_radix b (n div b) @ [digit_char (n mod b)])"

declare digits_radix.simps [simp del]

abbreviation fmt_hex :: "nat \<Rightarrow> string" where "fmt_hex \<equiv> digits_radix 16"
abbreviation fmt_dec :: "nat \<Rightarrow> string" where "fmt_dec \<equiv> digits_radix 10"

lemma of_digit_char: "d < 16 \<Longrightarrow> of_char (digit_char d) = (if d < 10 then 48 + d else 87 + d :: nat)"
  by (simp add: digit_char_def take_bit_eq_mod)

lemma digit_char_inj: "d < 16 \<Longrightarrow> e < 16 \<Longrightarrow> digit_char d = digit_char e \<Longrightarrow> d = e"
proof -
  assume d: "d < 16" and e: "e < 16" and "digit_char d = digit_char e"
  then have "(if d < 10 then 48 + d else 87 + d) = (if e < 10 then 48 + e else 87 + e)"
    using of_digit_char [OF d] of_digit_char [OF e] by metis
  with d e show "d = e" by presburger
qed

lemma digits_radix_chars:
  assumes "2 \<le> b" "b \<le> 16" "c \<in> set (digits_radix b n)"
  shows "\<exists>d < 16. c = digit_char d"
  using assms
proof (induction b n rule: digits_radix.induct)
  case (1 b n)
  show ?case
  proof (cases "n < b")
    case True
    with "1.prems" show ?thesis by (force simp: digits_radix.simps [of b n])
  next
    case False
    have "n mod b < 16" using "1.prems" by (auto intro: less_le_trans [OF mod_less_divisor])
    with False "1.prems" "1.IH" show ?thesis by (auto simp: digits_radix.simps [of b n])
  qed
qed

text \<open>A digit is none of the bytes outside \<open>0-9a-f\<close>.\<close>

lemma digit_char_range:
  "d < 16 \<Longrightarrow> of_char (digit_char d) \<in> {48 ..< 58} \<union> {97 ..< (103 :: nat)}"
  using of_digit_char [of d] by (cases "d < 10") auto

lemma digit_char_neq: "d < 16 \<Longrightarrow> of_char c \<notin> {48 ..< 58} \<union> {97 ..< (103 :: nat)} \<Longrightarrow> digit_char d \<noteq> c"
  using digit_char_range by blast

lemma digits_radix_neq_Nil [simp]: "digits_radix b n \<noteq> []" "[] \<noteq> digits_radix b n"
  by (subst digits_radix.simps, simp)+

lemma digits_radix_inj:
  assumes "2 \<le> b" "b \<le> 16" "digits_radix b m = digits_radix b n"
  shows "m = n"
  using assms
proof (induction b m arbitrary: n rule: digits_radix.induct)
  case (1 b m n)
  have mods: "m mod b < 16" "n mod b < 16"
    using "1.prems" by (auto intro: less_le_trans [OF mod_less_divisor])
  show ?case
  proof (cases "m < b \<or> n < b")
    case True
    with "1.prems" show ?thesis
      by (cases "m < b"; cases "n < b")
         (auto simp: digits_radix.simps [of b m] digits_radix.simps [of b n] intro: digit_char_inj)
  next
    case False
    with "1.prems" have "digits_radix b (m div b) = digits_radix b (n div b)"
      and "digit_char (m mod b) = digit_char (n mod b)"
      by (simp_all add: digits_radix.simps [of b m] digits_radix.simps [of b n])
    with "1.IH" False "1.prems" mods have "m div b = n div b" "m mod b = n mod b"
      by (auto dest: digit_char_inj)
    then show ?thesis by (metis div_mult_mod_eq)
  qed
qed

end
