(* ===== verification/Config.thy ===== *)
theory Config
  imports Gateway_Prelude
begin

text \<open>
  \<^verbatim>\<open>src/config/mod.rs\<close>: the configuration record, its three sources (a TOML file, the
  environment, the command line) and its validation.

  Reading a file, parsing TOML, the process environment and \<^verbatim>\<open>s3s::path::check_bucket_name\<close>
  are parameters: \<open>read_file\<close>, \<open>parse_toml\<close>, \<open>env\<close> and \<open>check_bucket_name\<close>.
  \<^verbatim>\<open>to_string_lossy\<close> of an environment variable is part of \<open>env\<close>, which gives the
  variable's text.
\<close>

section \<open>Data\<close>

record cache_config =
  enabled :: bool
  metadata_ttl_ms :: u64
  blocks_ttl_ms :: u64
  listing_ttl_ms :: u64
  negative_ttl_ms :: u64
  metadata_capacity :: usize
  blocks_capacity :: usize
  listing_capacity_entries :: usize
  listing_max_dir_entries :: usize

definition cache_config_default :: cache_config where
  "cache_config_default =
     \<lparr>enabled = False, metadata_ttl_ms = 1000, blocks_ttl_ms = 10000, listing_ttl_ms = 5000,
      negative_ttl_ms = 1000, metadata_capacity = 100000, blocks_capacity = 512,
      listing_capacity_entries = 200000, listing_max_dir_entries = 50000\<rparr>"

record config =
  namenode_uri :: string
  hdfs_root :: string
  bucket_name :: string
  listen_addr :: string
  max_concurrent_requests :: usize
  expose_upstream_errors :: bool
  hdfs_options :: "string \<rightharpoonup> string"
  hdfs_config_dir :: "string option"
  hdfs_user :: "string option"
  cache :: cache_config
  auth_secret :: "string option"

record cli_args =
  arg_config :: "string option"
  arg_listen_addr :: "string option"
  arg_namenode_uri :: "string option"
  arg_hdfs_root :: "string option"
  arg_bucket_name :: "string option"
  arg_auth_secret :: "string option"
  arg_hdfs_user :: "string option"
  arg_hdfs_config_dir :: "string option"
  arg_hdfs_options :: "(string \<times> string) list option"
  arg_no_cache :: bool
  arg_cache :: bool

datatype ('io, 'toml) config_error =
    ReadFile string 'io
  | ParseToml 'toml
  | Missing string
  | Invalid string

text \<open>
  What the TOML parser hands to \<^verbatim>\<open>Deserialize\<close>: the three required fields, and the fields
  with a \<^verbatim>\<open>#[serde(default)]\<close> attribute, absent or present.  A missing required field, an
  unknown field and a malformed value are errors of the parser.
\<close>

record raw_cache =
  r_enabled :: "bool option"
  r_metadata_ttl_ms :: "u64 option"
  r_blocks_ttl_ms :: "u64 option"
  r_listing_ttl_ms :: "u64 option"
  r_negative_ttl_ms :: "u64 option"
  r_metadata_capacity :: "usize option"
  r_blocks_capacity :: "usize option"
  r_listing_capacity_entries :: "usize option"
  r_listing_max_dir_entries :: "usize option"

record raw_config =
  r_namenode_uri :: string
  r_hdfs_root :: string
  r_bucket_name :: string
  r_listen_addr :: "string option"
  r_max_concurrent_requests :: "usize option"
  r_expose_upstream_errors :: "bool option"
  r_hdfs_options :: "(string \<rightharpoonup> string) option"
  r_hdfs_config_dir :: "string option"
  r_hdfs_user :: "string option"
  r_cache :: "raw_cache option"
  r_auth_secret :: "string option"

section \<open>Operations\<close>

definition or_else :: "'a option \<Rightarrow> 'a \<Rightarrow> 'a" where
  "or_else x d = (case x of Some v \<Rightarrow> v | None \<Rightarrow> d)"

definition default_listen_addr :: string where
  "default_listen_addr = ''0.0.0.0:8080''"

definition default_max_concurrent_requests :: usize where
  "default_max_concurrent_requests = 2048"

definition config_default :: config where
  "config_default =
     \<lparr>namenode_uri = ''hdfs://localhost:8020'', hdfs_root = ''/'', bucket_name = ''hdfs'',
      listen_addr = default_listen_addr,
      max_concurrent_requests = default_max_concurrent_requests,
      expose_upstream_errors = True, hdfs_options = Map.empty, hdfs_config_dir = None,
      hdfs_user = None, cache = cache_config_default, auth_secret = None\<rparr>"

text \<open>
  \<^verbatim>\<open>str::trim\<close> strips the code points with the Unicode property \<^verbatim>\<open>White_Space\<close>,
  listed here by their UTF-8 bytes.
\<close>

definition ws_seqs :: "string list" where
  "ws_seqs = map (map char_of)
     ([[9], [10], [11], [12], [13], [32], [0xC2, 0x85], [0xC2, 0xA0], [0xE1, 0x9A, 0x80],
       [0xE2, 0x80, 0xA8], [0xE2, 0x80, 0xA9], [0xE2, 0x80, 0xAF], [0xE2, 0x81, 0x9F],
       [0xE3, 0x80, 0x80]] @ map (\<lambda>n. [0xE2, 0x80, n]) [0x80 ..< 0x8B] :: nat list list)"

definition ws_len :: "string list \<Rightarrow> string \<Rightarrow> nat" where
  "ws_len seqs s = (case find (\<lambda>w. prefix w s) seqs of Some w \<Rightarrow> length w | None \<Rightarrow> 0)"

function trim_start :: "string list \<Rightarrow> string \<Rightarrow> string" where
  "trim_start seqs s =
     (if ws_len seqs s = 0 \<or> s = [] then s else trim_start seqs (drop (ws_len seqs s) s))"
  by pat_completeness auto
termination
  by (relation "measure (\<lambda>(seqs, s). length s)") auto

declare trim_start.simps [simp del]

definition trim :: "string \<Rightarrow> string" where
  "trim s = rev (trim_start (map rev ws_seqs) (rev (trim_start ws_seqs s)))"

definition to_ascii_lowercase :: "string \<Rightarrow> string" where
  "to_ascii_lowercase = map (\<lambda>c. let n = (of_char c :: nat)
                                in if 65 \<le> n \<and> n \<le> 90 then char_of (n + 32) else c)"

text \<open>
  The \<^verbatim>\<open>{:?}\<close> format of a string: quoted, with the ASCII escapes of
  \<^verbatim>\<open>char::escape_debug\<close>; bytes above 127 are passed through.
\<close>

definition escape_debug :: "char \<Rightarrow> string" where
  "escape_debug c =
     (let n = (of_char c :: nat) in
      if n = 0 then [CHR 0x5C, CHR ''0'']
      else if n = 9 then [CHR 0x5C, CHR ''t'']
      else if n = 10 then [CHR 0x5C, CHR ''n'']
      else if n = 13 then [CHR 0x5C, CHR ''r'']
      else if n = 34 \<or> n = 92 then [CHR 0x5C, c]
      else if n < 32 \<or> n = 127 then CHR 0x5C # ''u{'' @ fmt_hex n @ ''}''
      else [c])"

definition debug_str :: "string \<Rightarrow> string" where
  "debug_str s = [CHR 0x22] @ concat (map escape_debug s) @ [CHR 0x22]"

definition env_bool ::
  "(string \<rightharpoonup> string) \<Rightarrow> string \<Rightarrow> ('io, 'toml) config_error + bool option" where
  "env_bool env name =
     (case env name of
        None \<Rightarrow> Inr None
      | Some raw \<Rightarrow>
          (let value = to_ascii_lowercase (trim raw)
           in if value \<in> {''1'', ''true'', ''yes'', ''on''} then Inr (Some True)
              else if value \<in> {''0'', ''false'', ''no'', ''off''} then Inr (Some False)
              else Inl (Invalid (name @ '' must be one of 1/0, true/false, yes/no, on/off (got ''
                                  @ debug_str value @ '')''))))"

text \<open>\<^verbatim>\<open>split_once('=')\<close>, then the key must not be empty.\<close>

definition parse_hdfs_option :: "string \<Rightarrow> string + string \<times> string" where
  "parse_hdfs_option raw =
     (case find_sub ''='' raw of
        Some i \<Rightarrow> if take i raw \<noteq> [] then Inr (take i raw, drop (Suc i) raw)
                  else Inl ''expected KEY=VALUE, e.g. dfs.client.use.datanode.hostname=true''
      | None \<Rightarrow> Inl ''expected KEY=VALUE, e.g. dfs.client.use.datanode.hostname=true'')"

text \<open>
  The \<^verbatim>\<open>serde\<close> attributes of \<^verbatim>\<open>Config\<close> and \<^verbatim>\<open>CacheConfig\<close>: an absent field takes
  its type's default (\<^verbatim>\<open>#[serde(default)]\<close>, \<^verbatim>\<open>false\<close> for a \<^verbatim>\<open>bool\<close>) or the named
  function's value; an absent field of \<^verbatim>\<open>CacheConfig\<close> takes the field of
  \<^verbatim>\<open>CacheConfig::default()\<close>.
\<close>

definition cache_of_raw :: "raw_cache \<Rightarrow> cache_config" where
  "cache_of_raw r =
     (let d = cache_config_default in
      \<lparr>enabled = or_else (r_enabled r) (enabled d),
       metadata_ttl_ms = or_else (r_metadata_ttl_ms r) (metadata_ttl_ms d),
       blocks_ttl_ms = or_else (r_blocks_ttl_ms r) (blocks_ttl_ms d),
       listing_ttl_ms = or_else (r_listing_ttl_ms r) (listing_ttl_ms d),
       negative_ttl_ms = or_else (r_negative_ttl_ms r) (negative_ttl_ms d),
       metadata_capacity = or_else (r_metadata_capacity r) (metadata_capacity d),
       blocks_capacity = or_else (r_blocks_capacity r) (blocks_capacity d),
       listing_capacity_entries =
         or_else (r_listing_capacity_entries r) (listing_capacity_entries d),
       listing_max_dir_entries =
         or_else (r_listing_max_dir_entries r) (listing_max_dir_entries d)\<rparr>)"

definition config_of_raw :: "raw_config \<Rightarrow> config" where
  "config_of_raw r =
     \<lparr>namenode_uri = r_namenode_uri r, hdfs_root = r_hdfs_root r, bucket_name = r_bucket_name r,
      listen_addr = or_else (r_listen_addr r) default_listen_addr,
      max_concurrent_requests =
        or_else (r_max_concurrent_requests r) default_max_concurrent_requests,
      expose_upstream_errors = or_else (r_expose_upstream_errors r) False,
      hdfs_options = or_else (r_hdfs_options r) Map.empty,
      hdfs_config_dir = r_hdfs_config_dir r, hdfs_user = r_hdfs_user r,
      cache = (case r_cache r of Some rc \<Rightarrow> cache_of_raw rc | None \<Rightarrow> cache_config_default),
      auth_secret = r_auth_secret r\<rparr>"

definition from_env :: "(string \<rightharpoonup> string) \<Rightarrow> config option" where
  "from_env env =
     (case env ''HDFS_NN_URI'' of None \<Rightarrow> None | Some nn \<Rightarrow>
      case env ''HDFS_ROOT'' of None \<Rightarrow> None | Some root \<Rightarrow>
      case env ''BUCKET_NAME'' of None \<Rightarrow> None | Some bucket \<Rightarrow>
        Some \<lparr>namenode_uri = nn, hdfs_root = root, bucket_name = bucket,
              listen_addr = default_listen_addr,
              max_concurrent_requests = default_max_concurrent_requests,
              expose_upstream_errors = True, hdfs_options = Map.empty, hdfs_config_dir = None,
              hdfs_user = None, cache = cache_config_default, auth_secret = None\<rparr>)"

definition validate ::
  "(string \<Rightarrow> bool) \<Rightarrow> config \<Rightarrow> ('io, 'toml) config_error + unit" where
  "validate check_bucket_name c =
     (if namenode_uri c = [] then Inl (Missing ''namenode_uri'')
      else if hdfs_root c = [] then Inl (Missing ''hdfs_root'')
      else if bucket_name c = [] then Inl (Missing ''bucket_name'')
      else if max_concurrent_requests c = 0
        then Inl (Invalid ''max_concurrent_requests must be greater than 0'')
      else if enabled (cache c) \<and> 0 < listing_ttl_ms (cache c)
                \<and> listing_capacity_entries (cache c) = 0
        then Inl (Invalid ''cache.listing_capacity_entries must be greater than 0'')
      else if \<not> check_bucket_name (bucket_name c)
        then Inl (Invalid (''bucket_name '' @ debug_str (bucket_name c) @ '' is not a valid S3 bucket name''))
      else Inr ())"

text \<open>The command-line overrides of \<^verbatim>\<open>Config::load\<close>, in the order of the code.\<close>

definition apply_args :: "cli_args \<Rightarrow> config \<Rightarrow> config" where
  "apply_args a c = c\<lparr>
     listen_addr := or_else (arg_listen_addr a) (listen_addr c),
     namenode_uri := or_else (arg_namenode_uri a) (namenode_uri c),
     hdfs_root := or_else (arg_hdfs_root a) (hdfs_root c),
     bucket_name := or_else (arg_bucket_name a) (bucket_name c),
     auth_secret := (case arg_auth_secret a of Some v \<Rightarrow> Some v | None \<Rightarrow> auth_secret c),
     hdfs_user := (case arg_hdfs_user a of Some v \<Rightarrow> Some v | None \<Rightarrow> hdfs_user c),
     hdfs_config_dir :=
       (case arg_hdfs_config_dir a of Some v \<Rightarrow> Some v | None \<Rightarrow> hdfs_config_dir c),
     hdfs_options :=
       (case arg_hdfs_options a of
          Some pairs \<Rightarrow> fold (\<lambda>(k, v) m. m(k \<mapsto> v)) pairs (hdfs_options c)
        | None \<Rightarrow> hdfs_options c)\<rparr>"

definition set_cache_enabled :: "bool \<Rightarrow> config \<Rightarrow> config" where
  "set_cache_enabled b c = c\<lparr>cache := (cache c)\<lparr>enabled := b\<rparr>\<rparr>"

definition apply_cache_switch :: "cli_args \<Rightarrow> bool option \<Rightarrow> config \<Rightarrow> config" where
  "apply_cache_switch a env_switch c0 =
     (let c1 = (case env_switch of Some b \<Rightarrow> set_cache_enabled b c0 | None \<Rightarrow> c0);
          c2 = (if arg_no_cache a then set_cache_enabled False c1 else c1)
      in if arg_cache a then set_cache_enabled True c2 else c2)"

text \<open>The file or environment the overrides start from: the first \<^verbatim>\<open>match\<close> of
  \<^verbatim>\<open>Config::load\<close>.\<close>

definition load_base ::
  "(string \<Rightarrow> 'io + string) \<Rightarrow> (string \<Rightarrow> 'toml + raw_config) \<Rightarrow> (string \<rightharpoonup> string) \<Rightarrow> cli_args
     \<Rightarrow> ('io, 'toml) config_error + config" where
  "load_base read_file parse_toml env a =
     (case arg_config a of
        Some path \<Rightarrow>
          (case read_file path of
             Inl e \<Rightarrow> Inl (ReadFile path e)
           | Inr txt \<Rightarrow> (case parse_toml txt of Inl e \<Rightarrow> Inl (ParseToml e) | Inr r \<Rightarrow> Inr (config_of_raw r)))
      | None \<Rightarrow> Inr (or_else (from_env env) config_default))"

definition load ::
  "(string \<Rightarrow> 'io + string) \<Rightarrow> (string \<Rightarrow> 'toml + raw_config) \<Rightarrow> (string \<rightharpoonup> string)
     \<Rightarrow> (string \<Rightarrow> bool) \<Rightarrow> cli_args \<Rightarrow> ('io, 'toml) config_error + config" where
  "load read_file parse_toml env check_bucket_name a =
     (case load_base read_file parse_toml env a of
        Inl e \<Rightarrow> Inl e
      | Inr c0 \<Rightarrow>
          (case env_bool env ''HDFS_S3_CACHE_ENABLED'' of
             Inl e \<Rightarrow> Inl e
           | Inr env_switch \<Rightarrow>
               (let c = apply_cache_switch a env_switch (apply_args a c0)
                in case validate check_bucket_name c of Inl e \<Rightarrow> Inl e | Inr _ \<Rightarrow> Inr c)))"

section \<open>Properties\<close>

lemma or_else_simps [simp]: "or_else (Some v) d = v" "or_else None d = d"
  by (simp_all add: or_else_def)

lemma cache_switch_enabled:
  "enabled (cache (apply_cache_switch a env_switch c)) =
     (if arg_cache a then True else if arg_no_cache a then False
      else or_else env_switch (enabled (cache c)))"
  by (simp add: apply_cache_switch_def set_cache_enabled_def Let_def split: option.splits)

lemma cache_switch_others:
  "apply_cache_switch a s c = c\<lparr>cache := (cache c)\<lparr>enabled := enabled (cache (apply_cache_switch a s c))\<rparr>\<rparr>"
  by (simp add: apply_cache_switch_def set_cache_enabled_def Let_def split: option.splits)

text \<open>Where the overrides start from: the file, or the environment if it has all three
  settings, or the defaults.\<close>

lemma load_base_InrD:
  assumes "load_base read_file parse_toml env a = Inr c0"
  shows "case arg_config a of
      Some path \<Rightarrow> \<exists>txt raw. read_file path = Inr txt \<and> parse_toml txt = Inr raw \<and> c0 = config_of_raw raw
    | None \<Rightarrow>
        c0 = (case (env ''HDFS_NN_URI'', env ''HDFS_ROOT'', env ''BUCKET_NAME'') of
                (Some nn, Some root, Some bucket) \<Rightarrow>
                  config_default\<lparr>namenode_uri := nn, hdfs_root := root, bucket_name := bucket\<rparr>
              | _ \<Rightarrow> config_default)"
  using assms
  by (auto simp: load_base_def from_env_def config_default_def split: option.splits sum.splits)

lemma extend_options: "fold (\<lambda>(k, v) m. m(k \<mapsto> v)) pairs m = m ++ map_of (rev pairs)"
  by (induction pairs arbitrary: m) (auto simp: map_add_def fun_eq_iff split: option.splits)

lemma apply_args_cache [simp]: "cache (apply_args a c) = cache c"
  by (simp add: apply_args_def)

lemma load_plain:
  assumes "load_base read_file parse_toml Map.empty a = (Inr c :: ('io, 'toml) config_error + config)"
    and "\<not> arg_no_cache a" "\<not> arg_cache a"
    and "validate check_bucket_name (apply_args a c) = (Inr () :: ('io, 'toml) config_error + unit)"
  shows "load read_file parse_toml Map.empty check_bucket_name a = (Inr (apply_args a c) :: ('io, 'toml) config_error + config)"
  using assms by (simp add: load_def env_bool_def apply_cache_switch_def)

lemma validate_InrD:
  assumes "validate chk c = Inr u"
  shows "namenode_uri c \<noteq> []" "hdfs_root c \<noteq> []" "bucket_name c \<noteq> []" "chk (bucket_name c)"
    "0 < max_concurrent_requests c"
    "enabled (cache c) \<Longrightarrow> 0 < listing_ttl_ms (cache c) \<Longrightarrow> 0 < listing_capacity_entries (cache c)"
  using assms by (auto simp: validate_def word_gt_0 split: if_splits)

text \<open>
  Claim C39: a configuration that loads is usable, and every setting of it takes the documented
  precedence.  The three required fields are not empty, the bucket name is legal, at least one
  request is admitted, and an enabled listing cache with a positive TTL has room for an entry.  The
  configuration is the one of the file, or without a file of the environment or the defaults, in
  which exactly the command-line arguments that are given replace a setting -- address, NameNode,
  root, bucket, secret, user and configuration directory -- the options are merged key by key with
  later arguments first, and the cache switch is decided by \<open>--cache\<close>, \<open>--no-cache\<close>,
  \<open>HDFS_S3_CACHE_ENABLED\<close> and the file, in this order; nothing else differs.
\<close>

theorem load_valid:
  assumes "load read_file parse_toml env check_bucket_name a = (Inr c :: ('io, 'toml) config_error + config)"
  shows "namenode_uri c \<noteq> [] \<and> hdfs_root c \<noteq> [] \<and> bucket_name c \<noteq> [] \<and> check_bucket_name (bucket_name c) \<and>
    0 < max_concurrent_requests c \<and>
    (enabled (cache c) \<and> 0 < listing_ttl_ms (cache c) \<longrightarrow> 0 < listing_capacity_entries (cache c)) \<and>
    (\<exists>c0 switch.
       (case arg_config a of
          Some path \<Rightarrow> \<exists>txt raw. read_file path = Inr txt \<and> parse_toml txt = Inr raw \<and> c0 = config_of_raw raw
        | None \<Rightarrow>
            c0 = (case (env ''HDFS_NN_URI'', env ''HDFS_ROOT'', env ''BUCKET_NAME'') of
                    (Some nn, Some root, Some bucket) \<Rightarrow>
                      config_default\<lparr>namenode_uri := nn, hdfs_root := root, bucket_name := bucket\<rparr>
                  | _ \<Rightarrow> config_default)) \<and>
       env_bool env ''HDFS_S3_CACHE_ENABLED'' = (Inr switch :: ('io, 'toml) config_error + bool option) \<and>
       c = c0\<lparr>
         listen_addr := (case arg_listen_addr a of Some v \<Rightarrow> v | None \<Rightarrow> listen_addr c0),
         namenode_uri := (case arg_namenode_uri a of Some v \<Rightarrow> v | None \<Rightarrow> namenode_uri c0),
         hdfs_root := (case arg_hdfs_root a of Some v \<Rightarrow> v | None \<Rightarrow> hdfs_root c0),
         bucket_name := (case arg_bucket_name a of Some v \<Rightarrow> v | None \<Rightarrow> bucket_name c0),
         auth_secret := (if arg_auth_secret a = None then auth_secret c0 else arg_auth_secret a),
         hdfs_user := (if arg_hdfs_user a = None then hdfs_user c0 else arg_hdfs_user a),
         hdfs_config_dir := (if arg_hdfs_config_dir a = None then hdfs_config_dir c0 else arg_hdfs_config_dir a),
         hdfs_options := hdfs_options c0 ++ map_of (rev (or_else (arg_hdfs_options a) [])),
         cache := (cache c0)\<lparr>enabled :=
           (if arg_cache a then True else if arg_no_cache a then False
            else or_else switch (enabled (cache c0)))\<rparr>\<rparr>)"
proof -
  from assms obtain c0 switch where base: "load_base read_file parse_toml env a = (Inr c0 :: ('io, 'toml) config_error + config)"
    and switch: "env_bool env ''HDFS_S3_CACHE_ENABLED'' = (Inr switch :: ('io, 'toml) config_error + bool option)"
    and c: "c = apply_cache_switch a switch (apply_args a c0)"
    and ok: "validate check_bucket_name c = (Inr () :: ('io, 'toml) config_error + unit)"
    by (auto simp: load_def Let_def split: sum.splits)
  have eq: "c = c0\<lparr>
      listen_addr := (case arg_listen_addr a of Some v \<Rightarrow> v | None \<Rightarrow> listen_addr c0),
      namenode_uri := (case arg_namenode_uri a of Some v \<Rightarrow> v | None \<Rightarrow> namenode_uri c0),
      hdfs_root := (case arg_hdfs_root a of Some v \<Rightarrow> v | None \<Rightarrow> hdfs_root c0),
      bucket_name := (case arg_bucket_name a of Some v \<Rightarrow> v | None \<Rightarrow> bucket_name c0),
      auth_secret := (if arg_auth_secret a = None then auth_secret c0 else arg_auth_secret a),
      hdfs_user := (if arg_hdfs_user a = None then hdfs_user c0 else arg_hdfs_user a),
      hdfs_config_dir := (if arg_hdfs_config_dir a = None then hdfs_config_dir c0 else arg_hdfs_config_dir a),
      hdfs_options := hdfs_options c0 ++ map_of (rev (or_else (arg_hdfs_options a) [])),
      cache := (cache c0)\<lparr>enabled := enabled (cache c)\<rparr>\<rparr>"
    using cache_switch_others [of a switch "apply_args a c0"] unfolding c [symmetric]
    by (simp add: apply_args_def or_else_def extend_options split: option.splits)
  have "enabled (cache c) =
      (if arg_cache a then True else if arg_no_cache a then False else or_else switch (enabled (cache c0)))"
    by (simp add: c cache_switch_enabled)
  note load_base_InrD [OF base] switch eq [unfolded this]
  with validate_InrD [OF ok] show ?thesis by (intro conjI exI [of _ c0] exI [of _ switch]) blast+
qed

text \<open>
  The default of \<open>expose_upstream_errors\<close> depends on the source.  A file that does not
  set it turns it off; without a file it is on, both from the environment and by default.
\<close>

lemma expose_default_differs:
  "load_base (\<lambda>p. Inr txt) (\<lambda>t. Inr raw) env (a\<lparr>arg_config := Some path\<rparr>) =
     (Inr (config_of_raw raw) :: ('io, 'toml) config_error + config) \<and>
   expose_upstream_errors (config_of_raw (raw\<lparr>r_expose_upstream_errors := None\<rparr>)) = False \<and>
   (case load_base read_file parse_toml env (a\<lparr>arg_config := None\<rparr>) of
      Inr c \<Rightarrow> expose_upstream_errors c | Inl e \<Rightarrow> False)"
  by (simp add: load_base_def config_of_raw_def or_else_def from_env_def config_default_def split: option.split)

section \<open>Instances\<close>

definition test_args :: cli_args where
  "test_args =
     \<lparr>arg_config = None, arg_listen_addr = None, arg_namenode_uri = None, arg_hdfs_root = Some ''/data'',
      arg_bucket_name = None, arg_auth_secret = None, arg_hdfs_user = None, arg_hdfs_config_dir = None,
      arg_hdfs_options = Some [(''k'', ''1''), (''k'', ''2'')], arg_no_cache = False, arg_cache = False\<rparr>"

theorem load_valid_witness:
  "\<exists>c. load (\<lambda>p. Inl ()) (\<lambda>t. Inl ()) [''HDFS_S3_CACHE_ENABLED'' \<mapsto> '' ON ''] (\<lambda>b. b = ''hdfs'') test_args = Inr c \<and>
     hdfs_root c = ''/data'' \<and> hdfs_options c ''k'' = Some ''2'' \<and> enabled (cache c)"
proof -
  let ?c = "set_cache_enabled True (apply_args test_args config_default)"
  let ?env = "[''HDFS_S3_CACHE_ENABLED'' \<mapsto> '' ON '']"
  have env: "env_bool ?env ''HDFS_S3_CACHE_ENABLED'' = (Inr (Some True) :: (unit, unit) config_error + bool option)"
    by code_simp
  have base: "load_base (\<lambda>p. Inl ()) (\<lambda>t. Inl ()) ?env test_args = (Inr config_default :: (unit, unit) config_error + config)"
    by (simp add: load_base_def test_args_def from_env_def)
  have "validate (\<lambda>b. b = ''hdfs'') ?c = (Inr () :: (unit, unit) config_error + unit)"
    by (simp add: validate_def set_cache_enabled_def apply_args_def test_args_def config_default_def
        cache_config_default_def default_max_concurrent_requests_def)
  then have load: "load (\<lambda>p. Inl ()) (\<lambda>t. Inl ()) ?env (\<lambda>b. b = ''hdfs'') test_args =
      (Inr ?c :: (unit, unit) config_error + config)"
    unfolding load_def base env by (simp add: apply_cache_switch_def test_args_def)
  define c where "c = ?c"
  from load_valid [OF load, folded c_def] env load [folded c_def] show ?thesis
    by (intro exI [of _ c]) (auto simp: test_args_def)
qed

end
