(* ===== verification/Ttl_Cache.thy ===== *)
theory Ttl_Cache
  imports Gateway_Prelude "HOL-Library.While_Combinator"
begin

text \<open>
  \<^verbatim>\<open>src/core/cache.rs\<close>: the bounded, weighted TTL cache behind the gateway's four caches.

  The crate \<^verbatim>\<open>lru\<close> is not part of the repository: its \<^verbatim>\<open>LruCache\<close> is the parameter
  \<open>ops\<close> of every definition (a record of the seven operations the code calls), and its
  documented behaviour is the locale \<open>lru_contract\<close>, stated over the entries in order of use.
  The clock is an argument: \<open>now\<close> is what \<^verbatim>\<open>Instant::now()\<close> gives at the call, in
  nanoseconds, and \<^verbatim>\<open>elapsed()\<close> saturates at zero like subtraction on \<open>nat\<close>.  Weights are
  \<^verbatim>\<open>usize\<close> words, whose arithmetic wraps; that it never does is part of the invariant.
  A mutex guards each operation as a whole, so an operation is one atomic function.
\<close>

section \<open>The LRU map the cache is built on\<close>

record ('k, 'v, 'l) lru_ops =
  lru_new :: "nat \<Rightarrow> 'l"
  lru_peek :: "'l \<Rightarrow> 'k \<Rightarrow> 'v option"
  lru_get :: "'l \<Rightarrow> 'k \<Rightarrow> 'v option \<times> 'l"
  lru_pop :: "'l \<Rightarrow> 'k \<Rightarrow> 'v option \<times> 'l"
  lru_push :: "'l \<Rightarrow> 'k \<Rightarrow> 'v \<Rightarrow> ('k \<times> 'v) option \<times> 'l"
  lru_pop_lru :: "'l \<Rightarrow> ('k \<times> 'v) option \<times> 'l"
  lru_len :: "'l \<Rightarrow> nat"

section \<open>The cache\<close>

record 'v entry =
  e_value :: 'v
  inserted :: nat
  e_weight :: usize

record 'l ttl_cache =
  entries :: 'l
  weight :: usize
  ttl :: nat
  max_weight :: usize

definition ttl_new :: "('k, 'v entry, 'l) lru_ops \<Rightarrow> nat \<Rightarrow> nat \<Rightarrow> usize \<Rightarrow> 'l ttl_cache" where
  "ttl_new ops capacity t mw =
     \<lparr>entries = lru_new ops capacity, weight = 0, ttl = t, max_weight = mw\<rparr>"

definition is_enabled :: "'l ttl_cache \<Rightarrow> bool" where
  "is_enabled c \<longleftrightarrow> ttl c \<noteq> 0"

definition ttl_get ::
  "('k, 'v entry, 'l) lru_ops \<Rightarrow> nat \<Rightarrow> 'l ttl_cache \<Rightarrow> 'k \<Rightarrow> 'v option \<times> 'l ttl_cache" where
  "ttl_get ops now c k =
     (if \<not> is_enabled c then (None, c)
      else
        let expired = (case lru_peek ops (entries c) k of
                         Some e \<Rightarrow> now - inserted e \<ge> ttl c
                       | None \<Rightarrow> False)
        in if expired
           then (case lru_pop ops (entries c) k of
                   (Some e, l) \<Rightarrow> (None, c\<lparr>entries := l, weight := weight c - e_weight e\<rparr>)
                 | (None, l) \<Rightarrow> (None, c\<lparr>entries := l\<rparr>))
           else (case lru_get ops (entries c) k of
                   (r, l) \<Rightarrow> (map_option e_value r, c\<lparr>entries := l\<rparr>)))"

text \<open>The \<^verbatim>\<open>while\<close> loop of \<^verbatim>\<open>insert\<close>; the flag records its \<^verbatim>\<open>break\<close>.\<close>

definition evict_guard :: "usize \<Rightarrow> 'l \<times> usize \<times> bool \<Rightarrow> bool" where
  "evict_guard mw = (\<lambda>(l, w, running). running \<and> w > mw)"

definition evict_step ::
  "('k, 'v entry, 'l) lru_ops \<Rightarrow> 'l \<times> usize \<times> bool \<Rightarrow> 'l \<times> usize \<times> bool" where
  "evict_step ops =
     (\<lambda>(l, w, running).
        case lru_pop_lru ops l of
          (Some (_, e), l') \<Rightarrow> (l', w - e_weight e, running)
        | (None, l') \<Rightarrow> (l', w, False))"

definition evict ::
  "('k, 'v entry, 'l) lru_ops \<Rightarrow> usize \<Rightarrow> 'l \<Rightarrow> usize \<Rightarrow> 'l \<times> usize" where
  "evict ops mw l w =
     (case while (evict_guard mw) (evict_step ops) (l, w, True) of (l', w', _) \<Rightarrow> (l', w'))"

definition ttl_insert ::
  "('k, 'v entry, 'l) lru_ops \<Rightarrow> nat \<Rightarrow> 'l ttl_cache \<Rightarrow> 'k \<Rightarrow> 'v \<Rightarrow> usize \<Rightarrow> 'l ttl_cache" where
  "ttl_insert ops now c k v w =
     (if \<not> is_enabled c \<or> w > max_weight c then c
      else
        case lru_pop ops (entries c) k of (old, l1) \<Rightarrow>
        let w1 = (case old of Some e \<Rightarrow> weight c - e_weight e | None \<Rightarrow> weight c) in
        case lru_push ops l1 k \<lparr>e_value = v, inserted = now, e_weight = w\<rparr> of (evicted, l2) \<Rightarrow>
        let w2 = (case evicted of Some (_, e) \<Rightarrow> w1 - e_weight e | None \<Rightarrow> w1) in
        case evict ops (max_weight c) l2 (w2 + w) of (l3, w3) \<Rightarrow>
          c\<lparr>entries := l3, weight := w3\<rparr>)"

definition ttl_remove ::
  "('k, 'v entry, 'l) lru_ops \<Rightarrow> 'l ttl_cache \<Rightarrow> 'k \<Rightarrow> 'l ttl_cache" where
  "ttl_remove ops c k =
     (case lru_pop ops (entries c) k of
        (Some e, l) \<Rightarrow> c\<lparr>entries := l, weight := weight c - e_weight e\<rparr>
      | (None, l) \<Rightarrow> c\<lparr>entries := l\<rparr>)"

definition ttl_len :: "('k, 'v entry, 'l) lru_ops \<Rightarrow> 'l ttl_cache \<Rightarrow> nat" where
  "ttl_len ops c = lru_len ops (entries c)"

definition ttl_is_empty :: "('k, 'v entry, 'l) lru_ops \<Rightarrow> 'l ttl_cache \<Rightarrow> bool" where
  "ttl_is_empty ops c \<longleftrightarrow> ttl_len ops c = 0"

section \<open>Association lists in order of use\<close>

definition del_key :: "'k \<Rightarrow> ('k \<times> 'v) list \<Rightarrow> ('k \<times> 'v) list" where
  "del_key k = filter (\<lambda>p. fst p \<noteq> k)"

definition promote :: "'k \<Rightarrow> ('k \<times> 'v) list \<Rightarrow> ('k \<times> 'v) list" where
  "promote k xs = (case map_of xs k of Some v \<Rightarrow> (k, v) # del_key k xs | None \<Rightarrow> xs)"

definition push_front :: "nat \<Rightarrow> 'k \<Rightarrow> 'v \<Rightarrow> ('k \<times> 'v) list \<Rightarrow> ('k \<times> 'v) list" where
  "push_front cap k v xs =
     (if k \<in> fst ` set xs then (k, v) # del_key k xs
      else if length xs < cap then (k, v) # xs
      else (k, v) # butlast xs)"

definition push_out :: "nat \<Rightarrow> 'k \<Rightarrow> ('k \<times> 'v) list \<Rightarrow> ('k \<times> 'v) option" where
  "push_out cap k xs =
     (case map_of xs k of
        Some v \<Rightarrow> Some (k, v)
      | None \<Rightarrow> if length xs < cap \<or> xs = [] then None else Some (last xs))"

lemma map_of_del_key [simp]: "map_of (del_key k xs) k' = (if k' = k then None else map_of xs k')"
  by (induction xs) (auto simp: del_key_def)

lemma fst_del_key [simp]: "fst ` set (del_key k xs) = fst ` set xs - {k}"
  by (auto simp: del_key_def)

lemma distinct_del_key [simp]: "distinct (map fst xs) \<Longrightarrow> distinct (map fst (del_key k xs))"
  by (auto simp: del_key_def distinct_map_filter)

lemma length_del_key: "length (del_key k xs) \<le> length xs"
  by (simp add: del_key_def)

lemma del_key_id: "k \<notin> fst ` set xs \<Longrightarrow> del_key k xs = xs"
  by (auto simp: del_key_def filter_id_conv)

lemma map_of_promote [simp]: "map_of (promote k xs) = map_of xs"
  by (auto simp: promote_def fun_eq_iff split: option.splits)

lemma map_of_butlast:
  assumes "distinct (map fst xs)" "xs \<noteq> []"
  shows "map_of (butlast xs) k = (if k = fst (last xs) then None else map_of xs k)"
proof -
  have xs: "xs = butlast xs @ [last xs]" using assms(2) by simp
  with assms(1) have "fst (last xs) \<notin> fst ` set (butlast xs)"
    by (metis distinct_append disjoint_iff image_set list.set_intros(1) list.simps(9) map_append)
  then have "map_of (butlast xs) (fst (last xs)) = None" by (simp add: map_of_eq_None_iff)
  moreover have "map_of xs k = (map_of [last xs] ++ map_of (butlast xs)) k"
    by (subst xs) (simp only: map_of_append)
  ultimately show ?thesis by (cases "last xs") (auto simp: map_add_def split: option.splits)
qed

lemma distinct_butlast_fst: "distinct (map fst xs) \<Longrightarrow> distinct (map fst (butlast xs))"
  by (simp add: map_butlast distinct_butlast)

text \<open>The weight an entry list carries.\<close>

definition total_weight :: "('k \<times> 'v entry) list \<Rightarrow> nat" where
  "total_weight xs = sum_list (map (\<lambda>p. unat (e_weight (snd p))) xs)"

lemma total_weight_simps [simp]: "total_weight [] = 0" "total_weight (p # xs) = unat (e_weight (snd p)) + total_weight xs"
  by (simp_all add: total_weight_def)

lemma total_weight_del_key:
  "distinct (map fst xs) \<Longrightarrow>
     total_weight xs = total_weight (del_key k xs) + (case map_of xs k of Some e \<Rightarrow> unat (e_weight e) | None \<Rightarrow> 0)"
  by (induction xs) (auto simp: del_key_def filter_id_conv map_of_eq_None_iff rev_image_eqI
        split: option.splits)

lemma total_weight_butlast:
  "xs \<noteq> [] \<Longrightarrow> total_weight xs = total_weight (butlast xs) + unat (e_weight (snd (last xs)))"
  by (induction xs) auto

lemma unat_minus_le: "unat (b :: usize) \<le> unat a \<Longrightarrow> unat (a - b) = unat a - unat b"
  by (simp add: unat_sub word_le_nat_alt)

section \<open>The contract of the LRU map\<close>

text \<open>
  The documented behaviour of \<^verbatim>\<open>lru::LruCache\<close>.  \<open>items\<close> lists the entries, most recently used
  first; \<^verbatim>\<open>peek\<close> does not touch the order, \<^verbatim>\<open>get\<close> moves the entry to the front,
  \<^verbatim>\<open>push\<close> returns the entry it replaced or pushed out, \<^verbatim>\<open>pop_lru\<close> takes the last one.
\<close>

locale lru_contract =
  fixes ops :: "('k, 'v, 'l) lru_ops"
    and valid :: "'l \<Rightarrow> bool"
    and cap :: "'l \<Rightarrow> nat"
    and items :: "'l \<Rightarrow> ('k \<times> 'v) list"
  assumes new_law: "0 < n \<Longrightarrow> valid (lru_new ops n) \<and> items (lru_new ops n) = [] \<and> cap (lru_new ops n) = n"
    and valid_law: "valid l \<Longrightarrow> distinct (map fst (items l)) \<and> length (items l) \<le> cap l \<and> 0 < cap l"
    and peek_law: "valid l \<Longrightarrow> lru_peek ops l k = map_of (items l) k"
    and get_law: "valid l \<Longrightarrow> lru_get ops l k = (r, l') \<Longrightarrow>
      r = map_of (items l) k \<and> valid l' \<and> cap l' = cap l \<and> items l' = promote k (items l)"
    and pop_law: "valid l \<Longrightarrow> lru_pop ops l k = (r, l') \<Longrightarrow>
      r = map_of (items l) k \<and> valid l' \<and> cap l' = cap l \<and> items l' = del_key k (items l)"
    and push_law: "valid l \<Longrightarrow> lru_push ops l k v = (out, l') \<Longrightarrow>
      out = push_out (cap l) k (items l) \<and> valid l' \<and> cap l' = cap l \<and>
      items l' = push_front (cap l) k v (items l)"
    and pop_lru_law: "valid l \<Longrightarrow> lru_pop_lru ops l = (out, l') \<Longrightarrow>
      out = (if items l = [] then None else Some (last (items l))) \<and>
      valid l' \<and> cap l' = cap l \<and> items l' = butlast (items l)"
    and len_law: "valid l \<Longrightarrow> lru_len ops l = length (items l)"

text \<open>
  The invariant of a cache: the counter is the sum of the entries' weights and stays in the
  budget.  The budget is at most half the range of \<^verbatim>\<open>usize\<close>, so adding one more entry before
  evicting cannot overflow.
\<close>

definition cache_inv ::
  "('l \<Rightarrow> bool) \<Rightarrow> ('l \<Rightarrow> ('k \<times> 'v entry) list) \<Rightarrow> 'l ttl_cache \<Rightarrow> bool" where
  "cache_inv valid items c \<longleftrightarrow>
     valid (entries c) \<and> unat (weight c) = total_weight (items (entries c)) \<and>
     unat (weight c) \<le> unat (max_weight c) \<and> 2 * unat (max_weight c) < 2 ^ 64"

text \<open>What a lookup at time \<open>now\<close> may answer: the stored value, while it is younger than the
  TTL.\<close>

definition live ::
  "('l \<Rightarrow> ('k \<times> 'v entry) list) \<Rightarrow> 'l ttl_cache \<Rightarrow> nat \<Rightarrow> 'k \<Rightarrow> 'v option" where
  "live items c now k =
     (case map_of (items (entries c)) k of
        Some e \<Rightarrow> if now - inserted e < ttl c then Some (e_value e) else None
      | None \<Rightarrow> None)"

locale ttl_lru = lru_contract ops valid cap items
  for ops :: "('k, 'v entry, 'l) lru_ops" and valid cap items
begin

lemma evict_measure:
  assumes "valid l" "evict_guard mw (l, w, b)" "unat w = total_weight (items l)"
  shows "(evict_step ops (l, w, b), (l, w, b)) \<in> measure (\<lambda>(l, w, b). length (items l) + (if b then 1 else 0))"
proof -
  obtain out l' where step: "lru_pop_lru ops l = (out, l')" by fastforce
  with pop_lru_law [OF assms(1) step] assms(2) show ?thesis
    by (cases "last (items l)") (auto simp: evict_step_def evict_guard_def split: if_splits)
qed

lemma evict_step_items:
  assumes "valid l" "unat w = total_weight (items l)" "evict_step ops (l, w, b) = (l', w', b')"
  shows "valid l' \<and> unat w' = total_weight (items l') \<and> cap l' = cap l \<and> items l' = butlast (items l)
    \<and> (items l = [] \<longrightarrow> w' = w)"
proof -
  obtain out l1 where step: "lru_pop_lru ops l = (out, l1)" by fastforce
  note law = pop_lru_law [OF assms(1) step]
  show ?thesis
  proof (cases "items l = []")
    case True
    with law step assms show ?thesis by (auto simp: evict_step_def)
  next
    case False
    obtain k e where last: "last (items l) = (k, e)" by fastforce
    with law False step assms(3) have eq: "l' = l1" "w' = w - e_weight e"
      by (auto simp: evict_step_def)
    have "total_weight (items l) = total_weight (butlast (items l)) + unat (e_weight e)"
      using total_weight_butlast [OF False] last by simp
    then have "unat w' = total_weight (butlast (items l))"
      using eq assms(2) by (simp add: unat_minus_le)
    with law eq False show ?thesis by simp
  qed
qed

text \<open>What holds throughout the eviction of \<open>l\<close>; an entry in front that fits the budget alone stays.\<close>

abbreviation evict_inv where
  "evict_inv mw l \<equiv> \<lambda>(l1, w1, b1 :: bool). valid l1 \<and> unat w1 = total_weight (items l1) \<and> cap l1 = cap l \<and>
     prefix (items l1) (items l) \<and> (\<not> b1 \<longrightarrow> items l1 = []) \<and>
     (\<forall>p ps. items l = p # ps \<longrightarrow> unat (e_weight (snd p)) \<le> unat mw \<longrightarrow> items l1 \<noteq> [])"

lemma evict_inv_step:
  assumes inv: "evict_inv mw l s" and guard: "evict_guard mw s"
  shows "evict_inv mw l (evict_step ops s)"
proof -
  obtain l1 w1 b1 where s: "s = (l1, w1, b1)" by (cases s)
  obtain l2 w2 b2 where s2: "evict_step ops s = (l2, w2, b2)" by (cases "evict_step ops s")
  from inv s have I: "valid l1" "unat w1 = total_weight (items l1)" "cap l1 = cap l"
    "prefix (items l1) (items l)" by auto
  from evict_step_items [OF I(1,2)] s s2
  have new: "valid l2" "unat w2 = total_weight (items l2)" "cap l2 = cap l1" "items l2 = butlast (items l1)"
    by auto
  have flag: "items l1 = []" if "\<not> b2"
    using that s s2 guard pop_lru_law [OF I(1)]
    by (fastforce simp: evict_step_def evict_guard_def split: prod.splits option.splits if_splits)
  have keep: "items l2 \<noteq> []" if "items l = p # ps" "unat (e_weight (snd p)) \<le> unat mw" for p ps
  proof
    assume "items l2 = []"
    moreover from inv s that have ne: "items l1 \<noteq> []" by auto
    ultimately have "items l1 = [p]"
      using new(4) I(4) that by (cases "items l1") (auto simp: prefix_Cons split: if_splits)
    with I(2) that have "unat w1 \<le> unat mw" by simp
    with guard s show False by (simp add: evict_guard_def word_less_nat_alt)
  qed
  have "prefix (items l2) (items l)"
    using new(4) I(4) by (metis prefix_order.order_trans prefixeq_butlast)
  with new I flag keep s2 show ?thesis by (auto simp: new(4))
qed

text \<open>The eviction loop ends, within the budget, and drops entries from the old end only.\<close>

lemma evict_spec:
  assumes "valid l" "unat w = total_weight (items l)" "evict ops mw l w = (l', w')"
  shows "valid l' \<and> unat w' = total_weight (items l') \<and> w' \<le> mw \<and> cap l' = cap l \<and>
         prefix (items l') (items l) \<and>
         (\<forall>p ps. items l = p # ps \<longrightarrow> unat (e_weight (snd p)) \<le> unat mw \<longrightarrow> items l' \<noteq> [])"
proof -
  let ?r = "while (evict_guard mw) (evict_step ops) (l, w, True)"
  have "evict_inv mw l ?r \<and> \<not> evict_guard mw ?r"
  proof (rule while_rule [where P = "evict_inv mw l" and r = "measure (\<lambda>(l, w, b). length (items l) + (if b then 1 else 0))"])
    show "evict_inv mw l (l, w, True)" using assms(1,2) by auto
  next
    fix s assume "evict_inv mw l s" "evict_guard mw s"
    then show "evict_inv mw l (evict_step ops s)" by (rule evict_inv_step)
  next
    fix s assume "evict_inv mw l s" "evict_guard mw s"
    then show "(evict_step ops s, s) \<in> measure (\<lambda>(l, w, b). length (items l) + (if b then 1 else 0))"
      using evict_measure by (cases s) auto
  qed auto
  moreover obtain b where "?r = (l', w', b)"
    using assms(3) by (cases ?r) (auto simp: evict_def)
  ultimately show ?thesis
    by (auto simp: evict_guard_def not_less word_le_nat_alt)
qed

text \<open>After an insertion the new entry is in front and the entries behind it were there before.\<close>

text \<open>A push in front of a map without the key, and the weight after the entry it pushes out.\<close>

lemma push_new_spec:
  assumes v: "valid l" and w: "unat w = total_weight (items l)" and new: "map_of (items l) k = None"
    and push: "lru_push ops l k e = (out, l')"
  shows "\<exists>rest. items l' = (k, e) # rest \<and> prefix rest (items l) \<and> valid l' \<and> cap l' = cap l \<and>
    unat (case out of Some (_, e') \<Rightarrow> w - e_weight e' | None \<Rightarrow> w) = total_weight rest"
proof (cases "length (items l) < cap l")
  case True
  with push_law [OF v push] new new [unfolded map_of_eq_None_iff] have "items l' = (k, e) # items l" "out = None"
    by (auto simp: push_front_def push_out_def)
  moreover have "valid l'" "cap l' = cap l" using push_law [OF v push] by auto
  ultimately show ?thesis using w by simp
next
  case False
  with valid_law [OF v] have ne: "items l \<noteq> []" by auto
  with False push_law [OF v push] new new [unfolded map_of_eq_None_iff] have "items l' = (k, e) # butlast (items l)" "out = Some (last (items l))"
    by (auto simp: push_front_def push_out_def)
  moreover have "valid l'" "cap l' = cap l" using push_law [OF v push] by auto
  ultimately show ?thesis using w total_weight_butlast [OF ne]
    by (auto simp: unat_minus_le prefixeq_butlast split: prod.splits)
qed

lemma insert_spec:
  assumes inv: "cache_inv valid items c" and on: "is_enabled c" "w \<le> max_weight c"
  shows "cache_inv valid items (ttl_insert ops now c k v w) \<and>
    (\<exists>rest. items (entries (ttl_insert ops now c k v w)) =
              (k, \<lparr>e_value = v, inserted = now, e_weight = w\<rparr>) # rest \<and>
            prefix rest (del_key k (items (entries c)))) \<and>
    ttl (ttl_insert ops now c k v w) = ttl c \<and>
    max_weight (ttl_insert ops now c k v w) = max_weight c \<and>
    cap (entries (ttl_insert ops now c k v w)) = cap (entries c)"
proof -
  let ?e = "\<lparr>e_value = v, inserted = now, e_weight = w\<rparr>" and ?xs = "items (entries c)"
  from inv have c: "valid (entries c)" "unat (weight c) = total_weight ?xs"
    "unat (weight c) \<le> unat (max_weight c)" "2 * unat (max_weight c) < 2 ^ 64"
    by (auto simp: cache_inv_def)
  obtain old l1 where pop: "lru_pop ops (entries c) k = (old, l1)" by fastforce
  note l1 = pop_law [OF c(1) pop]
  define w1 where "w1 = (case old of Some e \<Rightarrow> weight c - e_weight e | None \<Rightarrow> weight c)"
  have d: "distinct (map fst ?xs)" using valid_law [OF c(1)] by blast
  have w1: "unat w1 = total_weight (items l1)"
    using total_weight_del_key [OF d, of k] c(2) l1
    by (auto simp: w1_def unat_minus_le split: option.splits)
  obtain out l2 where push: "lru_push ops l1 k ?e = (out, l2)" by fastforce
  have "valid l1" using l1 by blast
  define w2 where "w2 = (case out of Some (_, e) \<Rightarrow> w1 - e_weight e | None \<Rightarrow> w1)"
  obtain rest where rest: "items l2 = (k, ?e) # rest" "prefix rest (del_key k ?xs)" "unat w2 = total_weight rest"
    and l2: "valid l2" "cap l2 = cap l1"
    using push_new_spec [OF \<open>valid l1\<close> w1 _ push] l1 unfolding w2_def by auto
  have "total_weight rest \<le> unat (max_weight c)"
  proof -
    have "total_weight rest \<le> total_weight (del_key k ?xs)"
      using rest(2) by (auto simp: prefix_def total_weight_def)
    with total_weight_del_key [OF d, of k] c show ?thesis by linarith
  qed
  then have sum: "unat (w2 + w) = total_weight (items l2)"
    using rest on(2) c(4) by (simp add: unat_word_ariths word_le_nat_alt)
  obtain l3 w3 where ev: "evict ops (max_weight c) l2 (w2 + w) = (l3, w3)" by fastforce
  note l3 = evict_spec [OF l2(1) sum ev]
  have res: "ttl_insert ops now c k v w = c\<lparr>entries := l3, weight := w3\<rparr>"
    using on pop push ev [unfolded w2_def w1_def] by (simp add: ttl_insert_def Let_def not_less)
  have "items l3 \<noteq> []" using l3 rest on(2) by (simp add: word_le_nat_alt)
  with l3 rest obtain rest' where "items l3 = (k, ?e) # rest'" "prefix rest' rest"
    by (cases "items l3") auto
  with rest(2) l3 l2 l1 c(4) res show ?thesis
    by (auto simp: cache_inv_def word_le_nat_alt intro: prefix_order.order_trans)
qed

lemma insert_noop:
  "\<not> is_enabled c \<or> w > max_weight c \<Longrightarrow> ttl_insert ops now c k v w = c"
  by (auto simp: ttl_insert_def)

lemma map_of_prefix: "prefix xs ys \<Longrightarrow> map_of xs k = Some e \<Longrightarrow> map_of ys k = Some e"
  by (auto simp: prefix_def map_add_def split: option.splits)

lemma remove_spec:
  assumes inv: "cache_inv valid items c"
  shows "cache_inv valid items (ttl_remove ops c k) \<and>
    items (entries (ttl_remove ops c k)) = del_key k (items (entries c)) \<and>
    ttl (ttl_remove ops c k) = ttl c \<and> max_weight (ttl_remove ops c k) = max_weight c \<and>
    cap (entries (ttl_remove ops c k)) = cap (entries c)"
proof -
  obtain old l1 where pop: "lru_pop ops (entries c) k = (old, l1)" by fastforce
  from inv have c: "valid (entries c)" "unat (weight c) = total_weight (items (entries c))"
    by (auto simp: cache_inv_def)
  note l1 = pop_law [OF c(1) pop]
  have d: "distinct (map fst (items (entries c)))" using valid_law [OF c(1)] by blast
  from total_weight_del_key [OF d, of k] l1 pop inv show ?thesis
    by (auto simp: ttl_remove_def cache_inv_def unat_minus_le split: option.splits)
qed

lemma get_spec:
  assumes inv: "cache_inv valid items c" and on: "is_enabled c"
  shows "fst (ttl_get ops now c k) = live items c now k \<and>
    cache_inv valid items (snd (ttl_get ops now c k)) \<and>
    map_of (items (entries (snd (ttl_get ops now c k)))) =
      (if live items c now k = None then (map_of (items (entries c)))(k := None)
       else map_of (items (entries c))) \<and>
    ttl (snd (ttl_get ops now c k)) = ttl c \<and>
    max_weight (snd (ttl_get ops now c k)) = max_weight c \<and>
    cap (entries (snd (ttl_get ops now c k))) = cap (entries c)"
proof (cases "\<exists>e. map_of (items (entries c)) k = Some e \<and> now - inserted e \<ge> ttl c")
  case True
  from inv have v: "valid (entries c)" by (simp add: cache_inv_def)
  from True have "ttl_get ops now c k = (None, ttl_remove ops c k)"
    using on peek_law [OF v]
    by (auto simp: ttl_get_def ttl_remove_def split: prod.splits option.splits)
  with True remove_spec [OF inv, of k] show ?thesis by (auto simp: live_def fun_eq_iff)
next
  case False
  from inv have v: "valid (entries c)" by (simp add: cache_inv_def)
  obtain r l1 where get: "lru_get ops (entries c) k = (r, l1)" by fastforce
  note l1 = get_law [OF v get]
  have d: "distinct (map fst (items (entries c)))" using valid_law [OF v] by blast
  have res: "ttl_get ops now c k = (map_option e_value r, c\<lparr>entries := l1\<rparr>)"
    using on get False peek_law [OF v] by (auto simp: ttl_get_def split: option.splits)
  have "total_weight (promote k (items (entries c))) = total_weight (items (entries c))"
    using total_weight_del_key [OF d, of k] by (auto simp: promote_def split: option.splits)
  with res l1 inv False show ?thesis
    by (auto simp: live_def cache_inv_def not_le fun_eq_iff split: option.splits)
qed

lemma get_disabled: "\<not> is_enabled c \<Longrightarrow> ttl_get ops now c k = (None, c)"
  by (simp add: ttl_get_def)

lemma new_inv:
  "0 < n \<Longrightarrow> 2 * unat mw < 2 ^ 64 \<Longrightarrow> cache_inv valid items (ttl_new ops n t mw)"
  using new_law [of n] by (simp add: cache_inv_def ttl_new_def)

lemma insert_inv:
  "cache_inv valid items c \<Longrightarrow> cache_inv valid items (ttl_insert ops now c k v w)"
  using insert_spec insert_noop by (metis not_less)

lemma insert_ttl: "cache_inv valid items c \<Longrightarrow> ttl (ttl_insert ops now c k v w) = ttl c"
  using insert_spec insert_noop by (metis not_less)

lemma insert_lookup:
  assumes "cache_inv valid items c"
    and "map_of (items (entries (ttl_insert ops now c k v w))) k' = Some e"
  shows "k' = k \<and> e = \<lparr>e_value = v, inserted = now, e_weight = w\<rparr> \<and> is_enabled c \<and> w \<le> max_weight c
         \<or> map_of (items (entries c)) k' = Some e
             \<and> (k' = k \<longrightarrow> \<not> is_enabled c \<or> w > max_weight c)"
proof (cases "is_enabled c \<and> w \<le> max_weight c")
  case True
  with insert_spec [OF assms(1), of w now k v] obtain rest where
    "items (entries (ttl_insert ops now c k v w)) =
       (k, \<lparr>e_value = v, inserted = now, e_weight = w\<rparr>) # rest"
    "prefix rest (del_key k (items (entries c)))" by blast
  with assms(2) True show ?thesis
    by (cases "k' = k") (auto dest: map_of_prefix)
next
  case False
  with assms(2) insert_noop [of c w now k v] show ?thesis by (auto simp: not_le)
qed

lemma get_inv: "cache_inv valid items c \<Longrightarrow> cache_inv valid items (snd (ttl_get ops now c k))"
  using get_spec get_disabled by (metis snd_conv)

lemma get_lookup:
  assumes "cache_inv valid items c"
    and "map_of (items (entries (snd (ttl_get ops now c k)))) k' = Some e"
  shows "map_of (items (entries c)) k' = Some e"
  using assms get_spec [OF assms(1), of now k] get_disabled [of c now k]
  by (cases "is_enabled c") (auto split: if_splits)

lemma get_result: "cache_inv valid items c \<Longrightarrow> fst (ttl_get ops now c k) = live items c now k"
  using get_spec [of c now k] get_disabled [of c now k]
  by (cases "is_enabled c") (auto simp: live_def is_enabled_def split: option.splits)

lemma get_ttl: "cache_inv valid items c \<Longrightarrow> ttl (snd (ttl_get ops now c k)) = ttl c"
  using get_spec [of c now k] get_disabled [of c now k] by (cases "is_enabled c") auto

lemma live_insert_same:
  assumes "cache_inv valid items c" "w \<le> max_weight c" "t - now < ttl c"
  shows "live items (ttl_insert ops now c k v w) t k = Some v"
proof -
  from assms(3) have "is_enabled c" by (simp add: is_enabled_def)
  with insert_spec [OF assms(1) this assms(2), of now k v] assms(3) show ?thesis
    by (auto simp: live_def)
qed

end

section \<open>What a client of the cache may rely on\<close>

text \<open>
  The contract the gateway's handlers use: a lookup answers what the store holds at that time; an
  operation never makes the store hold anything that was not held or inserted, and an inserted
  value is held for less than \<open>age\<close>.  Entries may disappear at any time.
\<close>

locale ttl_store =
  fixes get :: "nat \<Rightarrow> 'c \<Rightarrow> 'k \<Rightarrow> 'v option \<times> 'c"
    and ins :: "nat \<Rightarrow> 'c \<Rightarrow> 'k \<Rightarrow> 'v \<Rightarrow> usize \<Rightarrow> 'c"
    and rem :: "'c \<Rightarrow> 'k \<Rightarrow> 'c"
    and holds :: "'c \<Rightarrow> nat \<Rightarrow> 'k \<Rightarrow> 'v option"
    and age :: "'c \<Rightarrow> nat"
    and inv :: "'c \<Rightarrow> bool"
  assumes get_answers: "inv c \<Longrightarrow> fst (get now c k) = holds c now k"
    and get_law: "inv c \<Longrightarrow> inv (snd (get now c k)) \<and> age (snd (get now c k)) = age c"
    and get_holds: "inv c \<Longrightarrow> holds (snd (get now c k)) t k' = Some u \<Longrightarrow> holds c t k' = Some u"
    and ins_law: "inv c \<Longrightarrow> inv (ins now c k v w) \<and> age (ins now c k v w) = age c"
    and ins_holds: "inv c \<Longrightarrow> holds (ins now c k v w) t k' = Some u \<Longrightarrow>
      k' = k \<and> u = v \<and> t - now < age c \<or> holds c t k' = Some u"
    and rem_law: "inv c \<Longrightarrow> inv (rem c k) \<and> age (rem c k) = age c"
    and rem_holds: "inv c \<Longrightarrow> holds (rem c k) t k' = (if k' = k then None else holds c t k')"
begin

text \<open>Everything held satisfies \<open>P\<close>: kept by lookups and removals, and by an insertion of a
  value that satisfies it for as long as it may be held.\<close>

definition sound :: "(nat \<Rightarrow> 'k \<Rightarrow> 'v \<Rightarrow> bool) \<Rightarrow> 'c \<Rightarrow> bool" where
  "sound P c \<longleftrightarrow> inv c \<and> (\<forall>t k v. holds c t k = Some v \<longrightarrow> P t k v)"

lemma sound_get: "sound P c \<Longrightarrow> sound P (snd (get now c k))"
  using get_law get_holds by (metis sound_def)

lemma sound_get_result: "sound P c \<Longrightarrow> fst (get now c k) = Some v \<Longrightarrow> P now k v"
  using get_answers by (auto simp: sound_def)

lemma sound_mono: "sound P c \<Longrightarrow> (\<And>t k v. P t k v \<Longrightarrow> Q t k v) \<Longrightarrow> sound Q c"
  by (auto simp: sound_def)

lemma sound_ins:
  "sound P c \<Longrightarrow> (\<And>t. t - now < age c \<Longrightarrow> P t k v) \<Longrightarrow> sound P (ins now c k v w)"
  using ins_law ins_holds unfolding sound_def by metis

lemma sound_rem: "sound P c \<Longrightarrow> sound P (rem c k)"
  using rem_law rem_holds unfolding sound_def by (metis option.distinct(1))

end

sublocale ttl_lru \<subseteq> store: ttl_store
  "ttl_get ops" "ttl_insert ops" "ttl_remove ops" "live items" ttl "cache_inv valid items"
proof (unfold_locales, goal_cases)
  case (3 c now k t k' u)
  then show ?case using get_lookup [OF 3(1)] get_ttl [OF 3(1)]
    by (fastforce simp: live_def split: option.splits if_splits)
next
  case (5 c now k v w t k' u)
  then show ?case using insert_lookup [OF 5(1)] insert_ttl [OF 5(1)]
    by (fastforce simp: live_def split: option.splits if_splits)
next
  case (7 c k t k')
  then show ?case using remove_spec [OF 7] by (auto simp: live_def split: option.splits)
qed (use get_result get_inv get_ttl insert_inv insert_ttl remove_spec in auto)

context ttl_lru
begin

lemma is_store:
  "ttl_store (ttl_get ops) (ttl_insert ops) (ttl_remove ops) (live items) ttl (cache_inv valid items)"
  by (rule store.ttl_store_axioms)

lemma sound_new:
  assumes "0 < n" "2 * unat mw < 2 ^ 64"
  shows "ttl_store.sound (live items) (cache_inv valid items) P (ttl_new ops n t mw)"
  using new_inv [OF assms] new_law [OF assms(1)] by (simp add: store.sound_def live_def ttl_new_def)

end

section \<open>Histories\<close>

text \<open>A history of calls on one cache, each with the time at which it took the lock.\<close>

datatype ('k, 'v) cache_op =
    Get nat 'k
  | Insert nat 'k 'v usize
  | Remove 'k

fun cache_step ::
  "('k, 'v entry, 'l) lru_ops \<Rightarrow> ('k, 'v) cache_op \<Rightarrow> 'l ttl_cache \<Rightarrow> 'l ttl_cache" where
  "cache_step ops (Get now k) c = snd (ttl_get ops now c k)"
| "cache_step ops (Insert now k v w) c = ttl_insert ops now c k v w"
| "cache_step ops (Remove k) c = ttl_remove ops c k"

definition cache_run ::
  "('k, 'v entry, 'l) lru_ops \<Rightarrow> ('k, 'v) cache_op list \<Rightarrow> 'l ttl_cache \<Rightarrow> 'l ttl_cache" where
  "cache_run ops h c = fold (cache_step ops) h c"

lemma cache_run_simps [simp]:
  "cache_run ops [] c = c"
  "cache_run ops (h @ [x]) c = cache_step ops x (cache_run ops h c)"
  by (simp_all add: cache_run_def)

text \<open>An operation that ends the life of what is stored under \<open>k\<close>: a removal, or an insertion
  the cache accepts.\<close>

fun overwrites :: "usize \<Rightarrow> 'k \<Rightarrow> ('k, 'v) cache_op \<Rightarrow> bool" where
  "overwrites mw k (Get _ _) = False"
| "overwrites mw k (Insert _ k' _ w) = (k' = k \<and> w \<le> mw)"
| "overwrites mw k (Remove k') = (k' = k)"

context ttl_lru
begin

lemma step_inv:
  assumes "cache_inv valid items c"
  shows "cache_inv valid items (cache_step ops x c) \<and> ttl (cache_step ops x c) = ttl c \<and>
         max_weight (cache_step ops x c) = max_weight c \<and>
         cap (entries (cache_step ops x c)) = cap (entries c)"
proof (cases x)
  case (Get now k)
  with assms get_spec [OF assms, of now k] get_disabled [of c now k] show ?thesis
    by (cases "is_enabled c") auto
next
  case (Insert now k v w)
  with assms insert_spec [OF assms, of w now k v] insert_noop [of c w now k v] show ?thesis
    by (cases "is_enabled c \<and> w \<le> max_weight c") (auto simp: not_le)
next
  case (Remove k)
  with remove_spec [OF assms, of k] show ?thesis by simp
qed

lemma run_inv:
  assumes "cache_inv valid items c"
  shows "cache_inv valid items (cache_run ops h c) \<and> ttl (cache_run ops h c) = ttl c \<and>
         max_weight (cache_run ops h c) = max_weight c \<and>
         cap (entries (cache_run ops h c)) = cap (entries c)"
  by (induction h rule: rev_induct) (use assms step_inv in auto)

lemma run_last_write:
  assumes "cache_inv valid items c" "items (entries c) = []" "is_enabled c"
    and "map_of (items (entries (cache_run ops h c))) k = Some e"
  shows "\<exists>h1 h2. h = h1 @ Insert (inserted e) k (e_value e) (e_weight e) # h2 \<and>
           (\<forall>x \<in> set h2. \<not> overwrites (max_weight c) k x)"
  using assms(4)
proof (induction h arbitrary: e rule: rev_induct)
  case Nil
  with assms(2) show ?case by simp
next
  case (snoc x h)
  let ?c = "cache_run ops h c"
  have inv: "cache_inv valid items ?c" and mw: "max_weight ?c = max_weight c"
    and on: "is_enabled ?c"
    using run_inv [OF assms(1)] assms(3) by (auto simp: is_enabled_def)
  have old: ?case if "map_of (items (entries ?c)) k = Some e" "\<not> overwrites (max_weight c) k x"
  proof -
    from snoc.IH [OF that(1)] obtain h1 h2 where
      "h = h1 @ Insert (inserted e) k (e_value e) (e_weight e) # h2"
      "\<forall>x \<in> set h2. \<not> overwrites (max_weight c) k x" by blast
    with that(2) show ?thesis by (intro exI [of _ h1] exI [of _ "h2 @ [x]"]) auto
  qed
  show ?case
  proof (cases x)
    case (Get now k')
    with snoc.prems get_lookup [OF inv] old show ?thesis by simp
  next
    case (Remove k')
    with snoc.prems remove_spec [OF inv, of k'] old show ?thesis by (auto split: if_splits)
  next
    case (Insert now k' v w)
    with snoc.prems insert_lookup [OF inv, of now k' v w k e] mw on
    consider "k = k'" "e = \<lparr>e_value = v, inserted = now, e_weight = w\<rparr>"
      | "map_of (items (entries ?c)) k = Some e" "\<not> overwrites (max_weight c) k x"
      by (auto simp: not_le)
    then show ?thesis
    proof cases
      case 1
      with Insert show ?thesis by (intro exI [of _ h] exI [of _ "[]"]) auto
    next
      case 2
      with old show ?thesis by simp
    qed
  qed
qed

end

section \<open>A list-backed LRU map\<close>

text \<open>
  A capacity and a list of entries in order of use satisfy the contract: it has a model, and
  the cache can be executed.
\<close>

definition list_lru :: "('k, 'v, nat \<times> ('k \<times> 'v) list) lru_ops" where
  "list_lru =
     \<lparr>lru_new = (\<lambda>n. (n, [])),
      lru_peek = (\<lambda>(n, xs) k. map_of xs k),
      lru_get = (\<lambda>(n, xs) k. (map_of xs k, (n, promote k xs))),
      lru_pop = (\<lambda>(n, xs) k. (map_of xs k, (n, del_key k xs))),
      lru_push = (\<lambda>(n, xs) k v. (push_out n k xs, (n, push_front n k v xs))),
      lru_pop_lru = (\<lambda>(n, xs). (if xs = [] then None else Some (last xs), (n, butlast xs))),
      lru_len = (\<lambda>(n, xs). length xs)\<rparr>"

definition list_lru_valid :: "nat \<times> ('k \<times> 'v) list \<Rightarrow> bool" where
  "list_lru_valid l \<longleftrightarrow> distinct (map fst (snd l)) \<and> length (snd l) \<le> fst l \<and> 0 < fst l"

lemma list_lru_promote:
  assumes "distinct (map fst xs)" "length xs \<le> n"
  shows "distinct (map fst (promote k xs)) \<and> length (promote k xs) \<le> n"
proof (cases "map_of xs k")
  case (Some v)
  then have "k \<in> fst ` set xs" by (metis map_of_eq_None_iff option.distinct(1))
  then have "length (del_key k xs) < length xs"
    unfolding del_key_def by (metis (mono_tags, lifting) imageE length_filter_less)
  with Some assms show ?thesis by (simp add: promote_def)
qed (use assms in \<open>simp add: promote_def\<close>)

lemma list_lru_push:
  assumes "distinct (map fst xs)" "length xs \<le> n" "0 < n"
  shows "distinct (map fst (push_front n k v xs)) \<and> length (push_front n k v xs) \<le> n"
proof (cases "k \<in> fst ` set xs")
  case True
  then have "length (del_key k xs) < length xs"
    unfolding del_key_def by (metis (mono_tags, lifting) imageE length_filter_less)
  with True assms show ?thesis by (simp add: push_front_def)
next
  case False
  then have "k \<notin> fst ` set (butlast xs)" by (auto dest: in_set_butlastD)
  with False assms show ?thesis by (auto simp: push_front_def distinct_butlast_fst)
qed

interpretation list_lru: lru_contract list_lru list_lru_valid fst snd
proof (unfold_locales, goal_cases)
  case (4 l k r l')
  then show ?case using list_lru_promote [of "snd l" "fst l" k]
    by (auto simp: list_lru_def list_lru_valid_def split: prod.splits)
next
  case (5 l k r l')
  then show ?case using length_del_key [of k "snd l"]
    by (auto simp: list_lru_def list_lru_valid_def split: prod.splits)
next
  case (6 l k v out l')
  then show ?case using list_lru_push [of "snd l" "fst l" k v]
    by (auto simp: list_lru_def list_lru_valid_def split: prod.splits)
next
  case (7 l out l')
  then show ?case
    by (auto simp: list_lru_def list_lru_valid_def distinct_butlast_fst split: prod.splits)
qed (auto simp: list_lru_def list_lru_valid_def split: prod.splits)

interpretation list_ttl: ttl_lru list_lru list_lru_valid fst snd
  by unfold_locales

section \<open>Properties\<close>

text \<open>
  Claim C8: the memory bound.  Whatever calls are made on a fresh cache, in any order and at any
  times, the cache holds at most \<open>capacity\<close> entries, its weight counter is the sum of the
  weights of the entries it holds (so no subtraction underflows and no addition overflows), and
  that sum stays within \<open>max_weight\<close>.
\<close>

theorem ttl_cache_bounded:
  assumes "lru_contract ops valid cap items" "0 < capacity" "2 * unat mw < 2 ^ 64"
  shows "let c = cache_run ops h (ttl_new ops capacity t mw)
         in ttl_len ops c \<le> capacity \<and> unat (weight c) = total_weight (items (entries c)) \<and>
            unat (weight c) \<le> unat mw"
proof -
  define c where "c = cache_run ops h (ttl_new ops capacity t mw)"
  note L = ttl_lru.intro [OF assms(1)]
  have "cache_inv valid items (ttl_new ops capacity t mw)"
    using ttl_lru.new_inv [OF L assms(2,3)] .
  from ttl_lru.run_inv [OF L this, of h] lru_contract.new_law [OF assms(1,2)]
  have c: "cache_inv valid items c" "max_weight c = mw" "cap (entries c) = capacity"
    by (simp_all add: c_def ttl_new_def)
  then show ?thesis
    using lru_contract.valid_law [OF assms(1), of "entries c"]
      lru_contract.len_law [OF assms(1), of "entries c"]
    by (auto simp: cache_inv_def ttl_len_def Let_def c_def [symmetric])
qed

text \<open>
  Claim C15: a lookup is fresh and reads the last write.  If, after any history of calls on a fresh
  cache, a lookup of \<open>k\<close> at time \<open>now\<close> answers \<open>v\<close>, then \<open>v\<close> was inserted for \<open>k\<close> less than
  one TTL earlier and nothing since then removed the key or replaced its value.  A cache with a
  zero TTL never answers.
\<close>

theorem ttl_get_last_write:
  assumes "lru_contract ops valid cap items" "0 < capacity" "2 * unat mw < 2 ^ 64"
    and "fst (ttl_get ops now (cache_run ops h (ttl_new ops capacity t mw)) k) = Some v"
  shows "\<exists>h1 h2 t0 w. h = h1 @ Insert t0 k v w # h2 \<and> now - t0 < t \<and>
           (\<forall>x \<in> set h2. \<not> overwrites mw k x)"
proof -
  let ?c0 = "ttl_new ops capacity t mw"
  note L = ttl_lru.intro [OF assms(1)]
  have inv: "cache_inv valid items ?c0" using ttl_lru.new_inv [OF L assms(2,3)] .
  have c0: "items (entries ?c0) = []" "max_weight ?c0 = mw" "ttl ?c0 = t"
    using lru_contract.new_law [OF assms(1,2)] by (simp_all add: ttl_new_def)
  note run = ttl_lru.run_inv [OF L inv, of h]
  from assms(4) have "live items (cache_run ops h ?c0) now k = Some v"
    using ttl_lru.get_result [OF L] run by metis
  then obtain e where e: "map_of (items (entries (cache_run ops h ?c0))) k = Some e"
    "now - inserted e < t" "v = e_value e"
    using run c0 by (auto simp: live_def split: option.splits if_splits)
  then have on: "is_enabled ?c0" using c0 by (simp add: is_enabled_def)
  from ttl_lru.run_last_write [OF L inv c0(1) on e(1)] c0 e show ?thesis by auto
qed

text \<open>
  An accepted insertion is visible.  Right after inserting a value that fits the budget,
  a lookup of its key answers it until the TTL has passed: the insertion's own eviction loop
  never drops the new entry.
\<close>

lemma ttl_insert_then_get:
  assumes "lru_contract ops valid cap items" "0 < capacity" "2 * unat mw < 2 ^ 64"
    and "w \<le> mw" "t - now < d"
  shows "fst (ttl_get ops t
           (ttl_insert ops now (cache_run ops h (ttl_new ops capacity d mw)) k v w) k) = Some v"
proof -
  note L = ttl_lru.intro [OF assms(1)]
  let ?c = "cache_run ops h (ttl_new ops capacity d mw)"
  have inv: "cache_inv valid items ?c" "ttl ?c = d" "max_weight ?c = mw"
    using ttl_lru.run_inv [OF L ttl_lru.new_inv [OF L assms(2,3)], of h] by (simp_all add: ttl_new_def)
  then show ?thesis
    using ttl_lru.get_result [OF L ttl_lru.insert_inv [OF L inv(1)]]
      ttl_lru.live_insert_same [OF L inv(1)] assms(4,5) by metis
qed

text \<open>
  Eviction is least-recently-used first.  After an accepted insertion the new entry is in
  front, and the other entries that survive are an initial part, in order of use, of those that
  were there: an entry is dropped only if everything used less recently is dropped too.
\<close>

lemma ttl_insert_evicts_lru:
  assumes "lru_contract ops valid cap items" "cache_inv valid items c" "is_enabled c"
    and "w \<le> max_weight c"
  shows "\<exists>rest. items (entries (ttl_insert ops now c k v w)) =
                  (k, \<lparr>e_value = v, inserted = now, e_weight = w\<rparr>) # rest \<and>
                prefix rest (del_key k (items (entries c)))"
  using ttl_lru.insert_spec [OF ttl_lru.intro [OF assms(1)] assms(2-4)] by blast

section \<open>Witnesses\<close>

abbreviation demo_history :: "(string, nat) cache_op list" where
  "demo_history \<equiv> [Insert 0 ''a'' 1 3, Insert 1 ''b'' 2 5, Get 2 ''a'', Insert 3 ''c'' 3 7]"

theorem ttl_cache_bounded_witness:
  "let c = cache_run list_lru demo_history (ttl_new list_lru 2 100 10)
   in ttl_len list_lru c \<le> 2 \<and> unat (weight c) = total_weight (snd (entries c)) \<and>
      unat (weight c) \<le> unat (10 :: usize)"
  by (rule ttl_cache_bounded [OF list_lru.lru_contract_axioms]) simp_all

theorem ttl_get_last_write_witness:
  "\<exists>h1 h2 t0 w. demo_history = h1 @ Insert t0 ''c'' 3 w # h2 \<and> 50 - t0 < 100 \<and>
     (\<forall>x \<in> set h2. \<not> overwrites 10 ''c'' x)"
proof (rule ttl_get_last_write [OF list_lru.lru_contract_axioms, where capacity = 2])
  show "fst (ttl_get list_lru 50 (cache_run list_lru demo_history (ttl_new list_lru 2 100 10)) ''c'')
          = Some 3"
    by code_simp
qed simp_all

end
