(* ===== verification/Paths.thy ===== *)
theory Paths
  imports Config
begin

text \<open>
  \<^verbatim>\<open>src/core/path.rs\<close>: the translation between S3 keys and HDFS paths.  The mapper is the
  gateway's containment boundary, so the theory proves what a resolved path looks like (the
  segments of the configured root, then real names), that the two directions are inverse on
  keys the namespace can hold, and that \<open>list_start\<close> bounds a listing without losing a key.
\<close>

section \<open>Definitions\<close>

record path_mapper =
  root :: string
  bucket :: string

text \<open>The \<^verbatim>\<open>for\<close> loop of \<^verbatim>\<open>normalize_abs\<close> over the segments, with its early return.\<close>

fun normalize_loop :: "bool \<Rightarrow> string list \<Rightarrow> string list \<Rightarrow> string list option" where
  "normalize_loop absolute parts [] = Some parts"
| "normalize_loop absolute parts (segment # segments) =
     (if segment = [] \<or> segment = ''.'' then normalize_loop absolute parts segments
      else if segment = ''..''
        then (if parts = [] then (if absolute then None else normalize_loop absolute [] segments)
              else normalize_loop absolute (butlast parts) segments)
      else normalize_loop absolute (parts @ [segment]) segments)"

definition normalize_abs :: "string \<Rightarrow> string option" where
  "normalize_abs path =
     (let absolute = prefix ''/'' path in
      case normalize_loop absolute [] (split_on slash path) of
        None \<Rightarrow> None
      | Some parts \<Rightarrow>
          Some (if absolute then ''/'' @ join_with ''/'' parts else join_with ''/'' parts))"

definition normalize_root :: "string \<Rightarrow> string" where
  "normalize_root r =
     (let rooted = (if prefix ''/'' r then r else ''/'' @ r)
      in or_else (normalize_abs rooted) ''/'')"

definition join_root :: "string \<Rightarrow> string \<Rightarrow> string" where
  "join_root r key = (if r = ''/'' then ''/'' @ key else r @ ''/'' @ key)"

definition path_mapper_new :: "config \<Rightarrow> path_mapper" where
  "path_mapper_new c = \<lparr>root = normalize_root (hdfs_root c), bucket = bucket_name c\<rparr>"

definition key_to_hdfs_path :: "path_mapper \<Rightarrow> string \<Rightarrow> string option" where
  "key_to_hdfs_path m key0 =
     (let key = dropWhile (\<lambda>c. c = slash) key0 in
      if key = [] then None
      else case normalize_abs (join_root (root m) key) of
             None \<Rightarrow> None
           | Some normalized \<Rightarrow>
               (let under_root =
                      (if root m = ''/'' then prefix ''/'' normalized
                       else normalized = root m \<or> prefix (root m @ ''/'') normalized)
                in if under_root then Some normalized else None))"

definition list_start :: "path_mapper \<Rightarrow> string \<Rightarrow> string option" where
  "list_start m pre =
     (let first = hd (split_on slash pre) in
      if first = ''.'' \<or> first = ''..'' then None
      else case rfind_char slash pre of
             None \<Rightarrow> Some (root m)
           | Some i \<Rightarrow> key_to_hdfs_path m (take (Suc i) pre))"

definition strip_prefix :: "string \<Rightarrow> string \<Rightarrow> string option" where
  "strip_prefix p s = (if prefix p s then Some (drop (length p) s) else None)"

definition hdfs_path_to_key :: "path_mapper \<Rightarrow> string \<Rightarrow> string option" where
  "hdfs_path_to_key m hdfs_path =
     (case normalize_abs hdfs_path of
        None \<Rightarrow> None
      | Some normalized \<Rightarrow>
          if normalized = root m then Some []
          else if root m = ''/'' then strip_prefix ''/'' normalized
          else strip_prefix (root m @ ''/'') normalized)"

section \<open>Segments\<close>

text \<open>A real path segment: what a directory entry of HDFS can be called.\<close>

definition real_seg :: "string \<Rightarrow> bool" where
  "real_seg s \<longleftrightarrow> s \<noteq> [] \<and> s \<noteq> ''.'' \<and> s \<noteq> ''..'' \<and> slash \<notin> set s"

abbreviation abs_path :: "string list \<Rightarrow> string" where
  "abs_path ss \<equiv> ''/'' @ join_with ''/'' ss"

text \<open>A key the namespace can hold: one or more real segments joined by slashes.\<close>

definition wf_key :: "string \<Rightarrow> bool" where
  "wf_key k \<longleftrightarrow> (\<forall>s \<in> set (split_on slash k). real_seg s)"

definition wf_mapper :: "path_mapper \<Rightarrow> bool" where
  "wf_mapper m \<longleftrightarrow> (\<exists>rs. list_all real_seg rs \<and> root m = abs_path rs)"

text \<open>The meaning of a segment list: a walk on the segment stack that cannot climb above \<open>/\<close>.\<close>

fun resolve :: "string list \<Rightarrow> string list \<Rightarrow> string list option" where
  "resolve st [] = Some st"
| "resolve st (s # ss) =
     (if s = [] \<or> s = ''.'' then resolve st ss
      else if s = ''..'' then (if st = [] then None else resolve (butlast st) ss)
      else resolve (st @ [s]) ss)"

lemma normalize_loop_resolve [path_simps]: "normalize_loop True ps ss = resolve ps ss"
  by (induction ps ss rule: resolve.induct) auto

lemma resolve_append [path_simps]:
  "resolve st (xs @ ys) = Option.bind (resolve st xs) (\<lambda>st'. resolve st' ys)"
  by (induction st xs rule: resolve.induct) auto

lemma resolve_real: "list_all real_seg ss \<Longrightarrow> resolve st ss = Some (st @ ss)"
  by (induction ss arbitrary: st) (auto simp: real_seg_def)

lemma list_all_butlast: "list_all P xs \<Longrightarrow> list_all P (butlast xs)"
  by (auto simp: list_all_iff dest: in_set_butlastD)

lemma resolve_keeps_real:
  "resolve st ss = Some r \<Longrightarrow> list_all real_seg st \<Longrightarrow> \<forall>s \<in> set ss. slash \<notin> set s
     \<Longrightarrow> list_all real_seg r"
  by (induction st ss rule: resolve.induct)
     (auto simp: real_seg_def list_all_butlast split: if_splits)

lemma loop_keeps_real:
  "normalize_loop a st ss = Some r \<Longrightarrow> list_all real_seg st \<Longrightarrow> \<forall>s \<in> set ss. slash \<notin> set s
     \<Longrightarrow> list_all real_seg r"
  by (induction a st ss rule: normalize_loop.induct)
     (auto simp: real_seg_def list_all_butlast split: if_splits)

lemma loop_real: "list_all real_seg ss \<Longrightarrow> normalize_loop a st ss = Some (st @ ss)"
  by (induction ss arbitrary: st) (auto simp: real_seg_def)

lemma join_real_neq_Nil: "list_all real_seg ss \<Longrightarrow> ss \<noteq> [] \<Longrightarrow> join_with ''/'' ss \<noteq> []"
  by (cases ss rule: remdups_adj.cases) (auto simp: real_seg_def)

lemma split_join_real:
  "list_all real_seg ss \<Longrightarrow>
     split_on slash (join_with ''/'' ss) = (if ss = [] then [[]] else ss)"
  by (auto simp: list_all_iff real_seg_def intro!: split_on_join)

lemma split_abs: "split_on slash (''/'' @ xs) = [] # split_on slash xs"
  by simp

lemma split_abs_path:
  "list_all real_seg ss \<Longrightarrow> split_on slash (abs_path ss) = [] # (if ss = [] then [[]] else ss)"
  by (simp add: split_join_real)

lemma not_abs_join_real:
  "list_all real_seg ss \<Longrightarrow> \<not> prefix ''/'' (join_with ''/'' ss)"
  by (cases ss rule: remdups_adj.cases)
     (auto simp: real_seg_def neq_Nil_conv prefix_def)

section \<open>Normalisation\<close>

lemma normalize_abs_absolute [path_simps]:
  "normalize_abs (slash # p) = map_option abs_path (resolve [] (split_on slash p))"
  by (simp add: normalize_abs_def path_simps split: option.splits)

lemma normalize_abs_path [path_simps]:
  "list_all real_seg ss \<Longrightarrow> normalize_abs (abs_path ss) = Some (abs_path ss)"
  by (simp add: path_simps split_join_real resolve_real)

lemma normalize_abs_form:
  assumes "normalize_abs p = Some q"
  shows "\<exists>ss. list_all real_seg ss \<and>
           q = (if prefix ''/'' p then abs_path ss else join_with ''/'' ss)"
proof -
  from assms obtain ss where "normalize_loop (prefix ''/'' p) [] (split_on slash p) = Some ss"
    and "q = (if prefix ''/'' p then abs_path ss else join_with ''/'' ss)"
    by (auto simp: normalize_abs_def Let_def split: option.splits)
  then show ?thesis using loop_keeps_real split_on_no_sep by (metis list.pred_inject(1))
qed

lemma abs_path_inj:
  assumes "list_all real_seg xs" "list_all real_seg ys" "abs_path xs = abs_path ys"
  shows "xs = ys"
proof -
  from assms(3) have "join_with ''/'' xs = join_with ''/'' ys" by simp
  then have "(if xs = [] then [[]] else xs) = (if ys = [] then [[]] else ys)"
    using split_join_real [OF assms(1)] split_join_real [OF assms(2)] by metis
  with assms(1,2) show ?thesis by (auto simp: real_seg_def split: if_splits)
qed

lemma abs_path_append:
  "ys \<noteq> [] \<Longrightarrow>
     abs_path (xs @ ys) = (if xs = [] then ''/'' else abs_path xs @ ''/'') @ join_with ''/'' ys"
  by (simp add: join_with_append)

lemma abs_path_root [simp]: "abs_path ss = ''/'' \<longleftrightarrow> join_with ''/'' ss = []"
  by simp

lemma normalize_root_wf: "\<exists>rs. list_all real_seg rs \<and> normalize_root r = abs_path rs"
proof -
  let ?r = "if prefix ''/'' r then r else ''/'' @ r"
  have "prefix ''/'' ?r" by auto
  then show ?thesis
    using normalize_abs_form [of ?r]
    by (cases "normalize_abs ?r") (auto simp: normalize_root_def Let_def intro: exI [of _ "[]"])
qed

lemma prefix_join_real:
  assumes "list_all real_seg rs" "list_all real_seg ss" "rs \<noteq> []"
  shows "abs_path ss = abs_path rs \<or> prefix (abs_path rs @ ''/'') (abs_path ss) \<longleftrightarrow> prefix rs ss"
proof
  assume "abs_path ss = abs_path rs \<or> prefix (abs_path rs @ ''/'') (abs_path ss)"
  then show "prefix rs ss"
  proof
    assume "abs_path ss = abs_path rs"
    with assms abs_path_inj show ?thesis by blast
  next
    assume "prefix (abs_path rs @ ''/'') (abs_path ss)"
    then obtain x where "join_with ''/'' ss = join_with ''/'' rs @ slash # x"
      by (auto simp: prefix_def)
    then have "split_on slash (join_with ''/'' ss) = rs @ split_on slash x"
      using assms by (simp add: split_on_append_sep split_join_real)
    moreover have "ss \<noteq> []"
      using \<open>join_with ''/'' ss = _\<close> by (metis Nil_is_append_conv join_with.simps(1) list.discI)
    ultimately show ?thesis using assms by (simp add: split_join_real)
  qed
next
  assume "prefix rs ss"
  then obtain t where "ss = rs @ t" by (auto simp: prefix_def)
  with assms(3) show "abs_path ss = abs_path rs \<or> prefix (abs_path rs @ ''/'') (abs_path ss)"
    by (cases "t = []") (simp_all add: join_with_append)
qed

lemma path_mapper_new_wf: "wf_mapper (path_mapper_new c)"
  using normalize_root_wf by (auto simp: wf_mapper_def path_mapper_new_def)

section \<open>The mapper on segments\<close>

lemma abs_path_eq_root_iff: "list_all real_seg rs \<Longrightarrow> abs_path rs = ''/'' \<longleftrightarrow> rs = []"
  using join_real_neq_Nil by auto

text \<open>
  What \<open>key_to_hdfs_path\<close> computes, on segments: the key's segments are walked from the root's
  segments, and the result is kept when the root's segments are still its beginning.
\<close>

lemma key_to_hdfs_path_segs:
  assumes "list_all real_seg rs" "root m = abs_path rs"
  shows "key_to_hdfs_path m k =
    (let key = dropWhile (\<lambda>c. c = slash) k in
     if key = [] then None
     else case resolve rs (split_on slash key) of
            None \<Rightarrow> None
          | Some ss \<Rightarrow> if prefix rs ss then Some (abs_path ss) else None)"
proof -
  define key where "key = dropWhile (\<lambda>c. c = slash) k"
  have norm: "normalize_abs (join_root (root m) key) =
                map_option abs_path (resolve rs (split_on slash key))"
  proof (cases "rs = []")
    case True
    then show ?thesis by (simp add: assms(2) join_root_def path_simps)
  next
    case False
    with assms abs_path_eq_root_iff have "join_root (root m) key = slash # join_with ''/'' rs @ slash # key"
      by (auto simp: join_root_def)
    with False assms show ?thesis
      by (simp add: path_simps split_on_append_sep split_join_real resolve_real)
  qed
  have under: "(if root m = ''/'' then prefix ''/'' (abs_path ss)
                else abs_path ss = root m \<or> prefix (root m @ ''/'') (abs_path ss)) = prefix rs ss"
    if "resolve rs (split_on slash key) = Some ss" for ss
  proof (cases "rs = []")
    case False
    have "list_all real_seg ss"
      using resolve_keeps_real [OF that assms(1)] split_on_no_sep by blast
    with False assms abs_path_eq_root_iff prefix_join_real show ?thesis by auto
  qed (simp add: assms(2))
  show ?thesis
    unfolding key_to_hdfs_path_def Let_def key_def [symmetric] norm
    using under by (auto split: option.splits)
qed

lemma dropWhile_slash_segs:
  "resolve st (split_on slash (dropWhile (\<lambda>c. c = slash) k)) = resolve st (split_on slash k)"
  by (induction k) auto

lemma wf_key_segs:
  "wf_key k \<longleftrightarrow> (\<exists>ss. ss \<noteq> [] \<and> list_all real_seg ss \<and> k = join_with ''/'' ss)"
proof
  assume "wf_key k"
  then show "\<exists>ss. ss \<noteq> [] \<and> list_all real_seg ss \<and> k = join_with ''/'' ss"
    by (intro exI [of _ "split_on slash k"]) (simp add: wf_key_def list_all_iff join_split_on)
next
  assume "\<exists>ss. ss \<noteq> [] \<and> list_all real_seg ss \<and> k = join_with ''/'' ss"
  then show "wf_key k" by (auto simp: wf_key_def split_join_real list_all_iff)
qed

lemma wf_key_trim: "wf_key k \<Longrightarrow> dropWhile (\<lambda>c. c = slash) k = k \<and> k \<noteq> []"
proof -
  assume wf: "wf_key k"
  then have no_empty: "[] \<notin> set (split_on slash k)" by (auto simp: wf_key_def real_seg_def)
  then show ?thesis by (cases k) (auto split: if_splits)
qed

lemma wf_key_path:
  assumes "wf_mapper m" "wf_key k"
  shows "key_to_hdfs_path m k = Some (join_root (root m) k)"
proof -
  from assms(1) obtain rs where rs: "list_all real_seg rs" "root m = abs_path rs"
    by (auto simp: wf_mapper_def)
  from assms(2) obtain ks where ks: "ks \<noteq> []" "list_all real_seg ks" "k = join_with ''/'' ks"
    by (auto simp: wf_key_segs)
  have "join_root (root m) k = abs_path (rs @ ks)"
    using rs ks abs_path_eq_root_iff by (auto simp: join_root_def join_with_append)
  moreover have "split_on slash k = ks" using ks by (simp add: split_join_real)
  ultimately show ?thesis
    using wf_key_trim [OF assms(2)] resolve_real [OF ks(2), of rs]
    by (simp add: key_to_hdfs_path_segs [OF rs] Let_def)
qed

lemma hdfs_path_to_key_segs:
  assumes "list_all real_seg rs" "root m = abs_path rs" "list_all real_seg ss"
  shows "hdfs_path_to_key m (abs_path ss) =
           (if prefix rs ss then Some (join_with ''/'' (drop (length rs) ss)) else None)"
proof (cases "rs = []")
  case True
  with assms show ?thesis
    using normalize_abs_path [OF assms(3)] join_real_neq_Nil [OF assms(3)]
    by (cases "ss = []") (simp_all add: hdfs_path_to_key_def strip_prefix_def)
next
  case False
  have strip: "strip_prefix (abs_path rs @ ''/'') (abs_path ss) =
                 (if strict_prefix rs ss then Some (join_with ''/'' (drop (length rs) ss)) else None)"
  proof (cases "strict_prefix rs ss")
    case True
    then obtain t where "ss = rs @ t" "t \<noteq> []" by (auto simp: strict_prefix_def prefix_def)
    with False True show ?thesis by (simp add: strip_prefix_def join_with_append)
  next
    assume "\<not> strict_prefix rs ss"
    moreover have "\<not> prefix (abs_path rs @ ''/'') (abs_path rs)"
      by (simp add: prefix_def)
    ultimately have "\<not> prefix (abs_path rs @ ''/'') (abs_path ss)"
      using prefix_join_real [OF assms(1,3) False] by (auto simp: strict_prefix_def)
    with \<open>\<not> strict_prefix rs ss\<close> show ?thesis by (simp add: strip_prefix_def)
  qed
  show ?thesis
  proof (cases "ss = rs")
    case True
    with assms show ?thesis
      by (simp add: hdfs_path_to_key_def normalize_abs_path del: append_Cons append_Nil)
  next
    assume "ss \<noteq> rs"
    with assms have "abs_path ss \<noteq> abs_path rs" using abs_path_inj by blast
    with \<open>ss \<noteq> rs\<close> assms False strip join_real_neq_Nil [OF assms(1) False] show ?thesis
      by (auto simp: hdfs_path_to_key_def normalize_abs_path strict_prefix_def
               abs_path_eq_root_iff simp del: append_Cons append_Nil)
  qed
qed

text \<open>Whatever path upstream reports, what comes out is the root or a key of the namespace.\<close>

lemma hdfs_path_to_key_wf:
  assumes "wf_mapper m" "hdfs_path_to_key m p = Some k"
  shows "k = [] \<or> wf_key k"
proof -
  obtain rs where rs: "list_all real_seg rs" "root m = abs_path rs"
    using assms(1) by (auto simp: wf_mapper_def)
  obtain q where q: "normalize_abs p = Some q" using assms(2) by (auto simp: hdfs_path_to_key_def split: option.splits)
  obtain ss where ss: "list_all real_seg ss" "q = (if prefix ''/'' p then abs_path ss else join_with ''/'' ss)"
    using normalize_abs_form [OF q] by blast
  show ?thesis
  proof (cases "prefix ''/'' p")
    case True
    then have "hdfs_path_to_key m p = hdfs_path_to_key m (abs_path ss)"
      using q ss normalize_abs_path [OF ss(1)] by (simp add: hdfs_path_to_key_def)
    with assms(2) have "k = join_with ''/'' (drop (length rs) ss)"
      unfolding hdfs_path_to_key_segs [OF rs ss(1)] by (simp split: if_splits)
    moreover have "list_all real_seg (drop (length rs) ss)" using ss(1) by (meson list_all_iff in_set_dropD)
    ultimately show ?thesis by (cases "drop (length rs) ss = []") (simp, blast intro: wf_key_segs [THEN iffD2])
  next
    case False
    have "\<not> prefix [slash] (join_with ''/'' ss)"
      using ss(1) by (cases "(''/'', ss)" rule: join_with.cases) (auto simp: real_seg_def prefix_def append_eq_Cons_conv)
    with False ss(2) assms(2) q rs(2) show ?thesis
      by (auto simp: hdfs_path_to_key_def strip_prefix_def prefix_def split: if_splits)
  qed
qed

text \<open>The segment-level specification of the mapper.\<close>

definition resolve_under :: "string list \<Rightarrow> string \<Rightarrow> string list option" where
  "resolve_under rs k =
     (if set k \<subseteq> {slash} then None
      else Option.bind (resolve rs (split_on slash k)) (\<lambda>ss. if prefix rs ss then Some ss else None))"

lemma dropWhile_slash_Nil: "dropWhile (\<lambda>c. c = slash) k = [] \<longleftrightarrow> set k \<subseteq> {slash}"
  by (auto simp: dropWhile_eq_Nil_conv)

lemma key_to_hdfs_path_resolve_under:
  assumes "list_all real_seg rs" "root m = abs_path rs"
  shows "key_to_hdfs_path m k = map_option abs_path (resolve_under rs k)"
  by (auto simp add: key_to_hdfs_path_segs [OF assms] resolve_under_def Let_def
        dropWhile_slash_segs dropWhile_slash_Nil simp del: dropWhile_eq_Nil_conv
        split: option.splits Option.bind_splits)

lemma resolve_under_SomeD:
  assumes "resolve_under rs k = Some ss" "list_all real_seg rs"
  shows "\<exists>ts. ss = rs @ ts \<and> list_all real_seg ts"
proof -
  from assms(1) have "resolve rs (split_on slash k) = Some ss" "prefix rs ss"
    by (auto simp: resolve_under_def split: if_splits Option.bind_splits)
  with resolve_keeps_real [OF _ assms(2)] split_on_no_sep have "list_all real_seg ss" by blast
  with \<open>prefix rs ss\<close> show ?thesis by (auto simp: prefix_def)
qed

section \<open>Directories\<close>

text \<open>
  The directory keys of a listing: the empty key for the root, a well-formed key below it, and
  the HDFS path each stands for.
\<close>

definition dir_path :: "path_mapper \<Rightarrow> string \<Rightarrow> string" where
  "dir_path m k = (if k = [] then root m else join_root (root m) k)"

definition child_key :: "string \<Rightarrow> string \<Rightarrow> string" where
  "child_key d name = (if d = [] then name else d @ ''/'' @ name)"

lemma wf_key_child: "d = [] \<or> wf_key d \<Longrightarrow> real_seg n \<Longrightarrow> wf_key (child_key d n)"
  by (auto simp: wf_key_def child_key_def split_on_append_sep split_on_single real_seg_def)

lemma path_to_key:
  assumes "wf_mapper m" "wf_key k"
  shows "hdfs_path_to_key m (join_root (root m) k) = Some k"
proof -
  from assms(1) obtain rs where rs: "list_all real_seg rs" "root m = abs_path rs"
    by (auto simp: wf_mapper_def)
  from assms(2) obtain ks where ks: "ks \<noteq> []" "list_all real_seg ks" "k = join_with ''/'' ks"
    by (auto simp: wf_key_segs)
  have "join_root (root m) k = abs_path (rs @ ks)"
    using rs ks abs_path_eq_root_iff by (auto simp: join_root_def join_with_append)
  moreover have "hdfs_path_to_key m (abs_path (rs @ ks)) = Some (join_with ''/'' ks)"
    using hdfs_path_to_key_segs [OF rs, of "rs @ ks"] rs(1) ks(2) by simp
  ultimately show ?thesis using ks(3) by simp
qed

lemma key_to_hdfs_path_dir:
  assumes "wf_mapper m" "wf_key d"
  shows "key_to_hdfs_path m (d @ ''/'') = Some (dir_path m d)"
proof -
  from assms(1) obtain rs where rs: "list_all real_seg rs" "root m = abs_path rs"
    by (auto simp: wf_mapper_def)
  have "resolve_under rs (d @ ''/'') = resolve_under rs d"
    using wf_key_trim [OF assms(2)] split_on_append_sep [of slash d "[]"]
    by (auto simp: resolve_under_def path_simps dropWhile_slash_Nil [symmetric]
             split: Option.bind_splits)
  with wf_key_path [OF assms] wf_key_trim [OF assms(2)] show ?thesis
    by (simp add: key_to_hdfs_path_resolve_under [OF rs] dir_path_def)
qed

text \<open>The directory part of a prefix: everything before its last slash.\<close>

definition dir_part :: "string \<Rightarrow> string" where
  "dir_part pre = (case rfind_char slash pre of None \<Rightarrow> [] | Some i \<Rightarrow> take i pre)"

lemma wf_key_prefix_dir:
  assumes "wf_key k" "prefix pre k"
  shows "dir_part pre = [] \<and> slash \<notin> set pre \<or>
         wf_key (dir_part pre) \<and> prefix (dir_part pre @ ''/'') pre"
proof (cases "rfind_char slash pre")
  case None
  then show ?thesis by (simp add: dir_part_def rfind_char_None)
next
  case (Some i)
  then obtain ys zs where pre: "pre = ys @ slash # zs" "i = length ys"
    using rfind_char_Some by blast
  with assms(2) obtain w where "k = ys @ slash # (zs @ w)" by (auto simp: prefix_def)
  with assms(1) have "wf_key ys" by (simp add: wf_key_def split_on_append_sep)
  with Some pre show ?thesis by (simp add: dir_part_def)
qed

lemma dir_part_split:
  assumes "wf_key k" "prefix pre k"
  shows "\<exists>name. slash \<notin> set name \<and>
           (pre = name \<and> dir_part pre = [] \<or> pre = dir_part pre @ ''/'' @ name \<and> wf_key (dir_part pre))"
proof (cases "rfind_char slash pre")
  case None
  then show ?thesis by (intro exI [of _ pre]) (simp add: dir_part_def rfind_char_None)
next
  case (Some i)
  then obtain ys zs where pre: "pre = ys @ slash # zs" "i = length ys" "slash \<notin> set zs"
    using rfind_char_Some by blast
  with Some have "dir_part pre = ys" by (simp add: dir_part_def)
  moreover have "wf_key ys"
    using assms pre by (auto simp: prefix_def wf_key_def split_on_append_sep)
  ultimately show ?thesis using pre by auto
qed

lemma hd_split_on_append:
  "slash \<in> set pre \<Longrightarrow> hd (split_on slash (pre @ w)) = hd (split_on slash pre)"
  by (auto dest!: split_list simp: split_on_append_sep)

text \<open>
  Where a listing of a prefix starts, for a prefix that some key of the namespace extends.  The
  two prefixes made of dots alone are the exception: they are rejected although \<open>.hidden\<close> and
  \<open>..data\<close> are names a directory can hold.
\<close>

lemma list_start_dir_part:
  assumes "wf_mapper m" "wf_key k" "prefix pre k"
  shows "list_start m pre =
           (if pre = ''.'' \<or> pre = ''..'' then None else Some (dir_path m (dir_part pre)))"
proof (cases "slash \<in> set pre")
  case False
  then show ?thesis
    by (simp add: list_start_def split_on_single dir_part_def dir_path_def)
next
  case True
  then obtain i where i: "rfind_char slash pre = Some i"
    by (metis not_None_eq rfind_char_None)
  then obtain ys zs where pre: "pre = ys @ slash # zs" "i = length ys"
    using rfind_char_Some by blast
  from assms(3) obtain w where w: "k = pre @ w" by (auto simp: prefix_def)
  have "hd (split_on slash pre) \<in> set (split_on slash k)"
    using hd_split_on_append [OF True, of w] w by (metis hd_in_set split_on_neq_Nil)
  with assms(2) have first: "hd (split_on slash pre) \<noteq> ''.''" "hd (split_on slash pre) \<noteq> ''..''"
    by (auto simp: wf_key_def real_seg_def)
  have wf: "wf_key ys"
    using wf_key_prefix_dir [OF assms(2,3)] True i pre by (simp add: dir_part_def)
  have "list_start m pre = key_to_hdfs_path m (ys @ ''/'')"
    using first i pre by (simp add: list_start_def Let_def)
  moreover have "dir_part pre = ys" using i pre by (simp add: dir_part_def)
  moreover have "pre \<noteq> ''.''" "pre \<noteq> ''..''" using True by auto
  ultimately show ?thesis using key_to_hdfs_path_dir [OF assms(1) wf] by simp
qed

section \<open>Properties\<close>

text \<open>
  Claim C2: containment.  Whatever key a client sends, a path that \<open>key_to_hdfs_path\<close> returns is
  the configured root followed by real directory entries only: its segments are the root's
  segments and then names that are neither empty, nor \<open>.\<close>, nor \<open>..\<close>, nor contain a slash.  No
  key reaches a path outside the root.
\<close>

theorem key_to_hdfs_path_contained:
  assumes "key_to_hdfs_path (path_mapper_new c) key = Some p"
  shows "\<exists>rs ts. list_all real_seg rs \<and> list_all real_seg ts \<and>
           root (path_mapper_new c) = abs_path rs \<and> p = abs_path (rs @ ts)"
proof -
  obtain rs where rs: "list_all real_seg rs" "root (path_mapper_new c) = abs_path rs"
    using path_mapper_new_wf [of c] by (auto simp: wf_mapper_def)
  with assms obtain ss where "resolve_under rs key = Some ss" "p = abs_path ss"
    by (auto simp: key_to_hdfs_path_resolve_under)
  with resolve_under_SomeD rs show ?thesis by blast
qed

text \<open>
  Claim C14: \<open>key_to_hdfs_path\<close> refines the segment walk \<open>resolve_under\<close>: it accepts a key
  exactly when the key has a byte that is not a slash and the walk from the root's segments
  stays defined (never climbs above \<open>/\<close>) and ends below the root, and it returns that walk's
  result.  In particular it decides every traversal attempt by its lexical meaning.
\<close>

theorem key_to_hdfs_path_refines:
  assumes "list_all real_seg rs" "root m = abs_path rs"
  shows "key_to_hdfs_path m key = map_option abs_path (resolve_under rs key)"
  using assms by (rule key_to_hdfs_path_resolve_under)

text \<open>
  Claim C27: round trip.  A key of the namespace maps to the path under the root with the same
  segments, and \<open>hdfs_path_to_key\<close> gives the key back.
\<close>

theorem key_path_round_trip:
  assumes "wf_key key"
  shows "\<exists>p. key_to_hdfs_path (path_mapper_new c) key = Some p \<and>
             hdfs_path_to_key (path_mapper_new c) p = Some key"
  using wf_key_path [OF path_mapper_new_wf assms] path_to_key [OF path_mapper_new_wf assms]
  by blast

text \<open>
  Claim C28: canonical keys.  Every accepted key names the same path as a canonical one: the path
  maps back to a key, which is empty exactly for the root itself and otherwise a well-formed key
  that maps to the same path.  Different spellings of an object never split into two objects.
\<close>

theorem accepted_key_canonical:
  assumes "key_to_hdfs_path (path_mapper_new c) key = Some p"
  shows "\<exists>k. hdfs_path_to_key (path_mapper_new c) p = Some k \<and>
           (if p = root (path_mapper_new c) then k = []
            else wf_key k \<and> key_to_hdfs_path (path_mapper_new c) k = Some p)"
proof -
  let ?m = "path_mapper_new c"
  obtain rs where rs: "list_all real_seg rs" "root ?m = abs_path rs"
    using path_mapper_new_wf [of c] by (auto simp: wf_mapper_def)
  with assms obtain ss where "resolve_under rs key = Some ss" "p = abs_path ss"
    by (auto simp: key_to_hdfs_path_resolve_under)
  with resolve_under_SomeD rs obtain ts where ts: "list_all real_seg ts" "p = abs_path (rs @ ts)"
    by blast
  then have key: "hdfs_path_to_key ?m p = Some (join_with ''/'' ts)"
    using hdfs_path_to_key_segs [OF rs, of "rs @ ts"] rs by simp
  show ?thesis
  proof (cases "ts = []")
    case True
    with key ts rs show ?thesis by simp
  next
    case False
    with ts have wf: "wf_key (join_with ''/'' ts)" by (auto simp: wf_key_segs)
    have "p \<noteq> root ?m"
      using abs_path_inj [of "rs @ ts" rs] rs ts False by auto
    moreover have "join_root (root ?m) (join_with ''/'' ts) = p"
      using rs ts False abs_path_eq_root_iff by (auto simp: join_root_def join_with_append)
    ultimately show ?thesis using key wf wf_key_path [OF path_mapper_new_wf wf] by auto
  qed
qed

text \<open>
  Normalisation is idempotent, for absolute and for relative paths.
\<close>

lemma normalize_abs_idem:
  assumes "normalize_abs p = Some q"
  shows "normalize_abs q = Some q"
proof -
  obtain ss where ss: "list_all real_seg ss"
    "q = (if prefix ''/'' p then abs_path ss else join_with ''/'' ss)"
    using normalize_abs_form [OF assms] by blast
  show ?thesis
  proof (cases "prefix ''/'' p")
    case True
    with ss normalize_abs_path show ?thesis by simp
  next
    case False
    with ss not_abs_join_real have "\<not> prefix ''/'' q" by simp
    moreover have "normalize_loop False [] (split_on slash q) = Some ss"
      using ss False loop_real by (auto simp: split_join_real)
    ultimately show ?thesis using ss False by (simp add: normalize_abs_def)
  qed
qed

text \<open>
  Claim C29: the walk of a prefixed listing is bounded by the prefix without losing a key.  Take a key
  of the namespace and a prefix of it other than \<open>.\<close> and \<open>..\<close>, and split the prefix at its last
  slash: \<open>list_start\<close> gives the directory of the part before it -- the root only for a prefix
  without a slash -- and the path of the key lies below that directory.
\<close>

theorem list_start_complete:
  assumes "wf_key k" "prefix pre k" "pre \<noteq> ''.''" "pre \<noteq> ''..''"
  shows "\<exists>d name p. slash \<notin> set name \<and> (pre = name \<and> d = [] \<or> pre = d @ ''/'' @ name \<and> wf_key d) \<and>
           list_start (path_mapper_new c) pre =
             Some (if d = [] then root (path_mapper_new c) else join_root (root (path_mapper_new c)) d) \<and>
           key_to_hdfs_path (path_mapper_new c) k = Some p \<and>
           prefix (join_root (root (path_mapper_new c)) (if d = [] then [] else d @ ''/'')) p"
proof -
  let ?m = "path_mapper_new c" and ?d = "dir_part pre"
  have start: "list_start ?m pre = Some (dir_path ?m ?d)"
    using list_start_dir_part [OF path_mapper_new_wf assms(1,2)] assms(3,4) by simp
  obtain name where name: "slash \<notin> set name" "pre = name \<and> ?d = [] \<or> pre = ?d @ ''/'' @ name \<and> wf_key ?d"
    using dir_part_split [OF assms(1,2)] by blast
  have "prefix (if ?d = [] then [] else ?d @ ''/'') k"
    using name(2) prefix_order.trans [OF _ assms(2), of "?d @ ''/''"] by (auto simp: prefix_def)
  then have "prefix (join_root (root ?m) (if ?d = [] then [] else ?d @ ''/'')) (join_root (root ?m) k)"
    by (auto simp: join_root_def)
  with start name wf_key_path [OF path_mapper_new_wf assms(1)] show ?thesis
    unfolding dir_path_def by blast
qed

text \<open>
  The dot prefixes lose keys.  \<open>.hidden\<close> is a key of the namespace, it maps to a path
  under the root, and it starts with the prefix \<open>.\<close>, but \<open>list_start\<close> answers a listing of that
  prefix with nothing to walk.
\<close>

lemma list_start_dot_prefix:
  "wf_key ''.hidden'' \<and> prefix ''.'' ''.hidden'' \<and>
   key_to_hdfs_path (path_mapper_new c) ''.hidden'' =
     Some (join_root (root (path_mapper_new c)) ''.hidden'') \<and>
   list_start (path_mapper_new c) ''.'' = None"
proof -
  have wf: "wf_key ''.hidden''" by (simp add: wf_key_def real_seg_def)
  show ?thesis
    using wf wf_key_path [OF path_mapper_new_wf wf] by (simp add: list_start_def)
qed

section \<open>Witnesses\<close>

text \<open>A mapper rooted at \<open>/data\<close>, as in the repository's unit tests.\<close>

definition data_config :: config where
  "data_config = config_default\<lparr>hdfs_root := ''/data''\<rparr>"

theorem key_to_hdfs_path_contained_witness:
  "\<exists>rs ts. list_all real_seg rs \<and> list_all real_seg ts \<and>
     root (path_mapper_new data_config) = abs_path rs \<and> ''/data/a/b'' = abs_path (rs @ ts)"
proof -
  have "key_to_hdfs_path (path_mapper_new data_config) ''x/..//./a/b'' = Some ''/data/a/b''"
    by code_simp
  then show ?thesis by (rule key_to_hdfs_path_contained)
qed

theorem key_to_hdfs_path_refines_witness:
  "key_to_hdfs_path (path_mapper_new data_config) ''a/../../etc/passwd'' = None"
proof -
  have "list_all real_seg [''data'']" "root (path_mapper_new data_config) = abs_path [''data'']"
    by code_simp+
  from key_to_hdfs_path_refines [OF this, of "''a/../../etc/passwd''"]
  show ?thesis by (simp add: resolve_under_def)
qed

theorem key_path_round_trip_witness:
  "\<exists>p. key_to_hdfs_path (path_mapper_new data_config) ''a/b.txt'' = Some p \<and>
       hdfs_path_to_key (path_mapper_new data_config) p = Some ''a/b.txt''"
proof -
  have "wf_key ''a/b.txt''" by code_simp
  then show ?thesis by (rule key_path_round_trip)
qed

theorem accepted_key_canonical_witness:
  "\<exists>k. hdfs_path_to_key (path_mapper_new data_config) ''/data/b'' = Some k \<and>
     (if ''/data/b'' = root (path_mapper_new data_config) then k = []
      else wf_key k \<and> key_to_hdfs_path (path_mapper_new data_config) k = Some ''/data/b'')"
proof -
  have "key_to_hdfs_path (path_mapper_new data_config) ''/a/..//b/'' = Some ''/data/b''"
    by code_simp
  then show ?thesis by (rule accepted_key_canonical)
qed

theorem list_start_complete_witness:
  "\<exists>d name p. slash \<notin> set name \<and> (''a/b'' = name \<and> d = [] \<or> ''a/b'' = d @ ''/'' @ name \<and> wf_key d) \<and>
     list_start (path_mapper_new data_config) ''a/b'' =
       Some (if d = [] then root (path_mapper_new data_config) else join_root (root (path_mapper_new data_config)) d) \<and>
     key_to_hdfs_path (path_mapper_new data_config) ''a/b.txt'' = Some p \<and>
     prefix (join_root (root (path_mapper_new data_config)) (if d = [] then [] else d @ ''/'')) p"
proof -
  have "wf_key ''a/b.txt''" "prefix ''a/b'' ''a/b.txt''" "''a/b'' \<noteq> ''.''" "''a/b'' \<noteq> ''..''"
    by code_simp+
  then show ?thesis by (rule list_start_complete)
qed

end
