(* ===== verification/Listing.thy ===== *)
theory Listing
  imports Paths "HOL-Library.Multiset"
begin

text \<open>
  \<^verbatim>\<open>src/core/listing.rs\<close>: grouping keys into \<open>Contents\<close> and \<open>CommonPrefixes\<close>, the two
  paginators, the allocation-free comparators of directory output keys, and continuation tokens.

  The \<^verbatim>\<open>base64\<close> engines are parameters.  \<^verbatim>\<open>usize\<close> lengths and page sizes are \<open>nat\<close>: they
  count elements of lists in memory.  A \<^verbatim>\<open>BTreeSet\<close> is its sorted list of elements.
\<close>

section \<open>Data\<close>

record list_entry =
  key :: string
  size :: u64
  modification_time :: u64

record dir_listing =
  files :: "list_entry list"
  dirs :: "string list"

definition dir_listing_default :: dir_listing where
  "dir_listing_default = \<lparr>files = [], dirs = []\<rparr>"

record page =
  contents :: "list_entry list"
  common_prefixes :: "string list"
  is_truncated :: bool
  next_token :: "string option"

definition empty_page :: page where
  "empty_page = \<lparr>contents = [], common_prefixes = [], is_truncated = False, next_token = None\<rparr>"

section \<open>Grouping by a delimiter\<close>

text \<open>\<^verbatim>\<open>CommonPrefixSet\<close>: a \<^verbatim>\<open>BTreeSet\<close>, so inserting keeps the list sorted and
  without repetitions.\<close>

fun cps_insert :: "string \<Rightarrow> string list \<Rightarrow> string list" where
  "cps_insert p [] = [p]"
| "cps_insert p (q # qs) =
     (if p < q then p # q # qs else if p = q then q # qs else q # cps_insert p qs)"

definition into_vec :: "string list \<Rightarrow> string list" where
  "into_vec ps = ps"

text \<open>The body of the loop of \<^verbatim>\<open>list_to_contents\<close> for one entry.\<close>

definition group_entry ::
  "string \<Rightarrow> string option \<Rightarrow> list_entry \<Rightarrow> list_entry list \<times> string list
     \<Rightarrow> list_entry list \<times> string list" where
  "group_entry pre delimiter entry acc =
     (case acc of (cs, cps) \<Rightarrow>
      if \<not> prefix pre (key entry) then (cs, cps)
      else
        let rest = drop (length pre) (key entry) in
        case delimiter of
          None \<Rightarrow> (cs @ [entry], cps)
        | Some delim \<Rightarrow>
            (case find_sub delim rest of
               Some idx \<Rightarrow> (cs, cps_insert (pre @ take (idx + length delim) rest) cps)
             | None \<Rightarrow> (cs @ [entry], cps)))"

definition list_to_contents ::
  "list_entry list \<Rightarrow> string \<Rightarrow> string option \<Rightarrow> list_entry list \<times> string list" where
  "list_to_contents entries pre delimiter0 =
     (let delimiter = (case delimiter0 of Some d \<Rightarrow> if d = [] then None else Some d | None \<Rightarrow> None)
      in fold (group_entry pre delimiter) entries ([], []))"

section \<open>The general paginator\<close>

text \<open>The CommonPrefix a directory key collapses to, for the delimiter \<open>/\<close>.\<close>

definition dir_common_prefix :: "string \<Rightarrow> string \<Rightarrow> string" where
  "dir_common_prefix pre dir =
     (let rest = drop (length pre) dir in
      case find_sub ''/'' rest of
        Some i \<Rightarrow> pre @ take (i + 1) rest
      | None \<Rightarrow> dir @ ''/'')"

definition after_marker :: "string option \<Rightarrow> string \<Rightarrow> bool" where
  "after_marker marker k \<longleftrightarrow> (case marker of Some m \<Rightarrow> k > m | None \<Rightarrow> True)"

definition paginate ::
  "list_entry list \<Rightarrow> string list \<Rightarrow> string \<Rightarrow> string option \<Rightarrow> string option \<Rightarrow> nat \<Rightarrow> page" where
  "paginate fs ds pre delimiter marker max_keys =
     (if max_keys = 0 then empty_page
      else
        case list_to_contents fs pre delimiter of (contents0, common) \<Rightarrow>
        let common_vec0 =
              into_vec common @
              (if delimiter = Some ''/''
               then map (dir_common_prefix pre) (filter (\<lambda>dir. prefix pre dir) ds) else []);
            common_vec1 = remdups_adj (sort common_vec0);
            contents1 = sort_by (\<lambda>a b. cmp (key a) (key b)) contents0;
            contents2 = filter (\<lambda>e. after_marker marker (key e)) contents1;
            common_vec2 = filter (after_marker marker) common_vec1;
            all_keys = sort (map key contents2 @ common_vec2);
            take_n = min max_keys (length all_keys);
            page = take take_n all_keys;
            truncated = take_n < length all_keys
        in \<lparr>contents = filter (\<lambda>e. key e \<in> set page) contents2,
            common_prefixes = filter (\<lambda>p. p \<in> set page) common_vec2,
            is_truncated = truncated,
            next_token = (if truncated then (if page = [] then None else Some (last page)) else None)\<rparr>)"

section \<open>Comparators of output keys\<close>

text \<open>Byte indexing \<^verbatim>\<open>o[i]\<close> is only reached with \<open>i\<close> in range.\<close>

definition cmp_dir_output :: "string \<Rightarrow> string \<Rightarrow> ordering" where
  "cmp_dir_output d o' =
     (let common = min (length d) (length o') in
      case cmp (take common d) (take common o') of
        Equal \<Rightarrow>
          if length d \<ge> length o' then Greater
          else (case cmp slash (o' ! length d) of
                  Equal \<Rightarrow> if length o' = length d + 1 then Equal else Less
                | r \<Rightarrow> r)
      | r \<Rightarrow> r)"

definition cmp_dir_keys :: "string \<Rightarrow> string \<Rightarrow> ordering" where
  "cmp_dir_keys a b =
     (let common = min (length a) (length b) in
      case cmp (take common a) (take common b) of
        Equal \<Rightarrow>
          if length a = length b then Equal
          else if length a < length b
            then (case cmp slash (b ! length a) of Equal \<Rightarrow> Less | r \<Rightarrow> r)
          else (case cmp (a ! length b) slash of Equal \<Rightarrow> Greater | r \<Rightarrow> r)
      | r \<Rightarrow> r)"

definition cmp_file_dir :: "string \<Rightarrow> string \<Rightarrow> ordering" where
  "cmp_file_dir file dir = reverse (cmp_dir_output dir file)"

definition dir_output_starts_with :: "string \<Rightarrow> string \<Rightarrow> bool" where
  "dir_output_starts_with dir p =
     (if length p \<le> length dir then prefix p dir
      else length p = length dir + 1 \<and> prefix dir p \<and> p ! length dir = slash)"

lemma cmp_append_same: "cmp (xs @ ys) (xs @ zs) = cmp ys (zs :: 'a::linorder list)"
  by (simp add: cmp_def)

lemma cmp_take_decides:
  assumes "cmp (take n a) (take n b) \<noteq> Equal" "n \<le> length a" "n \<le> length (b :: 'a::linorder list)"
  shows "cmp (a @ x) (b @ y) = cmp (take n a) (take n b)"
  using assms
proof (induction n arbitrary: a b)
  case (Suc n)
  then obtain c a' d b' where "a = c # a'" "b = d # b'"
    by (metis Suc_le_length_iff)
  with Suc show ?case by (auto split: ordering.splits)
qed simp

lemma take_min_eq_cases:
  assumes "take (min (length a) (length b)) a = take (min (length a) (length b)) b"
  shows "(\<exists>t. b = a @ t) \<or> (\<exists>c t. a = b @ c # t)"
proof (cases "length a \<le> length b")
  case True
  with assms have "a = take (length a) b" by (simp add: min_def)
  then have "b = a @ drop (length a) b" by (metis append_take_drop_id)
  then show ?thesis by blast
next
  case False
  with assms have "b = take (length b) a" by (simp add: min_def)
  then have "a = b @ drop (length b) a" by (metis append_take_drop_id)
  moreover have "drop (length b) a \<noteq> []" using False by simp
  ultimately show ?thesis by (metis list.exhaust)
qed

lemma cmp_dir_output_eq [order_simps]: "cmp_dir_output d o' = cmp (d @ ''/'') o'"
proof (cases "cmp (take (min (length d) (length o')) d) (take (min (length d) (length o')) o') = Equal")
  case False
  define r where "r = cmp (take (min (length d) (length o')) d) (take (min (length d) (length o')) o')"
  have "cmp (d @ ''/'') (o' @ []) = r"
    unfolding r_def by (rule cmp_take_decides [OF False]) simp_all
  with False show ?thesis
    unfolding cmp_dir_output_def Let_def r_def [symmetric] by (cases r) simp_all
next
  case True
  then have "take (min (length d) (length o')) d = take (min (length d) (length o')) o'" by simp
  from take_min_eq_cases [OF this] consider t where "o' = d @ t" | c t where "d = o' @ c # t"
    by blast
  then show ?thesis
  proof cases
    case 1
    with True show ?thesis
      by (cases t) (auto simp: cmp_dir_output_def Let_def cmp_append_same [where ys = "''/''"] cmp_def
          split: if_splits)
  next
    case 2
    have "cmp (o' @ c # t @ ''/'') o' = Greater"
      using cmp_append_same [of o' "c # t @ ''/''" "[]"] by (simp add: cmp_def)
    with 2 True show ?thesis by (simp add: cmp_dir_output_def Let_def)
  qed
qed

lemma cmp_dir_keys_eq [order_simps]: "cmp_dir_keys a b = cmp (a @ ''/'') (b @ ''/'')"
proof (cases "cmp (take (min (length a) (length b)) a) (take (min (length a) (length b)) b) = Equal")
  case False
  define r where "r = cmp (take (min (length a) (length b)) a) (take (min (length a) (length b)) b)"
  have "cmp (a @ ''/'') (b @ ''/'') = r"
    unfolding r_def by (rule cmp_take_decides [OF False]) simp_all
  with False show ?thesis
    unfolding cmp_dir_keys_def Let_def r_def [symmetric] by (cases r) simp_all
next
  case True
  then have "take (min (length a) (length b)) a = take (min (length a) (length b)) b" by simp
  from take_min_eq_cases [OF this] consider t where "b = a @ t" | c t where "a = b @ c # t"
    by blast
  then show ?thesis
  proof cases
    case 1
    with True show ?thesis
      by (cases t) (auto simp: cmp_dir_keys_def Let_def cmp_append_same cmp_def split: if_splits)
  next
    case 2
    have "cmp (b @ c # t @ ''/'') (b @ ''/'') = cmp (c # t @ ''/'') ''/''"
      using cmp_append_same [of b "c # t @ ''/''" "''/''"] by simp
    with 2 True show ?thesis by (auto simp: cmp_dir_keys_def Let_def cmp_def)
  qed
qed

lemma cmp_file_dir_eq [order_simps]: "cmp_file_dir f d = cmp f (d @ ''/'')"
  by (simp add: cmp_file_dir_def cmp_dir_output_eq)

lemma dir_output_starts_with_eq [order_simps]:
  "dir_output_starts_with d p = prefix p (d @ ''/'')"
proof (cases "length p \<le> length d")
  case True
  then show ?thesis by (auto simp: dir_output_starts_with_def prefix_append dest: prefix_length_le)
next
  case False
  show ?thesis
  proof
    assume "dir_output_starts_with d p"
    with False obtain x where "p = d @ x" "length x = 1" "p ! length d = slash"
      by (auto simp: dir_output_starts_with_def prefix_def)
    then show "prefix p (d @ ''/'')" by (cases x) auto
  next
    assume "prefix p (d @ ''/'')"
    with False have "p = d @ ''/''" by (auto simp: prefix_append prefix_Cons dest: prefix_length_le)
    then show "dir_output_starts_with d p" by (simp add: dir_output_starts_with_def)
  qed
qed

section \<open>The merging paginator\<close>

text \<open>The two \<^verbatim>\<open>while\<close> loops that drop candidates outside the prefix range.\<close>

function skip_files :: "string \<Rightarrow> list_entry list \<Rightarrow> nat \<Rightarrow> nat" where
  "skip_files pre fs fi =
     (if fi < length fs \<and> \<not> prefix pre (key (fs ! fi))
      then if key (fs ! fi) > pre then skip_files pre fs (length fs) else skip_files pre fs (fi + 1)
      else fi)"
  by pat_completeness auto
termination
  by (relation "measure (\<lambda>(pre, fs, fi). length fs - fi)") auto

function skip_dirs :: "string \<Rightarrow> string list \<Rightarrow> nat \<Rightarrow> nat" where
  "skip_dirs pre ds di =
     (if di < length ds \<and> \<not> dir_output_starts_with (ds ! di) pre
      then if cmp_dir_output (ds ! di) pre = Greater then skip_dirs pre ds (length ds)
           else skip_dirs pre ds (di + 1)
      else di)"
  by pat_completeness auto
termination
  by (relation "measure (\<lambda>(pre, ds, di). length ds - di)") auto

declare skip_files.simps [simp del] skip_dirs.simps [simp del]

lemma skip_files_ge: "fi \<le> skip_files pre fs fi"
  by (induction pre fs fi rule: skip_files.induct) (subst skip_files.simps, auto)

lemma skip_dirs_ge: "di \<le> skip_dirs pre ds di"
  by (induction pre ds di rule: skip_dirs.induct) (subst skip_dirs.simps, auto)

text \<open>
  The mutable variables of the loop: the two cursors, the two output vectors, the last key and
  the truncation flag.
\<close>

record slash_state =
  st_fi :: nat
  st_di :: nat
  st_contents :: "list_entry list"
  st_prefixes :: "string list"
  st_last_key :: "string option"
  st_truncated :: bool

function slash_loop ::
  "list_entry list \<Rightarrow> string list \<Rightarrow> string \<Rightarrow> nat \<Rightarrow> slash_state \<Rightarrow> slash_state" where
  "slash_loop fs ds pre max_keys st =
     (let fi = skip_files pre fs (st_fi st);
          di = skip_dirs pre ds (st_di st);
          st = st\<lparr>st_fi := fi, st_di := di\<rparr>;
          next_file = (if fi < length fs then Some (fs ! fi) else None);
          next_dir = (if di < length ds then Some (ds ! di) else None)
      in if next_file = None \<and> next_dir = None then st
         else if length (st_contents st) + length (st_prefixes st) = max_keys
           then st\<lparr>st_truncated := True\<rparr>
         else
           let take_file =
                 (case (next_file, next_dir) of
                    (Some file, Some dir) \<Rightarrow> cmp_dir_output dir (key file) = Greater
                  | (Some _, None) \<Rightarrow> True
                  | (None, _) \<Rightarrow> False)
           in slash_loop fs ds pre max_keys
                (if take_file
                 then st\<lparr>st_fi := fi + 1, st_last_key := Some (key (fs ! fi)),
                         st_contents := st_contents st @ [fs ! fi]\<rparr>
                 else st\<lparr>st_di := di + 1, st_last_key := Some (ds ! di @ ''/''),
                         st_prefixes := st_prefixes st @ [ds ! di @ ''/'']\<rparr>))"
  by pat_completeness auto
termination
  apply (relation "measure (\<lambda>(fs, ds, pre, n, st). (length fs - st_fi st) + (length ds - st_di st))")
   apply simp
  subgoal for fs ds pre max_keys st
    using skip_files_ge [of "st_fi st" pre fs] skip_dirs_ge [of "st_di st" pre ds]
    by (auto split: option.splits if_splits)
  done

declare slash_loop.simps [simp del]

definition paginate_slash ::
  "list_entry list \<Rightarrow> string list \<Rightarrow> string \<Rightarrow> string option \<Rightarrow> nat \<Rightarrow> page" where
  "paginate_slash fs ds pre marker max_keys =
     (if max_keys = 0 then empty_page
      else
        let fi0 = partition_point (\<lambda>f. key f < pre) fs;
            di0 = partition_point (\<lambda>d. cmp_dir_output d pre = Less) ds;
            (fi, di) =
              (case marker of
                 Some m \<Rightarrow> (max fi0 (partition_point (\<lambda>f. key f \<le> m) fs),
                            max di0 (partition_point (\<lambda>d. cmp_dir_output d m \<noteq> Greater) ds))
               | None \<Rightarrow> (fi0, di0));
            st = slash_loop fs ds pre max_keys
                   \<lparr>st_fi = fi, st_di = di, st_contents = [], st_prefixes = [],
                    st_last_key = None, st_truncated = False\<rparr>
        in \<lparr>contents = st_contents st, common_prefixes = st_prefixes st,
            is_truncated = st_truncated st,
            next_token = (if st_truncated st then st_last_key st else None)\<rparr>)"

section \<open>What a listing is\<close>

text \<open>
  The specification the two paginators are measured against: the complete listing is one
  strictly sorted sequence of output items, and a page is a window of it.
\<close>

datatype out_item = Content list_entry | Prefix string

fun out_key :: "out_item \<Rightarrow> string" where
  "out_key (Content e) = key e"
| "out_key (Prefix p) = p"

fun content_of :: "out_item \<Rightarrow> list_entry option" where
  "content_of (Content e) = Some e"
| "content_of (Prefix p) = None"

fun prefix_of :: "out_item \<Rightarrow> string option" where
  "prefix_of (Content e) = None"
| "prefix_of (Prefix p) = Some p"

definition page_of :: "out_item list \<Rightarrow> nat \<Rightarrow> page" where
  "page_of outs n =
     \<lparr>contents = List.map_filter content_of (take n outs),
      common_prefixes = List.map_filter prefix_of (take n outs),
      is_truncated = (0 < n \<and> n < length outs),
      next_token = (if 0 < n \<and> n < length outs then Some (out_key (outs ! (n - 1))) else None)\<rparr>"

text \<open>The items of a listing strictly after the marker.\<close>

abbreviation resume_at :: "string option \<Rightarrow> out_item list \<Rightarrow> out_item list" where
  "resume_at marker outs \<equiv> filter (\<lambda>x. after_marker marker (out_key x)) outs"

text \<open>One file key as S3 presents it: itself, the common prefix it collapses to, or nothing.\<close>

definition file_output :: "string \<Rightarrow> string option \<Rightarrow> list_entry \<Rightarrow> out_item option" where
  "file_output pre delimiter e =
     (if \<not> prefix pre (key e) then None
      else case delimiter of
             None \<Rightarrow> Some (Content e)
           | Some d \<Rightarrow>
               if d = [] then Some (Content e)
               else (case find_sub d (drop (length pre) (key e)) of
                       None \<Rightarrow> Some (Content e)
                     | Some i \<Rightarrow> Some (Prefix (take (length pre + i + length d) (key e)))))"

definition dir_output :: "string \<Rightarrow> string option \<Rightarrow> string \<Rightarrow> out_item option" where
  "dir_output pre delimiter d =
     (if delimiter = Some ''/'' \<and> prefix pre d then Some (Prefix (dir_common_prefix pre d)) else None)"

definition listing_outputs ::
  "list_entry list \<Rightarrow> string list \<Rightarrow> string \<Rightarrow> string option \<Rightarrow> out_item list" where
  "listing_outputs fs ds pre delimiter =
     sort_key out_key (remdups (List.map_filter (file_output pre delimiter) fs @
                                List.map_filter (dir_output pre delimiter) ds))"

text \<open>The listing the merge produces from two sorted streams.\<close>

fun merge_out :: "list_entry list \<Rightarrow> string list \<Rightarrow> out_item list" where
  "merge_out [] ds = map (\<lambda>d. Prefix (d @ ''/'')) ds"
| "merge_out (f # fs) [] = map Content (f # fs)"
| "merge_out (f # fs) (d # ds) =
     (if key f < d @ ''/'' then Content f # merge_out fs (d # ds)
      else Prefix (d @ ''/'') # merge_out (f # fs) ds)"

definition slash_outputs :: "list_entry list \<Rightarrow> string list \<Rightarrow> string \<Rightarrow> out_item list" where
  "slash_outputs fs ds pre =
     merge_out (filter (\<lambda>f. prefix pre (key f)) fs) (filter (\<lambda>d. prefix pre (d @ ''/'')) ds)"

text \<open>A directory listing in the order \<^verbatim>\<open>DirListing\<close> promises.\<close>

definition sorted_streams :: "list_entry list \<Rightarrow> string list \<Rightarrow> bool" where
  "sorted_streams fs ds \<longleftrightarrow>
     strictly_sorted key fs \<and> strictly_sorted (\<lambda>d. d @ ''/'') ds \<and>
     (\<forall>f \<in> set fs. \<forall>d \<in> set ds. key f \<noteq> d @ ''/'')"

text \<open>A client that follows continuation tokens, for at most \<open>fuel\<close> further requests.\<close>

fun walk_pages :: "nat \<Rightarrow> (string option \<Rightarrow> page) \<Rightarrow> string option \<Rightarrow> page list" where
  "walk_pages 0 fetch marker = [fetch marker]"
| "walk_pages (Suc fuel) fetch marker =
     (let pg = fetch marker in
      pg # (case next_token pg of None \<Rightarrow> [] | Some t \<Rightarrow> walk_pages fuel fetch (Some t)))"

section \<open>Facts about pages\<close>

lemma page_of_0 [simp]: "page_of outs 0 = empty_page"
  by (simp add: page_of_def empty_page_def map_filter_simps)

lemma map_filter_append: "List.map_filter f (xs @ ys) = List.map_filter f xs @ List.map_filter f ys"
  by (simp add: List.map_filter_def)

lemma map_filter_Content [simp]:
  "List.map_filter content_of (map Content es) = es"
  "List.map_filter prefix_of (map Content es) = []"
  by (induction es) (simp_all add: map_filter_simps)

lemma map_filter_Prefix [simp]:
  "List.map_filter content_of (map Prefix ps) = []"
  "List.map_filter prefix_of (map Prefix ps) = ps"
  by (induction ps) (simp_all add: map_filter_simps)

lemma set_map_filter: "set (List.map_filter f xs) = {y. \<exists>x \<in> set xs. f x = Some y}"
  by (force simp: List.map_filter_def)

lemma content_of_Some [simp]: "content_of x = Some e \<longleftrightarrow> x = Content e"
  by (cases x) auto

lemma prefix_of_Some [simp]: "prefix_of x = Some p \<longleftrightarrow> x = Prefix p"
  by (cases x) auto

lemma strictly_sorted_contents:
  "strictly_sorted out_key outs \<Longrightarrow> strictly_sorted key (List.map_filter content_of outs)"
proof (induction outs)
  case (Cons x outs)
  then show ?case by (cases x) (auto simp: map_filter_simps set_map_filter)
qed (simp add: map_filter_simps)

lemma strictly_sorted_prefixes:
  "strictly_sorted out_key outs \<Longrightarrow> strictly_sorted (\<lambda>p. p) (List.map_filter prefix_of outs)"
proof (induction outs)
  case (Cons x outs)
  then show ?case by (cases x) (auto simp: map_filter_simps set_map_filter)
qed (simp add: map_filter_simps)

text \<open>
  An interface shared by the paginators: a source of pages whose answer to a marker and a page
  size is a window of one strictly sorted listing.
\<close>

locale page_source =
  fixes fetch :: "'q \<Rightarrow> string option \<Rightarrow> nat \<Rightarrow> page"
    and outs :: "'q \<Rightarrow> out_item list"
    and ok :: "'q \<Rightarrow> bool"
  assumes fetch_window: "ok q \<Longrightarrow> fetch q marker n = page_of (resume_at marker (outs q)) n"
    and outs_sorted: "ok q \<Longrightarrow> strictly_sorted out_key (outs q)"
begin

lemma walk_complete:
  assumes ok: "ok q" and n: "0 < n" and fuel: "length (resume_at marker (outs q)) \<le> fuel"
  shows "concat (map contents (walk_pages fuel (\<lambda>m. fetch q m n) marker)) =
           List.map_filter content_of (resume_at marker (outs q)) \<and>
         concat (map common_prefixes (walk_pages fuel (\<lambda>m. fetch q m n) marker)) =
           List.map_filter prefix_of (resume_at marker (outs q)) \<and>
         \<not> is_truncated (last (walk_pages fuel (\<lambda>m. fetch q m n) marker))"
  using fuel
proof (induction fuel arbitrary: marker)
  case 0
  then have "resume_at marker (outs q) = []" by simp
  then show ?case using fetch_window [OF ok] n by (simp add: page_of_def)
next
  case (Suc fuel)
  let ?L = "resume_at marker (outs q)"
  have sorted: "strictly_sorted out_key ?L"
    using outs_sorted [OF ok] by (rule strictly_sorted_filter)
  show ?case
  proof (cases "n < length ?L")
    case False
    then show ?thesis using fetch_window [OF ok, of marker n] by (simp add: page_of_def Let_def)
  next
    case True
    define t where "t = out_key (?L ! (n - 1))"
    have last: "?L ! (n - 1) = last (take n ?L)"
      using True n last_take by metis
    have after: "after_marker marker t"
      unfolding t_def using True nth_mem [of "n - 1" ?L] by simp
    then have "resume_at (Some t) (outs q) = filter (\<lambda>x. t < out_key x) ?L"
      by (auto simp: after_marker_def intro!: filter_cong split: option.splits)
    also have "\<dots> = drop n ?L"
      unfolding t_def last using strictly_sorted_after_last [OF sorted n True] by simp
    finally have rest: "resume_at (Some t) (outs q) = drop n ?L" .
    have "length (resume_at (Some t) (outs q)) \<le> fuel"
      using Suc.prems n True by (simp add: rest)
    note IH = Suc.IH [OF this]
    have split: "List.map_filter g ?L = List.map_filter g (take n ?L) @ List.map_filter g (drop n ?L)"
      for g :: "out_item \<Rightarrow> 'z option"
      by (metis append_take_drop_id map_filter_append)
    have ne: "walk_pages fuel (\<lambda>m. fetch q m n) (Some t) \<noteq> []"
      by (cases fuel) (simp_all add: Let_def)
    have page: "fetch q marker n = page_of ?L n" by (rule fetch_window [OF ok])
    have tok: "next_token (page_of ?L n) = Some t" using True n by (simp add: page_of_def t_def)
    show ?thesis
      using IH ne by (simp add: Let_def page tok rest split) (simp add: page_of_def)
  qed
qed

end

section \<open>The general paginator is a window of the listing\<close>

lemma cps_insert_sorted:
  "strictly_sorted (\<lambda>p. p) ps \<Longrightarrow>
     strictly_sorted (\<lambda>p. p) (cps_insert p ps) \<and> set (cps_insert p ps) = insert p (set ps)"
  by (induction p ps rule: cps_insert.induct) auto

lemma take_append_prefix: "prefix p k \<Longrightarrow> take (length p + n) k = p @ take n (drop (length p) k)"
  by (auto simp: prefix_def)

definition norm_delimiter :: "string option \<Rightarrow> string option" where
  "norm_delimiter delimiter = (case delimiter of Some d \<Rightarrow> if d = [] then None else Some d | None \<Rightarrow> None)"

lemma file_output_Content:
  "file_output pre delimiter e = Some (Content e') \<Longrightarrow>
     e' = e \<and> prefix pre (key e) \<and>
     (\<forall>d. delimiter = Some d \<longrightarrow> d \<noteq> [] \<longrightarrow> find_sub d (drop (length pre) (key e)) = None)"
  by (auto simp: file_output_def split: if_splits option.splits)

lemma group_entry_output:
  "group_entry pre (norm_delimiter delimiter) e (cs, cps) =
     (case file_output pre delimiter e of
        None \<Rightarrow> (cs, cps)
      | Some (Content e') \<Rightarrow> (cs @ [e'], cps)
      | Some (Prefix p) \<Rightarrow> (cs, cps_insert p cps))"
  by (auto simp: group_entry_def file_output_def norm_delimiter_def Let_def take_append_prefix add.assoc
      split: option.splits)

lemma fold_group_entry:
  assumes "fold (group_entry pre (norm_delimiter delimiter)) fs (cs, cps) = (cs', cps')"
    and "strictly_sorted (\<lambda>p. p) cps"
  shows "cs' = cs @ List.map_filter content_of (List.map_filter (file_output pre delimiter) fs) \<and>
         strictly_sorted (\<lambda>p. p) cps' \<and>
         set cps' = set cps \<union> set (List.map_filter prefix_of (List.map_filter (file_output pre delimiter) fs))"
  using assms
proof (induction fs arbitrary: cs cps)
  case (Cons e fs)
  show ?case
  proof (cases "file_output pre delimiter e")
    case None
    with Cons show ?thesis by (simp add: group_entry_output map_filter_simps)
  next
    case (Some x)
    with Cons.prems cps_insert_sorted [OF Cons.prems(2)] show ?thesis
      using Cons.IH [of "cs @ [e]" cps] Cons.IH [of cs] file_output_Content
      by (cases x) (fastforce simp: group_entry_output map_filter_simps)+
  qed
qed (simp add: map_filter_simps)

lemma list_to_contents_outputs:
  assumes "list_to_contents fs pre delimiter = (cs, cps)"
  shows "cs = List.map_filter content_of (List.map_filter (file_output pre delimiter) fs)"
    and "strictly_sorted (\<lambda>p. p) cps"
    and "set cps = set (List.map_filter prefix_of (List.map_filter (file_output pre delimiter) fs))"
  using fold_group_entry [of pre delimiter fs "[]" "[]" cs cps] assms
  by (simp_all add: list_to_contents_def Let_def norm_delimiter_def)

text \<open>No key is at the same time a \<open>Content\<close> and a common prefix.\<close>

lemma find_sub_prefixed: "find_sub pat (xs @ pat @ ys) \<noteq> None"
proof (induction xs)
  case Nil
  have "prefix pat (pat @ ys)" by simp
  then show ?case by (cases "pat @ ys") simp_all
qed simp

lemma find_sub_take: "find_sub pat xs = Some i \<Longrightarrow> find_sub pat (take (i + length pat) xs) \<noteq> None"
proof -
  assume "find_sub pat xs = Some i"
  then obtain ys where "xs = take i xs @ pat @ ys" "i + length pat \<le> length xs"
    by (blast dest: find_sub_Some_split)
  then have "take (i + length pat) xs = take i xs @ pat @ []"
    by (metis append_Nil2 append_assoc append_eq_conv_conj length_append length_take min.absorb2 add_leD1)
  then show ?thesis using find_sub_prefixed by metis
qed

lemma file_output_Prefix:
  assumes "file_output pre delimiter e = Some (Prefix p)"
  shows "\<exists>d. delimiter = Some d \<and> d \<noteq> [] \<and> prefix pre p \<and> find_sub d (drop (length pre) p) \<noteq> None"
proof -
  from assms obtain d i where d: "delimiter = Some d" "d \<noteq> []" "prefix pre (key e)"
      "find_sub d (drop (length pre) (key e)) = Some i"
      "p = take (length pre + i + length d) (key e)"
    by (auto simp: file_output_def split: if_splits option.splits)
  then have p: "p = pre @ take (i + length d) (drop (length pre) (key e))"
    using take_append_prefix [OF d(3), of "i + length d"] by (simp add: add.assoc)
  show ?thesis unfolding p using d(1,2) find_sub_take [OF d(4)] by simp
qed

lemma dir_output_Prefix:
  assumes "dir_output pre delimiter d = Some x"
  shows "\<exists>p. x = Prefix p \<and> delimiter = Some ''/'' \<and> prefix pre p \<and>
             find_sub ''/'' (drop (length pre) p) \<noteq> None"
proof -
  from assms obtain r where r: "delimiter = Some ''/''" "d = pre @ r" "x = Prefix (dir_common_prefix pre d)"
    by (auto simp: dir_output_def prefix_def split: if_splits)
  show ?thesis
  proof (cases "find_sub ''/'' r")
    case None
    with r show ?thesis
      using find_sub_prefixed [of "''/''" r "[]"] by (simp add: dir_common_prefix_def)
  next
    case (Some i)
    with r find_sub_take [OF Some] show ?thesis by (simp add: dir_common_prefix_def)
  qed
qed

abbreviation raw_outputs where
  "raw_outputs fs ds pre delimiter \<equiv>
     List.map_filter (file_output pre delimiter) fs @ List.map_filter (dir_output pre delimiter) ds"

lemma raw_outputs_inj:
  assumes "distinct (map key fs)"
  shows "inj_on out_key (set (raw_outputs fs ds pre delimiter))"
proof (rule inj_onI)
  fix x y assume x: "x \<in> set (raw_outputs fs ds pre delimiter)"
    and y: "y \<in> set (raw_outputs fs ds pre delimiter)" and eq: "out_key x = out_key y"
  have content: "e \<in> set fs \<and> (\<forall>d. delimiter = Some d \<longrightarrow> d \<noteq> [] \<longrightarrow>
      find_sub d (drop (length pre) (key e)) = None)"
    if "Content e \<in> set (raw_outputs fs ds pre delimiter)" for e
    using that by (auto simp: set_map_filter dest: file_output_Content dir_output_Prefix)
  have pref: "\<exists>d. delimiter = Some d \<and> d \<noteq> [] \<and> find_sub d (drop (length pre) p) \<noteq> None"
    if "Prefix p \<in> set (raw_outputs fs ds pre delimiter)" for p
    using that by (auto simp: set_map_filter dest!: file_output_Prefix dir_output_Prefix)
  show "x = y"
  proof (cases x)
    case (Content e)
    show ?thesis
    proof (cases y)
      case (Content e')
      with \<open>x = Content e\<close> x y eq have "e \<in> set fs" "e' \<in> set fs" "key e = key e'"
        using content by auto
      with assms \<open>x = Content e\<close> Content show ?thesis by (auto simp: distinct_map inj_on_def)
    next
      case (Prefix p)
      with \<open>x = Content e\<close> x y eq show ?thesis using content [of e] pref [of p] by auto
    qed
  next
    case (Prefix p)
    show ?thesis
    proof (cases y)
      case (Content e')
      with \<open>x = Prefix p\<close> x y eq show ?thesis using content [of e'] pref [of p] by auto
    qed (use \<open>x = Prefix p\<close> eq in simp)
  qed
qed

lemma listing_outputs_sorted:
  assumes "distinct (map key fs)"
  shows "strictly_sorted out_key (listing_outputs fs ds pre delimiter)"
  unfolding listing_outputs_def
  using raw_outputs_inj [OF assms, where ds = ds and pre = pre and delimiter = delimiter]
  by (intro strictly_sorted_sort_key) (simp add: distinct_map)

lemma set_listing_outputs:
  "set (listing_outputs fs ds pre delimiter) = set (raw_outputs fs ds pre delimiter)"
  by (simp add: listing_outputs_def)

lemma sort_key_contents:
  assumes "distinct (map key fs)" "list_to_contents fs pre delimiter = (cs, cps)"
  shows "sort_key key cs = List.map_filter content_of (listing_outputs fs ds pre delimiter)"
proof (rule strictly_sorted_unique)
  note cs = list_to_contents_outputs(1) [OF assms(2)]
  show "strictly_sorted key (List.map_filter content_of (listing_outputs fs ds pre delimiter))"
    by (rule strictly_sorted_contents [OF listing_outputs_sorted [OF assms(1)]])
  have "distinct (map key (List.map_filter content_of (List.map_filter (file_output pre delimiter) fs)))"
    using assms(1)
  proof (induction fs)
    case (Cons e fs)
    then show ?case
      by (cases "file_output pre delimiter e"; cases "the (file_output pre delimiter e)")
         (auto simp: map_filter_simps set_map_filter dest!: file_output_Content)
  qed (simp add: map_filter_simps)
  then show "strictly_sorted key (sort_key key cs)"
    unfolding cs by (rule strictly_sorted_sort_key)
  show "set (sort_key key cs) = set (List.map_filter content_of (listing_outputs fs ds pre delimiter))"
    by (auto simp: cs set_map_filter set_listing_outputs dest!: dir_output_Prefix)
qed

lemma remdups_adj_sorted:
  "sorted xs \<Longrightarrow> strictly_sorted (\<lambda>p. p) (remdups_adj (xs :: 'a::linorder list))"
  by (induction xs rule: remdups_adj.induct) (auto simp: order_less_le)

lemma remdups_adj_sort_sorted: "strictly_sorted (\<lambda>p. p) (remdups_adj (sort xs))"
  by (rule remdups_adj_sorted) simp

lemma common_prefixes_outputs:
  assumes "distinct (map key fs)" "list_to_contents fs pre delimiter = (cs, cps)"
  shows "remdups_adj (sort (into_vec cps @
           (if delimiter = Some ''/''
            then map (dir_common_prefix pre) (filter (\<lambda>dir. prefix pre dir) ds) else []))) =
         List.map_filter prefix_of (listing_outputs fs ds pre delimiter)"
proof (rule strictly_sorted_unique [where f = "\<lambda>p. p"])
  note cps = list_to_contents_outputs(3) [OF assms(2)]
  show "strictly_sorted (\<lambda>p. p) (List.map_filter prefix_of (listing_outputs fs ds pre delimiter))"
    by (rule strictly_sorted_prefixes [OF listing_outputs_sorted [OF assms(1)]])
  have "set (if delimiter = Some ''/'' then map (dir_common_prefix pre) (filter (\<lambda>dir. prefix pre dir) ds)
          else []) = {p. \<exists>d \<in> set ds. dir_output pre delimiter d = Some (Prefix p)}"
    by (auto simp: dir_output_def)
  then show "set (remdups_adj (sort (into_vec cps @
           (if delimiter = Some ''/''
            then map (dir_common_prefix pre) (filter (\<lambda>dir. prefix pre dir) ds) else [])))) =
         set (List.map_filter prefix_of (listing_outputs fs ds pre delimiter))"
    by (auto simp: into_vec_def cps set_map_filter set_listing_outputs)
qed (rule remdups_adj_sort_sorted)

lemma map_filter_resume:
  "filter (\<lambda>e. after_marker marker (key e)) (List.map_filter content_of L) =
     List.map_filter content_of (resume_at marker L)"
  "filter (after_marker marker) (List.map_filter prefix_of L) =
     List.map_filter prefix_of (resume_at marker L)"
  by (induction L) (auto simp: map_filter_simps split: out_item.splits option.splits)

lemma sort_item_keys:
  assumes "strictly_sorted out_key L"
  shows "sort (map key (List.map_filter content_of L) @ List.map_filter prefix_of L) = map out_key L"
proof (rule properties_for_sort)
  show "mset (map out_key L) =
          mset (map key (List.map_filter content_of L) @ List.map_filter prefix_of L)"
  proof (induction L)
    case (Cons x L)
    then show ?case by (cases x) (simp_all add: map_filter_simps)
  qed (simp add: map_filter_simps)
  show "sorted (map out_key L)" using assms by (simp add: strictly_sorted_iff)
qed

lemma filter_map_filter_split:
  assumes "\<And>x y. x \<in> set (take n L) \<Longrightarrow> g x = Some y \<Longrightarrow> P y"
    and "\<And>x y. x \<in> set (drop n L) \<Longrightarrow> g x = Some y \<Longrightarrow> \<not> P y"
  shows "filter P (List.map_filter g L) = List.map_filter g (take n L)"
proof -
  have "filter P (List.map_filter g (take n L)) = List.map_filter g (take n L)"
    using assms(1) by (auto simp: filter_id_conv set_map_filter)
  moreover have "filter P (List.map_filter g (drop n L)) = []"
    using assms(2) by (auto simp: filter_empty_conv set_map_filter)
  moreover have "List.map_filter g L = List.map_filter g (take n L) @ List.map_filter g (drop n L)"
    by (metis append_take_drop_id map_filter_append)
  ultimately show ?thesis by simp
qed

lemma filter_page_items:
  assumes "strictly_sorted out_key L"
  shows "filter (\<lambda>e. key e \<in> set (map out_key (take n L))) (List.map_filter content_of L) =
           List.map_filter content_of (take n L)"
    and "filter (\<lambda>p. p \<in> set (map out_key (take n L))) (List.map_filter prefix_of L) =
           List.map_filter prefix_of (take n L)"
proof -
  have "strictly_sorted out_key (take n L @ drop n L)" using assms by simp
  then have lt: "out_key x < out_key y" if "x \<in> set (take n L)" "y \<in> set (drop n L)" for x y
    using that unfolding strictly_sorted_append by blast
  have later: "out_key y \<notin> set (map out_key (take n L))" if "y \<in> set (drop n L)" for y
  proof
    assume "out_key y \<in> set (map out_key (take n L))"
    then obtain x where x: "x \<in> set (take n L)" "out_key y = out_key x" by auto
    from lt [OF x(1) that] x(2) show False by simp
  qed
  show "filter (\<lambda>e. key e \<in> set (map out_key (take n L))) (List.map_filter content_of L) =
           List.map_filter content_of (take n L)"
    by (rule filter_map_filter_split) (use later in \<open>force+\<close>)
  show "filter (\<lambda>p. p \<in> set (map out_key (take n L))) (List.map_filter prefix_of L) =
           List.map_filter prefix_of (take n L)"
    by (rule filter_map_filter_split) (use later in \<open>force+\<close>)
qed

lemma paginate_window:
  assumes "distinct (map key fs)"
  shows "paginate fs ds pre delimiter marker n =
           page_of (resume_at marker (listing_outputs fs ds pre delimiter)) n"
proof (cases "n = 0")
  case True
  then show ?thesis by (simp add: paginate_def)
next
  case False
  obtain cs cps where lc: "list_to_contents fs pre delimiter = (cs, cps)" by fastforce
  define L where "L = resume_at marker (listing_outputs fs ds pre delimiter)"
  have sorted: "strictly_sorted out_key L"
    unfolding L_def by (rule strictly_sorted_filter [OF listing_outputs_sorted [OF assms]])
  have len: "length (map key (List.map_filter content_of L) @ List.map_filter prefix_of L) = length L"
    using sort_item_keys [OF sorted] by (metis length_map length_sort)
  have page: "take (min n (length L)) (map out_key L) = map out_key (take n L)"
    by (simp add: take_map min_def)
  have ne: "take n L \<noteq> []" if "n < length L" using that False by auto
  have last: "last (map out_key (take n L)) = out_key (L ! (n - 1))" if "n < length L"
    using that False ne by (simp add: last_map last_conv_nth)
  have "paginate fs ds pre delimiter marker n =
          \<lparr>contents = List.map_filter content_of (take n L),
           common_prefixes = List.map_filter prefix_of (take n L),
           is_truncated = min n (length L) < length L,
           next_token = (if min n (length L) < length L
             then (if map out_key (take n L) = [] then None else Some (last (map out_key (take n L))))
             else None)\<rparr>"
    by (simp only: paginate_def False if_False lc prod.case Let_def sort_by_key
        sort_key_contents [OF assms lc, of ds] common_prefixes_outputs [OF assms lc] map_filter_resume
        L_def [symmetric] sort_item_keys [OF sorted] length_map page filter_page_items [OF sorted])
  also have "\<dots> = page_of L n"
    using False last ne by (auto simp: page_of_def min_less_iff_disj)
  finally show ?thesis unfolding L_def .
qed

interpretation general: page_source
  "\<lambda>(fs, ds, pre, delimiter). paginate fs ds pre delimiter"
  "\<lambda>(fs, ds, pre, delimiter). listing_outputs fs ds pre delimiter"
  "\<lambda>(fs, ds, pre, delimiter). distinct (map key fs)"
  by unfold_locales (auto simp: paginate_window listing_outputs_sorted)

section \<open>The merging paginator is a window of the merged listing\<close>

lemma set_merge_out:
  "set (merge_out fs ds) = Content ` set fs \<union> (\<lambda>d. Prefix (d @ ''/'')) ` set ds"
  by (induction fs ds rule: merge_out.induct) auto

lemma sorted_streams_Cons:
  "sorted_streams (f # fs) ds \<Longrightarrow> sorted_streams fs ds"
  "sorted_streams fs (d # ds) \<Longrightarrow> sorted_streams fs ds"
  by (auto simp: sorted_streams_def)

lemma sorted_streams_filter:
  "sorted_streams fs ds \<Longrightarrow> sorted_streams (filter P fs) (filter Q ds)"
  by (simp add: sorted_streams_def strictly_sorted_filter)

lemma merge_out_sorted: "sorted_streams fs ds \<Longrightarrow> strictly_sorted out_key (merge_out fs ds)"
proof (induction fs ds rule: merge_out.induct)
  case (1 ds)
  then show ?case by (simp add: sorted_streams_def strictly_sorted_map comp_def)
next
  case (2 f fs)
  then show ?case by (auto simp: sorted_streams_def strictly_sorted_map comp_def)
next
  case (3 f fs d ds)
  show ?case
  proof (cases "key f < d @ ''/''")
    case True
    then have "\<forall>x \<in> set (merge_out fs (d # ds)). key f < out_key x"
      using "3.prems" unfolding set_merge_out sorted_streams_def by fastforce
    with True 3 show ?thesis by (simp add: sorted_streams_Cons(1))
  next
    case False
    with "3.prems" have "d @ ''/'' < key f" by (auto simp: sorted_streams_def)
    then have "\<forall>x \<in> set (merge_out (f # fs) ds). d @ ''/'' < out_key x"
      using "3.prems" unfolding set_merge_out sorted_streams_def by fastforce
    with False 3 show ?thesis by (simp add: sorted_streams_Cons(2))
  qed
qed

lemma merge_out_filter:
  assumes "sorted_streams fs ds"
  shows "merge_out (filter (\<lambda>f. P (key f)) fs) (filter (\<lambda>d. P (d @ ''/'')) ds) =
         filter (\<lambda>x. P (out_key x)) (merge_out fs ds)"
proof (rule strictly_sorted_unique [where f = out_key])
  show "strictly_sorted out_key (merge_out (filter (\<lambda>f. P (key f)) fs) (filter (\<lambda>d. P (d @ ''/'')) ds))"
    by (intro merge_out_sorted sorted_streams_filter assms)
  show "strictly_sorted out_key (filter (\<lambda>x. P (out_key x)) (merge_out fs ds))"
    by (intro strictly_sorted_filter merge_out_sorted assms)
qed (auto simp: set_merge_out)

lemma past_prefix_range:
  assumes "strictly_sorted f xs" "i < length xs" "\<not> prefix pre (f (xs ! i))" "pre < f (xs ! i)"
  shows "filter (\<lambda>x. prefix pre (f x)) (drop i xs) = []"
proof -
  have "\<not> prefix pre (f y)" if "y \<in> set (drop i xs)" for y
  proof
    assume p: "prefix pre (f y)"
    have "strictly_sorted f (xs ! i # drop (Suc i) xs)"
      using assms(1,2) by (simp add: Cons_nth_drop_Suc strictly_sorted_drop del: strictly_sorted_simps)
    moreover have "y \<in> set (xs ! i # drop (Suc i) xs)"
      using that assms(2) by (simp add: Cons_nth_drop_Suc)
    ultimately have "f (xs ! i) \<le> f y" by auto
    with p assms(3,4) prefix_interval [of pre "f (xs ! i)" "f y"] show False by simp
  qed
  then show ?thesis by (simp add: filter_empty_conv)
qed

lemma skip_files_drop:
  assumes "strictly_sorted key fs"
  shows "filter (\<lambda>f. prefix pre (key f)) (drop (skip_files pre fs fi) fs) =
           filter (\<lambda>f. prefix pre (key f)) (drop fi fs) \<and>
         (skip_files pre fs fi < length fs \<longrightarrow> prefix pre (key (fs ! skip_files pre fs fi)))"
  using assms
proof (induction pre fs fi rule: skip_files.induct)
  case (1 pre fs fi)
  have stop: "skip_files pre fs (length fs) = length fs" by (subst skip_files.simps) simp
  show ?case
  proof (cases "fi < length fs \<and> \<not> prefix pre (key (fs ! fi))")
    case True
    then have split: "drop fi fs = fs ! fi # drop (Suc fi) fs" by (simp add: Cons_nth_drop_Suc)
    show ?thesis
    proof (cases "pre < key (fs ! fi)")
      case gt: True
      with True past_prefix_range [OF "1.prems", of fi pre]
      show ?thesis by (simp add: skip_files.simps [of pre fs fi] stop)
    next
      case False
      with True split 1 show ?thesis by (simp add: skip_files.simps [of pre fs fi])
    qed
  qed (auto simp: skip_files.simps [of pre fs fi])
qed

lemma skip_dirs_drop:
  assumes "strictly_sorted (\<lambda>d. d @ ''/'') ds"
  shows "filter (\<lambda>d. prefix pre (d @ ''/'')) (drop (skip_dirs pre ds di) ds) =
           filter (\<lambda>d. prefix pre (d @ ''/'')) (drop di ds) \<and>
         (skip_dirs pre ds di < length ds \<longrightarrow> prefix pre (ds ! skip_dirs pre ds di @ ''/''))"
  using assms
proof (induction pre ds di rule: skip_dirs.induct)
  case (1 pre ds di)
  have stop: "skip_dirs pre ds (length ds) = length ds" by (subst skip_dirs.simps) simp
  note skip = skip_dirs.simps [of pre ds di, unfolded order_simps cmp_iff]
  show ?case
  proof (cases "di < length ds \<and> \<not> prefix pre (ds ! di @ ''/'')")
    case True
    then have split: "drop di ds = ds ! di # drop (Suc di) ds" by (simp add: Cons_nth_drop_Suc)
    show ?thesis
    proof (cases "pre < ds ! di @ ''/''")
      case gt: True
      with True past_prefix_range [OF "1.prems", of di pre] show ?thesis by (simp add: skip stop)
    next
      case False
      with True split 1 show ?thesis by (simp add: skip order_simps)
    qed
  next
    case False
    then show ?thesis by (subst (1 2 3) skip) auto
  qed
qed

text \<open>What the loop still has to emit, in terms of the cursors.\<close>

definition pending_out :: "list_entry list \<Rightarrow> string list \<Rightarrow> string \<Rightarrow> nat \<Rightarrow> nat \<Rightarrow> out_item list" where
  "pending_out fs ds pre fi di =
     merge_out (filter (\<lambda>f. prefix pre (key f)) (drop fi fs))
               (filter (\<lambda>d. prefix pre (d @ ''/'')) (drop di ds))"

lemma filter_drop_Suc:
  "i < length xs \<Longrightarrow> P (xs ! i) \<Longrightarrow> filter P (drop i xs) = xs ! i # filter P (drop (Suc i) xs)"
  by (simp add: Cons_nth_drop_Suc [symmetric])

lemma pending_out_skip:
  assumes "sorted_streams fs ds"
  shows "pending_out fs ds pre (skip_files pre fs fi) (skip_dirs pre ds di) = pending_out fs ds pre fi di"
  using assms skip_files_drop [of fs pre fi] skip_dirs_drop [of ds pre di]
  by (simp add: pending_out_def sorted_streams_def)

text \<open>One round of the loop: either both streams are exhausted, or the smaller head is emitted.\<close>

lemma pending_out_unfold:
  assumes "fi < length fs \<longrightarrow> prefix pre (key (fs ! fi))" "di < length ds \<longrightarrow> prefix pre (ds ! di @ ''/'')"
  shows "pending_out fs ds pre fi di =
     (if length fs \<le> fi \<and> length ds \<le> di then []
      else if fi < length fs \<and> (di < length ds \<longrightarrow> key (fs ! fi) < ds ! di @ ''/'')
        then Content (fs ! fi) # pending_out fs ds pre (Suc fi) di
      else Prefix (ds ! di @ ''/'') # pending_out fs ds pre fi (Suc di))"
proof (cases "fi < length fs")
  case f: True
  then have F: "filter (\<lambda>f. prefix pre (key f)) (drop fi fs) =
      fs ! fi # filter (\<lambda>f. prefix pre (key f)) (drop (Suc fi) fs)"
    using assms(1) by (simp add: filter_drop_Suc)
  show ?thesis
  proof (cases "di < length ds")
    case True
    then have "filter (\<lambda>d. prefix pre (d @ ''/'')) (drop di ds) =
        ds ! di # filter (\<lambda>d. prefix pre (d @ ''/'')) (drop (Suc di) ds)"
      using assms(2) by (simp add: filter_drop_Suc)
    with f F True show ?thesis by (simp add: pending_out_def)
  next
    case False
    with f F show ?thesis
      by (cases "filter (\<lambda>f. prefix pre (key f)) (drop (Suc fi) fs)") (simp_all add: pending_out_def)
  qed
next
  case False
  show ?thesis
  proof (cases "di < length ds")
    case True
    then have "filter (\<lambda>d. prefix pre (d @ ''/'')) (drop di ds) =
        ds ! di # filter (\<lambda>d. prefix pre (d @ ''/'')) (drop (Suc di) ds)"
      using assms(2) by (simp add: filter_drop_Suc)
    with False True show ?thesis by (simp add: pending_out_def)
  qed (use False in \<open>simp add: pending_out_def\<close>)
qed

definition emitted :: "slash_state \<Rightarrow> out_item list \<Rightarrow> nat \<Rightarrow> slash_state \<Rightarrow> bool" where
  "emitted st M room res \<longleftrightarrow>
     st_contents res = st_contents st @ List.map_filter content_of (take room M) \<and>
     st_prefixes res = st_prefixes st @ List.map_filter prefix_of (take room M) \<and>
     (st_truncated res \<longleftrightarrow> room < length M) \<and>
     st_last_key res = (if take room M = [] then st_last_key st else Some (out_key (last (take room M))))"

text \<open>The state after the output \<open>x\<close> is taken.\<close>

definition slash_take :: "out_item \<Rightarrow> nat \<Rightarrow> nat \<Rightarrow> slash_state \<Rightarrow> slash_state" where
  "slash_take x fi di st =
     (case x of
        Content e \<Rightarrow> st\<lparr>st_di := di, st_fi := fi, st_last_key := Some (key e), st_contents := st_contents st @ [e]\<rparr>
      | Prefix q \<Rightarrow> st\<lparr>st_fi := fi, st_di := di, st_last_key := Some q, st_prefixes := st_prefixes st @ [q]\<rparr>)"

lemma slash_take_simps [simp]:
  "st_fi (slash_take x fi di st) = fi" "st_di (slash_take x fi di st) = di"
  "st_truncated (slash_take x fi di st) = st_truncated st"
  "length (st_contents (slash_take x fi di st)) + length (st_prefixes (slash_take x fi di st)) =
     Suc (length (st_contents st) + length (st_prefixes st))"
  by (cases x; simp add: slash_take_def)+

lemma emitted_step: "emitted (slash_take x fi di st) M room res \<Longrightarrow> emitted st (x # M) (Suc room) res"
  by (cases x) (auto simp: slash_take_def emitted_def map_filter_simps split: if_splits)

text \<open>A round that emits takes the first pending output.\<close>

lemma slash_loop_round:
  fixes fs ds pre st
  defines "fi \<equiv> skip_files pre fs (st_fi st)" and "di \<equiv> skip_dirs pre ds (st_di st)"
  assumes F: "fi < length fs \<longrightarrow> prefix pre (key (fs ! fi))" and D: "di < length ds \<longrightarrow> prefix pre (ds ! di @ ''/'')"
    and more: "\<not> (length fs \<le> fi \<and> length ds \<le> di)" and room: "length (st_contents st) + length (st_prefixes st) < n"
  obtains x fi' di' where "slash_loop fs ds pre n st = slash_loop fs ds pre n (slash_take x fi' di' st)"
    "pending_out fs ds pre fi di = x # pending_out fs ds pre fi' di'"
    "(length fs - fi') + (length ds - di') < (length fs - fi) + (length ds - di)"
proof
  let ?file = "fi < length fs \<and> (di < length ds \<longrightarrow> key (fs ! fi) < ds ! di @ ''/'')"
  let ?x = "if ?file then Content (fs ! fi) else Prefix (ds ! di @ ''/'')"
  let ?fi = "if ?file then Suc fi else fi" and ?di = "if ?file then di else Suc di"
  show "slash_loop fs ds pre n st = slash_loop fs ds pre n (slash_take ?x ?fi ?di st)"
    using more room
    by (subst slash_loop.simps) (auto simp: slash_take_def Let_def fi_def [symmetric] di_def [symmetric] order_simps)
  show "pending_out fs ds pre fi di = ?x # pending_out fs ds pre ?fi ?di"
    using more unfolding pending_out_unfold [OF F D] by auto
  show "(length fs - ?fi) + (length ds - ?di) < (length fs - fi) + (length ds - di)"
    using more by auto
qed

lemma slash_loop_emits:
  assumes "sorted_streams fs ds" "\<not> st_truncated st"
    and "length (st_contents st) + length (st_prefixes st) + room = n"
  shows "emitted st (pending_out fs ds pre (st_fi st) (st_di st)) room (slash_loop fs ds pre n st)"
  using assms(2,3)
proof (induction "(length fs - st_fi st) + (length ds - st_di st)" arbitrary: st room rule: less_induct)
  case (less st)
  define fi di where "fi = skip_files pre fs (st_fi st)" and "di = skip_dirs pre ds (st_di st)"
  have ge: "st_fi st \<le> fi" "st_di st \<le> di" by (simp_all add: fi_def di_def skip_files_ge skip_dirs_ge)
  have F: "fi < length fs \<longrightarrow> prefix pre (key (fs ! fi))" and D: "di < length ds \<longrightarrow> prefix pre (ds ! di @ ''/'')"
    using assms(1) skip_files_drop [of fs pre "st_fi st"] skip_dirs_drop [of ds pre "st_di st"]
    by (simp_all add: sorted_streams_def fi_def di_def)
  have M: "pending_out fs ds pre (st_fi st) (st_di st) = pending_out fs ds pre fi di"
    using pending_out_skip [OF assms(1)] by (simp add: fi_def di_def)
  note loop = slash_loop.simps [of fs ds pre n st, folded fi_def di_def, unfolded Let_def]
  consider (stop) "length fs \<le> fi" "length ds \<le> di"
    | (full) "\<not> (length fs \<le> fi \<and> length ds \<le> di)" "room = 0"
    | (step) room' where "\<not> (length fs \<le> fi \<and> length ds \<le> di)" "room = Suc room'"
    using not0_implies_Suc by blast
  then show ?case
  proof cases
    case stop
    with less.prems show ?thesis
      unfolding M pending_out_unfold [OF F D] by (simp add: loop emitted_def map_filter_simps)
  next
    case full
    then have "pending_out fs ds pre fi di \<noteq> []" unfolding pending_out_unfold [OF F D] by simp
    with full less.prems show ?thesis
      unfolding M by (auto simp: loop emitted_def map_filter_simps)
  next
    case step
    with less.prems(2) have room: "length (st_contents st) + length (st_prefixes st) < n" by simp
    obtain x fi' di' where eq: "slash_loop fs ds pre n st = slash_loop fs ds pre n (slash_take x fi' di' st)"
      and out: "pending_out fs ds pre fi di = x # pending_out fs ds pre fi' di'"
      and dec: "(length fs - fi') + (length ds - di') < (length fs - fi) + (length ds - di)"
      using slash_loop_round [OF F [unfolded fi_def] D [unfolded di_def] step(1) [unfolded fi_def di_def] room]
      unfolding fi_def [symmetric] di_def [symmetric] by blast
    have "emitted (slash_take x fi' di' st) (pending_out fs ds pre fi' di') room' (slash_loop fs ds pre n (slash_take x fi' di' st))"
      using less.hyps [of "slash_take x fi' di' st" room'] dec ge less.prems step(2) by simp
    from emitted_step [OF this] show ?thesis unfolding M out eq step(2) .
  qed
qed

lemma drop_max_partition:
  assumes "partitioned A xs" "partitioned B xs"
  shows "drop (max (partition_point A xs) (partition_point B xs)) xs = filter (\<lambda>x. \<not> A x \<and> \<not> B x) xs"
proof -
  have side: "drop (max (partition_point P xs) (partition_point Q xs)) xs =
      filter (\<lambda>x. \<not> P x \<and> \<not> Q x) xs"
    if P: "partitioned P xs" and Q: "partitioned Q xs" and le: "partition_point P xs \<le> partition_point Q xs"
    for P Q
  proof -
    have dP: "drop (partition_point P xs) xs = filter (\<lambda>x. \<not> P x) xs"
      and dQ: "drop (partition_point Q xs) xs = filter (\<lambda>x. \<not> Q x) xs"
      using P Q by (simp_all add: drop_partition_point dropWhile_filter_partitioned)
    have "set (drop (partition_point Q xs) xs) \<subseteq> set (drop (partition_point P xs) xs)"
      by (rule set_drop_subset_set_drop [OF le])
    then have "filter (\<lambda>x. \<not> Q x) xs = filter (\<lambda>x. \<not> P x \<and> \<not> Q x) xs"
      unfolding dP dQ by (auto intro!: filter_cong)
    with le dQ show ?thesis by (simp add: max_def)
  qed
  show ?thesis
  proof (cases "partition_point A xs \<le> partition_point B xs")
    case False
    then have "drop (max (partition_point B xs) (partition_point A xs)) xs = filter (\<lambda>x. \<not> B x \<and> \<not> A x) xs"
      by (intro side assms) simp
    then show ?thesis by (simp add: max.commute conj_commute)
  qed (intro side assms)
qed

lemma partitioned_bounds:
  assumes "strictly_sorted f xs"
  shows "partitioned (\<lambda>x. f x < b) xs" "partitioned (\<lambda>x. f x \<le> b) xs" "partitioned (\<lambda>x. \<not> b < f x) xs"
  using assms unfolding strictly_sorted_def
  by (auto intro!: partitioned_sorted [where R = "\<lambda>a b. f a < f b"] simp: not_less)

lemma prefix_not_less: "prefix pre x \<Longrightarrow> \<not> x < (pre :: string)"
  by (auto simp: prefix_def)

lemma start_cursor:
  assumes "strictly_sorted f xs"
  shows "filter (\<lambda>x. prefix pre (f x))
           (drop (case marker of
                    Some m \<Rightarrow> max (partition_point (\<lambda>x. f x < pre) xs) (partition_point (\<lambda>x. \<not> m < f x) xs)
                  | None \<Rightarrow> partition_point (\<lambda>x. f x < pre) xs) xs) =
         filter (\<lambda>x. prefix pre (f x) \<and> after_marker marker (f x)) xs"
  using partitioned_bounds [OF assms]
  by (cases marker)
     (auto simp: drop_max_partition drop_partition_point dropWhile_filter_partitioned after_marker_def
       dest: prefix_not_less intro!: filter_cong)

lemma slash_outputs_sorted: "sorted_streams fs ds \<Longrightarrow> strictly_sorted out_key (slash_outputs fs ds pre)"
  unfolding slash_outputs_def by (intro merge_out_sorted sorted_streams_filter)

lemma paginate_slash_window:
  assumes "sorted_streams fs ds"
  shows "paginate_slash fs ds pre marker n = page_of (resume_at marker (slash_outputs fs ds pre)) n"
proof (cases "n = 0")
  case True
  then show ?thesis by (simp add: paginate_slash_def)
next
  case False
  define fi di where
    "fi = (case marker of
             Some m \<Rightarrow> max (partition_point (\<lambda>f. key f < pre) fs) (partition_point (\<lambda>f. \<not> m < key f) fs)
           | None \<Rightarrow> partition_point (\<lambda>f. key f < pre) fs)"
    and "di = (case marker of
             Some m \<Rightarrow> max (partition_point (\<lambda>d. d @ ''/'' < pre) ds) (partition_point (\<lambda>d. \<not> m < d @ ''/'') ds)
           | None \<Rightarrow> partition_point (\<lambda>d. d @ ''/'' < pre) ds)"
  define st where "st = \<lparr>st_fi = fi, st_di = di, st_contents = [], st_prefixes = [],
                    st_last_key = None, st_truncated = False\<rparr>"
  define L where "L = resume_at marker (slash_outputs fs ds pre)"
  have "pending_out fs ds pre fi di =
      merge_out (filter (\<lambda>f. prefix pre (key f) \<and> after_marker marker (key f)) fs)
                (filter (\<lambda>d. prefix pre (d @ ''/'') \<and> after_marker marker (d @ ''/'')) ds)"
    using assms start_cursor [of key fs pre marker] start_cursor [of "\<lambda>d. d @ ''/''" ds pre marker]
    by (simp add: pending_out_def sorted_streams_def fi_def di_def)
  also have "\<dots> = L"
    using merge_out_filter [OF assms, of "\<lambda>k. prefix pre k \<and> after_marker marker k"]
      merge_out_filter [OF assms, of "prefix pre"]
    by (simp add: slash_outputs_def L_def conj_commute)
  finally have "emitted st L n (slash_loop fs ds pre n st)"
    using slash_loop_emits [OF assms, of st n n pre] by (simp add: st_def)
  moreover have "paginate_slash fs ds pre marker n =
      (let res = slash_loop fs ds pre n st in
       \<lparr>contents = st_contents res, common_prefixes = st_prefixes res, is_truncated = st_truncated res,
        next_token = (if st_truncated res then st_last_key res else None)\<rparr>)"
    using False by (simp add: paginate_slash_def order_simps not_less fi_def di_def st_def Let_def split: option.split)
  moreover have "out_key (last (take n L)) = out_key (L ! (n - 1)) \<and> take n L \<noteq> []" if "n < length L"
    using that False last_take [of n L] by simp
  ultimately show ?thesis
    unfolding L_def [symmetric] using False
    by (auto simp: emitted_def page_of_def st_def Let_def)
qed

interpretation merged: page_source
  "\<lambda>(fs, ds, pre). paginate_slash fs ds pre"
  "\<lambda>(fs, ds, pre). slash_outputs fs ds pre"
  "\<lambda>(fs, ds, pre). sorted_streams fs ds"
  by unfold_locales (auto simp: paginate_slash_window slash_outputs_sorted)

section \<open>Direct children\<close>

text \<open>The keys the S3 layer hands to \<^verbatim>\<open>paginate_slash\<close>: the direct children of a directory.\<close>

definition is_child :: "string \<Rightarrow> string \<Rightarrow> bool" where
  "is_child d k \<longleftrightarrow>
     (let b = (if d = [] then [] else d @ ''/'') in
      prefix b k \<and> drop (length b) k \<noteq> [] \<and> slash \<notin> set (drop (length b) k))"

lemma is_child_iff: "is_child d k \<longleftrightarrow> (\<exists>n. k = child_key d n \<and> n \<noteq> [] \<and> slash \<notin> set n)"
  by (auto simp: is_child_def child_key_def Let_def prefix_def)

lemma prefix_before_sep: "prefix zs (n @ c # r) \<Longrightarrow> c \<notin> set zs \<Longrightarrow> prefix zs n"
  by (auto simp: prefix_append prefix_Cons)

lemma below_child_matches_prefix:
  assumes "is_child (dir_part pre) k" "prefix pre (k @ slash # r)"
  shows "prefix pre k \<and> slash \<notin> set (drop (length pre) k)"
proof -
  from assms(1) obtain n where n: "k = child_key (dir_part pre) n" "n \<noteq> []" "slash \<notin> set n"
    by (auto simp: is_child_iff)
  show ?thesis
  proof (cases "rfind_char slash pre")
    case None
    then have notin: "slash \<notin> set pre" unfolding rfind_char_None .
    from None n have k: "k = n" by (simp add: dir_part_def child_key_def)
    with assms(2) have "prefix pre (n @ slash # r)" by simp
    from prefix_before_sep [OF this notin] have "prefix pre n" .
    moreover have "slash \<notin> set (drop (length pre) n)" using n(3) by (blast dest: in_set_dropD)
    ultimately show ?thesis unfolding k by blast
  next
    case (Some i)
    then obtain ys zs where pre: "pre = ys @ slash # zs" "slash \<notin> set zs" "i = length ys"
      using rfind_char_Some by blast
    with Some n(1) have n1: "k = child_key ys n" by (simp add: dir_part_def)
    show ?thesis
    proof (cases "ys = []")
      case True
      with n1 have "k = n" by (simp add: child_key_def)
      with assms(2) n pre(1) True show ?thesis by (cases n) simp_all
    next
      case False
      then have k: "k = ys @ slash # n" using n1 by (simp add: child_key_def)
      with assms(2) pre(1) have "prefix zs (n @ slash # r)" by simp
      then have "prefix zs n" using pre(2) by (rule prefix_before_sep)
      moreover have "slash \<notin> set (drop (length zs) n)" using n(3) by (blast dest: in_set_dropD)
      ultimately show ?thesis by (simp add: k pre(1))
    qed
  qed
qed

lemma child_matches_prefix:
  "is_child (dir_part pre) k \<Longrightarrow> prefix pre (k @ ''/'') \<Longrightarrow> prefix pre k \<and> slash \<notin> set (drop (length pre) k)"
  by (rule below_child_matches_prefix [where r = "[]"]) simp_all

lemma find_sub_char_first: "c \<notin> set xs \<Longrightarrow> find_sub [c] (xs @ c # ys) = Some (length xs)"
  by (induction xs) auto

text \<open>A file below a child directory is grouped into the prefix of that directory.\<close>

lemma file_output_below:
  assumes "is_child (dir_part pre) k" "key e = k @ slash # r"
  shows "file_output pre (Some ''/'') e = (if prefix pre (key e) then Some (Prefix (k @ ''/'')) else None)"
proof (cases "prefix pre (key e)")
  case True
  with below_child_matches_prefix [OF assms(1), of r] assms(2)
  obtain n where n: "k = pre @ n" "slash \<notin> set n" by (auto simp: prefix_def)
  then have "find_sub ''/'' (drop (length pre) (key e)) = Some (length n)"
    using assms(2) by (simp add: find_sub_char_first)
  with True n assms(2) show ?thesis by (simp add: file_output_def)
qed (simp add: file_output_def)

lemma child_not_dir_output:
  assumes "is_child d k"
  shows "k \<noteq> d' @ ''/''"
proof
  assume k: "k = d' @ ''/''"
  from assms obtain n where n: "k = child_key d n" "n \<noteq> []" "slash \<notin> set n"
    by (auto simp: is_child_iff)
  then have "last k = last n" by (simp add: child_key_def)
  with k have "last n = slash" by simp
  with n show False using last_in_set [of n] by simp
qed

definition children_listing :: "string \<Rightarrow> list_entry list \<Rightarrow> string list \<Rightarrow> bool" where
  "children_listing d fs ds \<longleftrightarrow>
     strictly_sorted key fs \<and> strictly_sorted (\<lambda>d. d @ ''/'') ds \<and>
     (\<forall>f \<in> set fs. is_child d (key f)) \<and> (\<forall>k \<in> set ds. is_child d k)"

lemma children_sorted_streams: "children_listing d fs ds \<Longrightarrow> sorted_streams fs ds"
  using child_not_dir_output by (auto simp: children_listing_def sorted_streams_def)

lemma child_file_output:
  "is_child (dir_part pre) (key f) \<Longrightarrow>
     file_output pre (Some ''/'') f = (if prefix pre (key f) then Some (Content f) else None)"
  using child_matches_prefix [of pre "key f"] by (auto simp: file_output_def prefix_prefix)

lemma child_dir_output:
  "is_child (dir_part pre) d \<Longrightarrow>
     dir_output pre (Some ''/'') d = (if prefix pre (d @ ''/'') then Some (Prefix (d @ ''/'')) else None)"
  using child_matches_prefix [of pre d] by (auto simp: dir_output_def dir_common_prefix_def prefix_prefix)

lemma children_outputs:
  assumes "children_listing (dir_part pre) fs ds"
  shows "slash_outputs fs ds pre = listing_outputs fs ds pre (Some ''/'')"
proof (rule strictly_sorted_unique [where f = out_key])
  show "strictly_sorted out_key (slash_outputs fs ds pre)"
    by (rule slash_outputs_sorted [OF children_sorted_streams [OF assms]])
  show "strictly_sorted out_key (listing_outputs fs ds pre (Some ''/''))"
    using assms by (intro listing_outputs_sorted) (simp add: children_listing_def strictly_sorted_iff)
  show "set (slash_outputs fs ds pre) = set (listing_outputs fs ds pre (Some ''/''))"
    using assms unfolding set_listing_outputs slash_outputs_def set_merge_out children_listing_def
    by (auto simp: set_map_filter child_file_output child_dir_output split: if_splits)
qed

section \<open>Continuation tokens\<close>

text \<open>
  \<^verbatim>\<open>String::from_utf8\<close> accepts the well-formed byte sequences of the Unicode standard
  (no overlong forms, no surrogates, nothing above \<^verbatim>\<open>U+10FFFF\<close>).
\<close>

definition byte_in :: "nat \<Rightarrow> nat \<Rightarrow> char \<Rightarrow> bool" where
  "byte_in lo hi c \<longleftrightarrow> lo \<le> of_char c \<and> (of_char c :: nat) \<le> hi"

fun valid_utf8 :: "string \<Rightarrow> bool" where
  "valid_utf8 [] = True"
| "valid_utf8 (a # r) =
     (if byte_in 0 127 a then valid_utf8 r
      else case r of
        [] \<Rightarrow> False
      | b # r1 \<Rightarrow>
          if byte_in 194 223 a then byte_in 128 191 b \<and> valid_utf8 r1
          else (case r1 of
            [] \<Rightarrow> False
          | c # r2 \<Rightarrow>
              if byte_in 224 239 a
              then (if byte_in 224 224 a then byte_in 160 191 b
                    else if byte_in 237 237 a then byte_in 128 159 b else byte_in 128 191 b) \<and>
                   byte_in 128 191 c \<and> valid_utf8 r2
              else (case r2 of
                [] \<Rightarrow> False
              | d # r3 \<Rightarrow>
                  byte_in 240 244 a \<and>
                  (if byte_in 240 240 a then byte_in 144 191 b
                   else if byte_in 244 244 a then byte_in 128 143 b else byte_in 128 191 b) \<and>
                  byte_in 128 191 c \<and> byte_in 128 191 d \<and> valid_utf8 r3)))"

definition from_utf8 :: "string \<Rightarrow> string option" where
  "from_utf8 bytes = (if valid_utf8 bytes then Some bytes else None)"

text \<open>The two \<^verbatim>\<open>base64\<close> engines are parameters.\<close>

definition encode_token :: "(string \<Rightarrow> string) \<Rightarrow> string \<Rightarrow> string" where
  "encode_token url_encode last_key = url_encode last_key"

definition decode_token ::
  "(string \<Rightarrow> string option) \<Rightarrow> (string \<Rightarrow> string option) \<Rightarrow> string \<Rightarrow> string option" where
  "decode_token url_decode std_decode token =
     (case (case url_decode token of Some bytes \<Rightarrow> Some bytes | None \<Rightarrow> std_decode token) of
        None \<Rightarrow> None
      | Some bytes \<Rightarrow> from_utf8 bytes)"

section \<open>Properties\<close>

text \<open>
  Claim C13: the general paginator returns a window of one sorted listing.  For files with distinct
  keys, \<open>paginate\<close> answers every prefix, delimiter, marker and page size with the first
  \<open>max_keys\<close> items, strictly after the marker, of the strictly sorted sequence of all Contents and
  CommonPrefixes; it reports truncation exactly when items are left over, with the key of the last
  item as the token.
\<close>

theorem paginate_correct:
  assumes "distinct (map key fs)"
  shows "paginate fs ds pre delimiter marker max_keys =
           page_of (resume_at marker (listing_outputs fs ds pre delimiter)) max_keys \<and>
         strictly_sorted out_key (listing_outputs fs ds pre delimiter)"
  by (simp add: paginate_window listing_outputs_sorted assms)

text \<open>
  Claim C9: the merging paginator is equivalent to the general one.  On the direct children of the
  prefix's directory, in the order a directory listing promises, the binary searches and the
  two-stream merge of \<open>paginate_slash\<close> give exactly the page of \<open>paginate\<close> with delimiter \<open>/\<close>, for
  every prefix, marker and page size.
\<close>

theorem paginate_slash_equiv:
  assumes "children_listing (dir_part pre) fs ds"
  shows "paginate_slash fs ds pre marker max_keys = paginate fs ds pre (Some ''/'') marker max_keys"
proof -
  have "distinct (map key fs)" using assms by (simp add: children_listing_def strictly_sorted_iff)
  then show ?thesis
    by (simp add: paginate_window paginate_slash_window children_sorted_streams [OF assms]
        children_outputs [OF assms])
qed

text \<open>
  Following continuation tokens of the general paginator is complete.  A client that asks
  for non-empty pages and resumes each time at the returned token receives every Content and every
  CommonPrefix after its starting marker, once and in order, and reaches a page that is not
  truncated after at most as many further requests as there are items.
\<close>

lemma paginate_walk_complete:
  assumes "distinct (map key fs)" "0 < n"
    and "length (resume_at marker (listing_outputs fs ds pre delimiter)) \<le> fuel"
  defines "pages \<equiv> walk_pages fuel (\<lambda>m. paginate fs ds pre delimiter m n) marker"
  shows "concat (map contents pages) =
           List.map_filter content_of (resume_at marker (listing_outputs fs ds pre delimiter)) \<and>
         concat (map common_prefixes pages) =
           List.map_filter prefix_of (resume_at marker (listing_outputs fs ds pre delimiter)) \<and>
         \<not> is_truncated (last pages)"
  using general.walk_complete [of "(fs, ds, pre, delimiter)" n marker fuel] assms by simp

text \<open>
  Following continuation tokens of the merging paginator is complete, for any two sorted
  streams whose output keys do not collide.
\<close>

lemma paginate_slash_walk_complete:
  assumes "sorted_streams fs ds" "0 < n"
    and "length (resume_at marker (slash_outputs fs ds pre)) \<le> fuel"
  defines "pages \<equiv> walk_pages fuel (\<lambda>m. paginate_slash fs ds pre m n) marker"
  shows "concat (map contents pages) =
           List.map_filter content_of (resume_at marker (slash_outputs fs ds pre)) \<and>
         concat (map common_prefixes pages) =
           List.map_filter prefix_of (resume_at marker (slash_outputs fs ds pre)) \<and>
         \<not> is_truncated (last pages)"
  using merged.walk_complete [of "(fs, ds, pre)" n marker fuel] assms by simp

text \<open>
  Claim C30: the allocation-free comparators compare the strings they stand for, the directory key
  with a slash appended, in byte order.
\<close>

theorem comparators_exact:
  "cmp_dir_output d k = cmp (d @ ''/'') k \<and>
   cmp_dir_keys d d' = cmp (d @ ''/'') (d' @ ''/'') \<and>
   cmp_file_dir k d = cmp k (d @ ''/'') \<and>
   dir_output_starts_with d p = prefix p (d @ ''/'')"
  by (simp add: order_simps)


section \<open>Instances\<close>

definition test_entry :: "string \<Rightarrow> list_entry" where
  "test_entry k = \<lparr>key = k, size = 10, modification_time = 0\<rparr>"

theorem paginate_correct_witness:
  "paginate [test_entry ''b'', test_entry ''a/1'', test_entry ''a/2''] [] [] (Some ''/'') None 1 =
     \<lparr>contents = [], common_prefixes = [''a/''], is_truncated = True, next_token = Some ''a/''\<rparr>"
proof -
  have "distinct (map key [test_entry ''b'', test_entry ''a/1'', test_entry ''a/2''])" by code_simp
  from paginate_correct [OF this, of "[]" "[]" "Some ''/''" None 1]
  have "paginate [test_entry ''b'', test_entry ''a/1'', test_entry ''a/2''] [] [] (Some ''/'') None 1 =
     page_of (resume_at None (listing_outputs [test_entry ''b'', test_entry ''a/1'', test_entry ''a/2''] [] [] (Some ''/''))) 1"
    by blast
  also have "\<dots> = \<lparr>contents = [], common_prefixes = [''a/''], is_truncated = True, next_token = Some ''a/''\<rparr>"
    by code_simp
  finally show ?thesis .
qed

theorem paginate_slash_equiv_witness:
  "paginate_slash [test_entry ''a/b.txt''] [''a/b'', ''a/c''] ''a/'' (Some ''a/b.txt'') 1 =
     paginate [test_entry ''a/b.txt''] [''a/b'', ''a/c''] ''a/'' (Some ''/'') (Some ''a/b.txt'') 1"
proof -
  have "children_listing (dir_part ''a/'') [test_entry ''a/b.txt''] [''a/b'', ''a/c'']" by code_simp
  then show ?thesis by (rule paginate_slash_equiv)
qed


end
