(* ===== verification/Hdfs_Errors.thy ===== *)
theory Hdfs_Errors
  imports Gateway_Prelude
begin

text \<open>
  \<^verbatim>\<open>src/s3/error.rs\<close>: how an upstream \<^verbatim>\<open>HdfsError\<close> becomes an S3 error.

  \<^verbatim>\<open>HdfsError\<close> is declared by the \<^verbatim>\<open>hdfs-native\<close> crate.  The model has the variants the
  gateway matches on by name; every variant it only reaches through a wildcard is
  \<open>Other_Error\<close>.  The error's \<^verbatim>\<open>to_string\<close> is a parameter.
\<close>

datatype hdfs_error =
    FileNotFound string
  | IsADirectoryError string
  | InvalidPath string
  | InvalidArgument string
  | UnsupportedFeature string
  | UnsupportedErasureCodingPolicy string
  | SASLError string
  | GSSAPIError string
  | NoSASLMechanism
  | RPCError string string
  | FatalRPCError string string
  | Other_Error string

text \<open>The S3 error codes the gateway answers with.\<close>

datatype s3_code =
    NoSuchKey | NoSuchBucket | InvalidArgumentCode | NotImplemented | AccessDenied
  | ServiceUnavailable | InternalError | PreconditionFailed | NotModified | InvalidRange
  | InvalidToken | SlowDown

text \<open>
  An \<^verbatim>\<open>S3Error\<close>: its code, the message shown to the client if one was set, the
  retained source, and the request id with the headers of the error response.
\<close>

record s3_error =
  code :: s3_code
  message :: "string option"
  source :: "hdfs_error option"
  request_id :: "string option"
  err_headers :: "(string \<times> string) list"

definition s3_error_new :: "s3_code \<Rightarrow> s3_error" where
  "s3_error_new c = \<lparr>code = c, message = None, source = None, request_id = None, err_headers = []\<rparr>"

definition with_message :: "s3_code \<Rightarrow> string \<Rightarrow> s3_error" where
  "with_message c m = (s3_error_new c)\<lparr>message := Some m\<rparr>"

definition is_access_denied :: "string \<Rightarrow> bool" where
  "is_access_denied exception \<longleftrightarrow>
     suffix ''AccessControlException'' exception
   \<or> suffix ''AuthorizationException'' exception
   \<or> suffix ''AccessDeniedException'' exception
   \<or> suffix ''PermissionDeniedException'' exception
   \<or> suffix ''PermissionDenied'' exception"

definition is_unavailable :: "string \<Rightarrow> bool" where
  "is_unavailable exception \<longleftrightarrow>
     suffix ''StandbyException'' exception \<or> suffix ''SafeModeException'' exception"

fun hdfs_error_code :: "hdfs_error \<Rightarrow> s3_code" where
  "hdfs_error_code (InvalidArgument _) = InvalidArgumentCode"
| "hdfs_error_code (UnsupportedFeature _) = NotImplemented"
| "hdfs_error_code (UnsupportedErasureCodingPolicy _) = NotImplemented"
| "hdfs_error_code (SASLError _) = AccessDenied"
| "hdfs_error_code (GSSAPIError _) = AccessDenied"
| "hdfs_error_code NoSASLMechanism = AccessDenied"
| "hdfs_error_code (RPCError exception _) =
     (if is_access_denied exception then AccessDenied
      else if is_unavailable exception then ServiceUnavailable else InternalError)"
| "hdfs_error_code (FatalRPCError exception _) =
     (if is_access_denied exception then AccessDenied
      else if is_unavailable exception then ServiceUnavailable else InternalError)"
| "hdfs_error_code _ = InternalError"

definition map_hdfs_error :: "(hdfs_error \<Rightarrow> string) \<Rightarrow> hdfs_error \<Rightarrow> bool \<Rightarrow> s3_error" where
  "map_hdfs_error to_string err expose =
     (case err of
        FileNotFound _ \<Rightarrow> s3_error_new NoSuchKey
      | IsADirectoryError _ \<Rightarrow> s3_error_new NoSuchKey
      | InvalidPath _ \<Rightarrow> s3_error_new NoSuchKey
      | _ \<Rightarrow>
          let c = hdfs_error_code err;
              e = (if expose then with_message c (to_string err) else s3_error_new c)
          in e\<lparr>source := Some err\<rparr>)"

text \<open>\<^verbatim>\<open>is_dir_denied\<close> of \<^verbatim>\<open>src/s3/sorted_listing.rs\<close>: the denials that belong to
  one directory and let a flat listing go on without it.\<close>

fun is_dir_denied :: "hdfs_error \<Rightarrow> bool" where
  "is_dir_denied (RPCError exception _) = is_access_denied exception"
| "is_dir_denied (FatalRPCError exception _) = is_access_denied exception"
| "is_dir_denied _ = False"

fun is_file_not_found :: "hdfs_error \<Rightarrow> bool" where
  "is_file_not_found (FileNotFound _) = True"
| "is_file_not_found _ = False"

section \<open>Properties\<close>

lemma suffix_clash: "\<not> suffix a b \<Longrightarrow> \<not> suffix b a \<Longrightarrow> suffix a x \<Longrightarrow> \<not> suffix b x"
  using suffix_same_cases by blast

lemma access_denied_not_unavailable: "is_access_denied x \<Longrightarrow> \<not> is_unavailable x"
  unfolding is_access_denied_def is_unavailable_def
  by (elim disjE; intro notI; elim disjE; drule (1) suffix_same_cases; simp add: suffix_Cons)

lemma rejected_iff:
  "(\<exists>pkg m. e = RPCError (pkg @ cls) m \<or> e = FatalRPCError (pkg @ cls) m) \<longleftrightarrow>
     (case e of RPCError x _ \<Rightarrow> suffix cls x | FatalRPCError x _ \<Rightarrow> suffix cls x | _ \<Rightarrow> False)"
  by (cases e) (auto simp: suffix_def)

lemma code_map_hdfs_error:
  "code (map_hdfs_error to_string e expose) =
     (case e of FileNotFound _ \<Rightarrow> NoSuchKey | IsADirectoryError _ \<Rightarrow> NoSuchKey | InvalidPath _ \<Rightarrow> NoSuchKey
      | _ \<Rightarrow> hdfs_error_code e)"
  by (simp add: map_hdfs_error_def s3_error_new_def with_message_def Let_def split: hdfs_error.split)

text \<open>
  Claim C24: the classes of upstream errors, by the names the documentation of \<^verbatim>\<open>map_hdfs_error\<close>
  lists.  Exactly a missing file, a directory and a malformed path become \<open>NoSuchKey\<close>; exactly a
  malformed argument becomes \<open>InvalidArgument\<close> and an unsupported feature \<open>NotImplemented\<close>;
  \<open>AccessDenied\<close> is answered to a failed authentication and to an RPC rejected with an exception whose
  class, in whatever package, is \<open>AccessControlException\<close>, \<open>AuthorizationException\<close>,
  \<open>AccessDeniedException\<close>, \<open>PermissionDeniedException\<close> or \<open>PermissionDenied\<close>, and to nothing
  else; \<open>ServiceUnavailable\<close> to an RPC rejected with \<open>StandbyException\<close> or
  \<open>SafeModeException\<close>; everything else is an \<open>InternalError\<close>.  The directories a flat listing
  skips as denied are exactly the RPC rejections among the \<open>AccessDenied\<close> ones.  The client sees
  upstream text only when \<open>expose\<close> is set, and the log gets the upstream error of every answer
  but \<open>NoSuchKey\<close>.
\<close>

theorem map_hdfs_error_classes:
  "let r = map_hdfs_error to_string e expose;
       rejected = (\<lambda>cls. \<exists>pkg m. e = RPCError (pkg @ cls) m \<or> e = FatalRPCError (pkg @ cls) m);
       missing = (\<exists>s. e = FileNotFound s \<or> e = IsADirectoryError s \<or> e = InvalidPath s);
       unsupported = (\<exists>s. e = UnsupportedFeature s \<or> e = UnsupportedErasureCodingPolicy s);
       unauthenticated = (e = NoSASLMechanism \<or> (\<exists>s. e = SASLError s \<or> e = GSSAPIError s));
       denied = (rejected ''AccessControlException'' \<or> rejected ''AuthorizationException'' \<or>
         rejected ''AccessDeniedException'' \<or> rejected ''PermissionDeniedException'' \<or>
         rejected ''PermissionDenied'');
       unavailable = (rejected ''StandbyException'' \<or> rejected ''SafeModeException'')
   in (code r = NoSuchKey \<longleftrightarrow> missing) \<and>
      (code r = InvalidArgumentCode \<longleftrightarrow> (\<exists>s. e = InvalidArgument s)) \<and>
      (code r = NotImplemented \<longleftrightarrow> unsupported) \<and>
      (code r = AccessDenied \<longleftrightarrow> unauthenticated \<or> denied) \<and>
      (code r = ServiceUnavailable \<longleftrightarrow> unavailable) \<and>
      code r \<in> {NoSuchKey, InvalidArgumentCode, NotImplemented, AccessDenied, ServiceUnavailable, InternalError} \<and>
      (is_dir_denied e \<longleftrightarrow> denied) \<and>
      (message r = (if expose \<and> code r \<noteq> NoSuchKey then Some (to_string e) else None)) \<and>
      (source r = (if code r = NoSuchKey then None else Some e))"
  using access_denied_not_unavailable
  unfolding Let_def code_map_hdfs_error rejected_iff
  by (cases e) (simp_all add: map_hdfs_error_def s3_error_new_def with_message_def Let_def
      is_access_denied_def is_unavailable_def)

end
