(* ===== verification/Sorted_Listing.thy ===== *)
theory Sorted_Listing
  imports Listing Hdfs_Errors
begin

text \<open>
  \<^verbatim>\<open>src/s3/sorted_listing.rs\<close>: the flat listing, a lazy k-way merge over per-directory
  listings in key order.

  A lister is a function that threads the state of everything outside the merge (the caches,
  the clock, the upstream cluster): \<open>'s \<Rightarrow> string \<Rightarrow> (hdfs_error + dir_listing) \<times> 's\<close>.  The
  merge loop descends as long as the lister keeps answering with new directories, so it is a
  \<open>partial_function (option)\<close>: \<open>None\<close> is a loop that does not return.  A
  \<^verbatim>\<open>BinaryHeap<Reverse<Cursor>>\<close> is a list from which the first least cursor is taken.
\<close>

section \<open>Directory listings from upstream statuses\<close>

text \<open>The fields of \<^verbatim>\<open>hdfs_native::FileStatus\<close> the gateway reads.\<close>

record file_status =
  fs_path :: string
  fs_length :: usize
  fs_isdir :: bool
  fs_mtime :: u64

definition status_step ::
  "path_mapper \<Rightarrow> file_status \<Rightarrow> list_entry list \<times> string list \<Rightarrow> list_entry list \<times> string list" where
  "status_step m status acc =
     (case acc of (fs, ds) \<Rightarrow>
      case hdfs_path_to_key m (fs_path status) of
        None \<Rightarrow> (fs, ds)
      | Some k \<Rightarrow>
          if k = [] then (fs, ds)
          else if fs_isdir status then (fs, ds @ [k])
          else (fs @ [\<lparr>key = k, size = fs_length status, modification_time = fs_mtime status\<rparr>], ds))"

definition listing_from_statuses :: "file_status list \<Rightarrow> path_mapper \<Rightarrow> dir_listing" where
  "listing_from_statuses statuses m =
     (case fold (status_step m) statuses ([], []) of (fs, ds) \<Rightarrow>
      \<lparr>files = sort_by (\<lambda>a b. cmp (key a) (key b)) fs, dirs = sort_by cmp_dir_keys ds\<rparr>)"

section \<open>Cursors\<close>

record cursor =
  c_listing :: dir_listing
  c_files :: bool
  c_idx :: nat

definition cursor_len :: "cursor \<Rightarrow> nat" where
  "cursor_len c = (if c_files c then length (files (c_listing c)) else length (dirs (c_listing c)))"

definition front :: "cursor \<Rightarrow> string" where
  "front c = (if c_files c then key (files (c_listing c) ! c_idx c) else dirs (c_listing c) ! c_idx c)"

definition advance :: "cursor \<Rightarrow> cursor \<times> bool" where
  "advance c = (let c' = c\<lparr>c_idx := c_idx c + 1\<rparr> in (c', c_idx c' < cursor_len c'))"

definition cursor_cmp :: "cursor \<Rightarrow> cursor \<Rightarrow> ordering" where
  "cursor_cmp a b =
     (case (c_files a, c_files b) of
        (True, True) \<Rightarrow> cmp (front a) (front b)
      | (False, False) \<Rightarrow> cmp_dir_keys (front a) (front b)
      | (True, False) \<Rightarrow> cmp_file_dir (front a) (front b)
      | (False, True) \<Rightarrow> reverse (cmp_file_dir (front b) (front a)))"

text \<open>\<^verbatim>\<open>BinaryHeap::pop\<close> on a heap of reversed cursors: take out a least one.\<close>

fun take_least :: "cursor \<Rightarrow> cursor list \<Rightarrow> cursor \<times> cursor list" where
  "take_least c [] = (c, [])"
| "take_least c (d # ds) =
     (if cursor_cmp d c = Less
      then (case take_least d ds of (m, rest) \<Rightarrow> (m, c # rest))
      else (case take_least c ds of (m, rest) \<Rightarrow> (m, d # rest)))"

fun heap_pop :: "cursor list \<Rightarrow> (cursor \<times> cursor list) option" where
  "heap_pop [] = None"
| "heap_pop (c # cs) = Some (take_least c cs)"

definition heap_push :: "cursor \<Rightarrow> cursor list \<Rightarrow> cursor list" where
  "heap_push c h = c # h"

section \<open>Markers\<close>

text \<open>Byte indexing is only reached in range.\<close>

definition dir_children_all_before :: "string \<Rightarrow> string \<Rightarrow> bool" where
  "dir_children_all_before dir_key after =
     (let common = min (length dir_key) (length after) in
      case cmp (take common dir_key) (take common after) of
        Less \<Rightarrow> True
      | Greater \<Rightarrow> False
      | Equal \<Rightarrow>
          if length dir_key = length after then False
          else if length dir_key < length after then after ! length dir_key > slash
          else False)"

definition dirs_start_after :: "string list \<Rightarrow> string \<Rightarrow> nat" where
  "dirs_start_after ds marker =
     (let start = partition_point (\<lambda>d. cmp_dir_output d marker \<noteq> Greater) ds in
      if start > 0 then
        let candidate = ds ! (start - 1) in
        if length marker > length candidate \<and> prefix candidate marker \<and>
           marker ! length candidate = slash
        then start - 1 else start
      else start)"

section \<open>The merge\<close>

record sorted_listing =
  sl_mapper :: path_mapper
  sl_prefix :: string
  sl_after :: "string option"
  sl_start :: string
  heap :: "cursor list"
  start_seeded :: bool
  exhausted :: bool

definition sorted_listing_new ::
  "string \<Rightarrow> string \<Rightarrow> string option \<Rightarrow> path_mapper \<Rightarrow> sorted_listing" where
  "sorted_listing_new start pre after m =
     \<lparr>sl_mapper = m, sl_prefix = pre, sl_after = after, sl_start = start, heap = [],
      start_seeded = False, exhausted = False\<rparr>"

definition push_listing :: "dir_listing \<Rightarrow> sorted_listing \<Rightarrow> sorted_listing" where
  "push_listing listing sl =
     (let (files_start, dirs_start) =
            (case sl_after sl of
               Some marker \<Rightarrow>
                 (partition_point (\<lambda>f. key f \<le> marker) (files listing),
                  dirs_start_after (dirs listing) marker)
             | None \<Rightarrow> (0, 0));
          h1 = (if files_start < length (files listing)
                then heap_push \<lparr>c_listing = listing, c_files = True, c_idx = files_start\<rparr> (heap sl)
                else heap sl);
          h2 = (if dirs_start < length (dirs listing)
                then heap_push \<lparr>c_listing = listing, c_files = False, c_idx = dirs_start\<rparr> h1
                else h1)
      in sl\<lparr>heap := h2\<rparr>)"

type_synonym 's lister = "'s \<Rightarrow> string \<Rightarrow> (hdfs_error + dir_listing) \<times> 's"
type_synonym 's pull = "(hdfs_error + list_entry option) \<times> sorted_listing \<times> 's"

text \<open>
  What one round of the loop of \<^verbatim>\<open>next_entry\<close> does: return, or go round again
  (\<^verbatim>\<open>continue\<close>) with a new state.
\<close>

definition keep_cursor :: "cursor \<Rightarrow> cursor list \<Rightarrow> cursor list" where
  "keep_cursor c rest = (case advance c of (c', alive) \<Rightarrow> if alive then heap_push c' rest else rest)"

definition merge_round :: "'s lister \<Rightarrow> sorted_listing \<Rightarrow> 's \<Rightarrow> 's pull + sorted_listing \<times> 's" where
  "merge_round list_dir sl s =
     (case heap_pop (heap sl) of
        None \<Rightarrow> Inl (Inr None, sl\<lparr>exhausted := True\<rparr>, s)
      | Some (c, rest) \<Rightarrow>
          let sl' = sl\<lparr>heap := keep_cursor c rest\<rparr> in
          if c_files c then
            let entry = files (c_listing c) ! c_idx c in
            if \<not> prefix (sl_prefix sl) (key entry) then Inr (sl', s)
            else if (case sl_after sl of Some after \<Rightarrow> key entry \<le> after | None \<Rightarrow> False) then Inr (sl', s)
            else Inl (Inr (Some entry), sl', s)
          else
            let k = dirs (c_listing c) ! c_idx c in
            if \<not> prefix (sl_prefix sl) k then Inr (sl', s)
            else if (case sl_after sl of Some after \<Rightarrow> dir_children_all_before k after | None \<Rightarrow> False)
              then Inr (sl', s)
            else case key_to_hdfs_path (sl_mapper sl) k of
              None \<Rightarrow> Inr (sl', s)
            | Some hdfs_path \<Rightarrow>
                (case list_dir s hdfs_path of
                   (Inr listing, s') \<Rightarrow> Inr (push_listing listing sl', s')
                 | (Inl e, s') \<Rightarrow>
                     if is_dir_denied e then Inr (sl', s')
                     else if is_file_not_found e then Inr (sl', s')
                     else Inl (Inl e, sl', s')))"

partial_function (option) merge_loop :: "'s lister \<Rightarrow> sorted_listing \<Rightarrow> 's \<Rightarrow> 's pull option" where
  "merge_loop list_dir sl s =
     (case merge_round list_dir sl s of
        Inl result \<Rightarrow> Some result
      | Inr (sl', s') \<Rightarrow> merge_loop list_dir sl' s')"

declare merge_loop.simps [code]

definition next_entry :: "'s lister \<Rightarrow> sorted_listing \<Rightarrow> 's \<Rightarrow> 's pull option" where
  "next_entry list_dir sl s =
     (if exhausted sl then Some (Inr None, sl, s)
      else if start_seeded sl then merge_loop list_dir sl s
      else
        let sl1 = sl\<lparr>start_seeded := True\<rparr> in
        case list_dir s (sl_start sl1) of
          (Inr listing, s') \<Rightarrow> merge_loop list_dir (push_listing listing sl1) s'
        | (Inl e, s') \<Rightarrow>
            if is_file_not_found e then Some (Inr None, sl1\<lparr>exhausted := True\<rparr>, s')
            else Some (Inl e, sl1, s'))"

text \<open>The \<^verbatim>\<open>while\<close> loop of \<^verbatim>\<open>collect_page\<close>, by the room left on the page, and the
  probe for one more entry.\<close>

fun collect_loop ::
  "'s lister \<Rightarrow> nat \<Rightarrow> list_entry list \<Rightarrow> sorted_listing \<Rightarrow> 's
     \<Rightarrow> ((hdfs_error + list_entry list \<times> bool) \<times> sorted_listing \<times> 's) option" where
  "collect_loop list_dir 0 page sl s =
     (case next_entry list_dir sl s of
        None \<Rightarrow> None
      | Some (Inl e, sl', s') \<Rightarrow> Some (Inl e, sl', s')
      | Some (Inr extra, sl', s') \<Rightarrow> Some (Inr (page, extra \<noteq> None), sl', s'))"
| "collect_loop list_dir (Suc room) page sl s =
     (case next_entry list_dir sl s of
        None \<Rightarrow> None
      | Some (Inl e, sl', s') \<Rightarrow> Some (Inl e, sl', s')
      | Some (Inr (Some entry), sl', s') \<Rightarrow> collect_loop list_dir room (page @ [entry]) sl' s'
      | Some (Inr None, sl', s') \<Rightarrow> Some (Inr (page, False), sl', s'))"

definition collect_page ::
  "'s lister \<Rightarrow> nat \<Rightarrow> sorted_listing \<Rightarrow> 's
     \<Rightarrow> ((hdfs_error + list_entry list \<times> bool) \<times> sorted_listing \<times> 's) option" where
  "collect_page list_dir max_keys sl s =
     (if max_keys = 0 then Some (Inr ([], False), sl, s)
      else collect_loop list_dir max_keys [] sl s)"

section \<open>Markers, declaratively\<close>

lemma dir_children_all_before_eq [order_simps]:
  "dir_children_all_before k a \<longleftrightarrow> k @ ''/'' < a \<and> \<not> prefix (k @ ''/'') a"
proof (cases "cmp (take (min (length k) (length a)) k) (take (min (length k) (length a)) a) = Equal")
  case False
  define r where "r = cmp (take (min (length k) (length a)) k) (take (min (length k) (length a)) a)"
  have "cmp (k @ ''/'') (a @ []) = r"
    unfolding r_def by (rule cmp_take_decides [OF False]) simp_all
  then have lt: "k @ ''/'' < a \<longleftrightarrow> r = Less" by (metis append_Nil2 cmp_iff(1))
  have np: "\<not> prefix (k @ ''/'') a"
  proof
    assume "prefix (k @ ''/'') a"
    then obtain z where "a = k @ ''/'' @ z" by (auto simp: prefix_def)
    with False show False by simp
  qed
  from False lt np show ?thesis
    unfolding dir_children_all_before_def Let_def r_def [symmetric] by (cases r) simp_all
next
  case True
  then have "take (min (length k) (length a)) k = take (min (length k) (length a)) a" by simp
  from take_min_eq_cases [OF this] consider t where "a = k @ t" | c t where "k = a @ c # t" by blast
  then show ?thesis
  proof cases
    case 1
    then show ?thesis by (cases t) (auto simp: dir_children_all_before_def Let_def)
  next
    case 2
    have "\<not> a @ c # t @ ''/'' < a" by simp
    with 2 show ?thesis by (simp add: dir_children_all_before_def Let_def)
  qed
qed

text \<open>Sibling directories: no output key is a prefix of another.\<close>

lemma siblings_independent:
  assumes "is_child d k" "is_child d k'" "prefix (k @ ''/'') (k' @ z)" "slash \<notin> set z \<or> z = ''/''"
  shows "k = k' \<and> z = ''/''"
proof -
  from assms(1,2) obtain n n' where n: "k = child_key d n" "slash \<notin> set n"
    "k' = child_key d n'" "slash \<notin> set n'"
    by (auto simp: is_child_iff)
  with assms(3) have p: "prefix (n @ [slash]) (n' @ z)" by (auto simp: child_key_def split: if_splits)
  then have "slash \<in> set (n' @ z)" by (auto simp: prefix_def) (metis Un_iff insert_iff list.set(2) set_append)
  with n(4) assms(4) have z: "z = [slash]" by auto
  from p obtain w where "n' @ slash # [] = n @ slash # w" by (auto simp: z prefix_def)
  with n(4) have "n' = n" by (subst (asm) append_Cons_eq_iff) simp_all
  with n z show ?thesis by simp
qed

lemma marker_candidate_iff:
  "length marker > length c \<and> prefix c marker \<and> marker ! length c = slash \<longleftrightarrow> prefix (c @ ''/'') marker"
proof (cases "prefix c marker")
  case True
  then obtain z where "marker = c @ z" by (auto simp: prefix_def)
  then show ?thesis by (cases z) auto
next
  case False
  then show ?thesis by (auto dest: append_prefixD)
qed

lemma sorted_siblings_nth:
  assumes "strictly_sorted (\<lambda>d. d @ ''/'') ds" "i < j" "j < length ds"
  shows "ds ! i @ ''/'' < ds ! j @ ''/''"
  using sorted_wrt_nth_less [OF assms(1) [unfolded strictly_sorted_def] assms(2,3)] by simp

text \<open>Every directory before the start index lies entirely before the marker.\<close>

lemma dirs_start_after_sound:
  assumes sorted: "strictly_sorted (\<lambda>d. d @ ''/'') ds" and child: "\<forall>k \<in> set ds. is_child d k"
    and k: "k \<in> set (take (dirs_start_after ds marker) ds)"
  shows "k @ ''/'' < marker \<and> \<not> prefix (k @ ''/'') marker"
proof -
  define start where "start = partition_point (\<lambda>d. cmp_dir_output d marker \<noteq> Greater) ds"
  have part: "partitioned (\<lambda>d. cmp_dir_output d marker \<noteq> Greater) ds"
    using partitioned_bounds(3) [OF sorted] by (simp add: order_simps)
  have take: "take start ds = takeWhile (\<lambda>d. cmp_dir_output d marker \<noteq> Greater) ds"
    unfolding start_def partition_point_takeWhile [OF part] by (rule takeWhile_eq_take [symmetric])
  have le: "start \<le> length ds" unfolding start_def by (rule partition_point_le [OF part])
  have before: "ds ! i @ ''/'' \<le> marker" if "i < start" for i
  proof -
    have "ds ! i \<in> set (take start ds)" using that le by (metis length_take min.absorb2 nth_mem nth_take)
    then show ?thesis unfolding take by (auto dest!: set_takeWhileD simp: order_simps not_less)
  qed
  have dsa: "dirs_start_after ds marker =
      (if 0 < start \<and> prefix (ds ! (start - 1) @ ''/'') marker then start - 1 else start)"
    unfolding dirs_start_after_def Let_def start_def [symmetric] marker_candidate_iff by simp
  from k obtain i where i: "i < dirs_start_after ds marker" "i < length ds" "k = ds ! i"
    by (auto simp: in_set_conv_nth)
  then have "i < start" unfolding dsa by (simp split: if_splits)
  have not_prefix: "\<not> prefix (k @ ''/'') marker"
  proof
    assume p: "prefix (k @ ''/'') marker"
    show False
    proof (cases "i = start - 1")
      case True
      with p i \<open>i < start\<close> show False unfolding dsa by simp
    next
      case False
      with \<open>i < start\<close> have "i < start - 1" "start - 1 < length ds" using le by auto
      from sorted_siblings_nth [OF sorted this] have "k @ ''/'' \<le> ds ! (start - 1) @ ''/''"
        by (simp add: i(3))
      moreover have "ds ! (start - 1) @ ''/'' \<le> marker" using before \<open>i < start\<close> by simp
      ultimately have "prefix (k @ ''/'') (ds ! (start - 1) @ ''/'')"
        using p by (rule prefix_interval)
      moreover have "ds ! (start - 1) \<in> set ds" "k \<in> set ds"
        using i \<open>start - 1 < length ds\<close> by simp_all
      ultimately have "k = ds ! (start - 1)" using child siblings_independent [of d k] by blast
      with sorted_siblings_nth [OF sorted \<open>i < start - 1\<close> \<open>start - 1 < length ds\<close>] i(3)
      show False by simp
    qed
  qed
  with before [OF \<open>i < start\<close>] i(3) show ?thesis by (auto simp: order_less_le)
qed

section \<open>What a listing leaves alone\<close>

text \<open>
  What a listing leaves of the state: a relation that every call of the lister respects is
  respected by a whole page, whatever the directories answer.
\<close>

locale lister_frame =
  fixes list_dir :: "'s lister" and frame :: "'s \<Rightarrow> 's \<Rightarrow> bool"
  assumes frame_refl: "frame s s"
    and frame_trans: "frame s t \<Longrightarrow> frame t u \<Longrightarrow> frame s u"
    and frame_call: "frame s (snd (list_dir s d))"
begin

lemma frame_answer: "list_dir s d = (r, s') \<Longrightarrow> frame s s'"
  using frame_call [of s d] by simp

lemma merge_round_frame:
  "merge_round list_dir sl s = Inl (r, sl', s') \<Longrightarrow> frame s s'"
  "merge_round list_dir sl s = Inr (sl', s') \<Longrightarrow> frame s s'"
  by (auto simp: merge_round_def Let_def frame_refl dest: frame_answer
      split: option.splits sum.splits prod.splits if_splits)

lemma merge_loop_frame: "merge_loop list_dir sl s = Some y \<Longrightarrow> frame s (snd (snd y))"
proof -
  assume "merge_loop list_dir sl s = Some y"
  then have "list_dir = list_dir \<longrightarrow> frame s (snd (snd y))"
  proof (rule merge_loop.raw_induct [where P = "\<lambda>ld sl s y. ld = list_dir \<longrightarrow> frame s (snd (snd y))", rotated])
    fix loop ld sl s y
    assume IH: "\<And>ld sl s y. loop ld sl s = Some y \<Longrightarrow> ld = list_dir \<longrightarrow> frame s (snd (snd y))"
      and body: "(case merge_round ld sl s of Inl result \<Rightarrow> Some result
        | Inr (sl', s') \<Rightarrow> loop ld sl' s') = Some y"
    show "ld = list_dir \<longrightarrow> frame s (snd (snd y))"
    proof
      assume ld: "ld = list_dir"
      show "frame s (snd (snd y))"
      proof (cases "merge_round ld sl s")
        case (Inl result)
        with body ld show ?thesis using merge_round_frame(1) [of sl s] by (cases result) auto
      next
        case (Inr p)
        then obtain sl' s' where p: "merge_round ld sl s = Inr (sl', s')" by (cases p) auto
        with body have "loop ld sl' s' = Some y" by simp
        with IH ld have "frame s' (snd (snd y))" by blast
        with p ld show ?thesis using merge_round_frame(2) frame_trans by blast
      qed
    qed
  qed
  then show ?thesis by simp
qed

lemma next_entry_frame: "next_entry list_dir sl s = Some (r, sl', s') \<Longrightarrow> frame s s'"
  using merge_loop_frame [where y = "(r, sl', s')"]
  by (auto simp: next_entry_def Let_def frame_refl dest: frame_answer intro: frame_trans
      split: sum.splits prod.splits if_splits)

lemma collect_loop_frame: "collect_loop list_dir n page sl s = Some (r, sl', s') \<Longrightarrow> frame s s'"
proof (induction n arbitrary: page sl s)
  case 0
  then show ?case by (auto dest: next_entry_frame split: option.splits sum.splits)
next
  case (Suc n)
  then show ?case
    by (auto dest: next_entry_frame intro: frame_trans split: option.splits sum.splits prod.splits)
qed

lemma collect_page_frame: "collect_page list_dir n sl s = Some (r, sl', s') \<Longrightarrow> frame s s'"
  by (auto simp: collect_page_def frame_refl dest: collect_loop_frame split: if_splits)

end

section \<open>What a flat listing is\<close>

text \<open>
  A finite directory tree.  A node has the directory's files and its subdirectories under their
  full keys; a directory that cannot be listed (vanished, or denied) is a leaf with its error.
\<close>

datatype dir_tree = Node "list_entry list" "(string \<times> dir_tree) list" | Unlistable hdfs_error

fun tree_files :: "dir_tree \<Rightarrow> list_entry list" where
  "tree_files (Node fs ds) = fs @ concat (map (\<lambda>x. tree_files (snd x)) ds)"
| "tree_files (Unlistable e) = []"

definition skippable :: "hdfs_error \<Rightarrow> bool" where
  "skippable e \<longleftrightarrow> is_dir_denied e \<or> is_file_not_found e"

text \<open>
  The listing answers describe the tree below directory key \<open>d\<close>: each directory answers with its
  direct children, in listing order, or with an error the merge may skip.
\<close>

fun tree_at :: "path_mapper \<Rightarrow> (string \<Rightarrow> hdfs_error + dir_listing) \<Rightarrow> string \<Rightarrow> dir_tree \<Rightarrow> bool" where
  "tree_at m answer d (Node fs ds) \<longleftrightarrow>
     answer (dir_path m d) = Inr \<lparr>files = fs, dirs = map fst ds\<rparr> \<and>
     children_listing d fs (map fst ds) \<and>
     (\<forall>x \<in> set ds. wf_key (fst x) \<and> tree_at m answer (fst x) (snd x))"
| "tree_at m answer d (Unlistable e) \<longleftrightarrow> answer (dir_path m d) = Inl e \<and> skippable e"

fun tree_weight :: "dir_tree \<Rightarrow> nat" where
  "tree_weight (Node fs ds) = length fs + sum_list (map (\<lambda>x. 1 + tree_weight (snd x)) ds)"
| "tree_weight (Unlistable e) = 0"

definition wanted :: "string \<Rightarrow> string option \<Rightarrow> list_entry \<Rightarrow> bool" where
  "wanted pre after e \<longleftrightarrow> prefix pre (key e) \<and> after_marker after (key e)"

definition flat_listing :: "dir_tree \<Rightarrow> string \<Rightarrow> string option \<Rightarrow> list_entry list" where
  "flat_listing t pre after = sort_key key (filter (wanted pre after) (tree_files t))"

lemma tree_at_unique: "tree_at m answer d t \<Longrightarrow> tree_at m answer d t' \<Longrightarrow> t = t'"
proof (induction t arbitrary: d t')
  case (Node fs ds)
  from Node.prems obtain ds' where t': "t' = Node fs ds'" "map fst ds = map fst ds'"
    "\<forall>x \<in> set ds'. tree_at m answer (fst x) (snd x)"
    by (cases t') auto
  have "ds = ds'"
  proof (rule nth_equalityI)
    show len: "length ds = length ds'" using t'(2) by (rule map_eq_imp_length_eq)
    fix i assume i: "i < length ds"
    have fst: "fst (ds ! i) = fst (ds' ! i)" using t'(2) i len by (metis nth_map)
    have "ds ! i \<in> set ds" "ds' ! i \<in> set ds'" using i len by simp_all
    then have "snd (ds ! i) = snd (ds' ! i)"
      using Node.IH [of "ds ! i" "snd (ds ! i)" "fst (ds ! i)" "snd (ds' ! i)"] Node.prems(1) t'(3) fst
      by (auto simp: snds.simps)
    with fst show "ds ! i = ds' ! i" by (rule prod_eqI)
  qed
  with t' show ?case by simp
next
  case (Unlistable e)
  then show ?case by (cases t') auto
qed

lemma wf_key_nonempty: "wf_key k \<Longrightarrow> k \<noteq> []"
  using wf_key_trim by blast

text \<open>Every key of the tree below \<open>d\<close> extends \<open>d\<close> and a slash.\<close>

lemma is_child_prefix: "is_child d k \<Longrightarrow> d \<noteq> [] \<Longrightarrow> prefix (d @ ''/'') k"
  by (auto simp: is_child_def Let_def)

lemma tree_files_below:
  "tree_at m answer d t \<Longrightarrow> d \<noteq> [] \<Longrightarrow> e \<in> set (tree_files t) \<Longrightarrow> prefix (d @ ''/'') (key e)"
proof (induction t arbitrary: d)
  case (Node fs ds)
  show ?case
  proof (cases "e \<in> set fs")
    case True
    with Node.prems have "is_child d (key e)" by (simp add: children_listing_def)
    then show ?thesis using Node.prems(2) by (rule is_child_prefix)
  next
    case False
    with Node.prems obtain x where x: "x \<in> set ds" "e \<in> set (tree_files (snd x))" by auto
    with Node.prems have k: "is_child d (fst x)" "wf_key (fst x)" "tree_at m answer (fst x) (snd x)"
      by (auto simp: children_listing_def)
    have "fst x \<noteq> []" by (rule wf_key_nonempty [OF k(2)])
    then have "prefix (fst x @ ''/'') (key e)"
      using Node.IH [of x "snd x" "fst x"] x k(3) by (auto simp: snds.simps)
    moreover have "prefix (d @ ''/'') (fst x)" using k(1) Node.prems(2) by (rule is_child_prefix)
    ultimately show ?thesis by (metis append_prefixD prefix_order.trans)
  qed
qed simp

lemma siblings_disjoint:
  assumes "is_child d k" "is_child d k'" "prefix (k @ ''/'') x" "prefix (k' @ ''/'') x"
  shows "k = k'"
  using prefix_same_cases [OF assms(3,4)] siblings_independent [OF assms(1,2), of "''/''"]
    siblings_independent [OF assms(2,1), of "''/''"] by blast

lemma subtrees_distinct:
  assumes "\<forall>x \<in> set ds. is_child d (fst x) \<and> (\<forall>e \<in> set (tree_files (snd x)). prefix (fst x @ ''/'') (key e))"
    and "distinct (map fst ds)" "\<forall>x \<in> set ds. distinct (map key (tree_files (snd x)))"
  shows "distinct (map key (concat (map (\<lambda>x. tree_files (snd x)) ds)))"
  using assms
proof (induction ds)
  case (Cons x ds)
  have "key e \<noteq> key e'" if e: "e \<in> set (tree_files (snd x))" and y: "y \<in> set ds" "e' \<in> set (tree_files (snd y))"
    for e y e'
  proof
    assume "key e = key e'"
    moreover have "is_child d (fst x)" "prefix (fst x @ ''/'') (key e)" using Cons.prems(1) e by auto
    moreover have "is_child d (fst y)" "prefix (fst y @ ''/'') (key e')" using Cons.prems(1) y by auto
    ultimately have "fst x = fst y" using siblings_disjoint by metis
    with Cons.prems(2) y(1) show False by auto
  qed
  with Cons show ?case by (auto simp: image_iff)
qed simp

lemma tree_files_distinct: "tree_at m answer d t \<Longrightarrow> distinct (map key (tree_files t))"
proof (induction t arbitrary: d)
  case (Node fs ds)
  have sub: "is_child d (fst x) \<and> (\<forall>e \<in> set (tree_files (snd x)). prefix (fst x @ ''/'') (key e))"
    if "x \<in> set ds" for x
    using that Node.prems tree_files_below wf_key_nonempty by (auto simp: children_listing_def)
  have "distinct (map key (tree_files (snd x)))" if "x \<in> set ds" for x
    using that Node.prems Node.IH [of x "snd x" "fst x"] by (auto simp: snds.simps)
  moreover have "distinct (map fst ds)"
    using Node.prems by (auto simp: children_listing_def strictly_sorted_iff distinct_map inj_on_def)
  ultimately have "distinct (map key (concat (map (\<lambda>x. tree_files (snd x)) ds)))"
    using sub by (intro subtrees_distinct) auto
  moreover have "distinct (map key fs)"
    using Node.prems by (simp add: children_listing_def strictly_sorted_iff)
  moreover have "key e \<noteq> key e'"
    if "e \<in> set fs" "x \<in> set ds" "e' \<in> set (tree_files (snd x))" for e x e'
  proof
    assume eq: "key e = key e'"
    have "is_child d (key e)" using Node.prems that(1) by (simp add: children_listing_def)
    moreover have "is_child d (fst x)" "prefix (fst x @ ''/'') (key e @ [])" using sub that(2,3) eq by auto
    ultimately show False using siblings_independent [of d "fst x" "key e" "[]"] by simp
  qed
  ultimately show ?case by (auto simp: image_iff)
qed simp

section \<open>The frontier of the merge\<close>

text \<open>
  What a heap of cursors still holds: files, and directories not yet opened.  \<open>fkey\<close> is the output
  key the cursors are ordered by.
\<close>

datatype fitem = FFile list_entry | FDir string

fun fkey :: "fitem \<Rightarrow> string" where
  "fkey (FFile e) = key e"
| "fkey (FDir k) = k @ ''/''"

definition cursor_items :: "cursor \<Rightarrow> fitem list" where
  "cursor_items c =
     (if c_files c then map FFile (drop (c_idx c) (files (c_listing c)))
      else map FDir (drop (c_idx c) (dirs (c_listing c))))"

definition frontier :: "cursor list \<Rightarrow> fitem multiset" where
  "frontier h = (\<Sum>c \<in># mset h. mset (cursor_items c))"

definition cursor_ok :: "cursor \<Rightarrow> bool" where
  "cursor_ok c \<longleftrightarrow> c_idx c < cursor_len c \<and> strictly_sorted fkey (cursor_items c)"

definition first_item :: "cursor \<Rightarrow> fitem" where
  "first_item c =
     (if c_files c then FFile (files (c_listing c) ! c_idx c) else FDir (dirs (c_listing c) ! c_idx c))"

lemma frontier_simps [simp]:
  "frontier [] = {#}"
  "frontier (c # h) = mset (cursor_items c) + frontier h"
  by (simp_all add: frontier_def)

lemma set_frontier: "x \<in># frontier h \<longleftrightarrow> (\<exists>c \<in> set h. x \<in> set (cursor_items c))"
  by (induction h) auto

lemma cursor_items_unfold:
  assumes "c_idx c < cursor_len c"
  shows "cursor_items c = first_item c # cursor_items (fst (advance c))"
  using assms
  by (auto simp: cursor_items_def first_item_def advance_def cursor_len_def Let_def Cons_nth_drop_Suc [symmetric]
      split: if_splits)

lemma cursor_cmp_first: "cursor_cmp a b = cmp (fkey (first_item a)) (fkey (first_item b))"
  by (auto simp: cursor_cmp_def front_def first_item_def order_simps split: bool.split)

lemma take_least_spec:
  assumes "take_least c h = (m, rest)"
  shows "mset (c # h) = add_mset m (mset rest) \<and> (\<forall>d \<in> set rest. fkey (first_item m) \<le> fkey (first_item d))"
  using assms
proof (induction c h arbitrary: m rest rule: take_least.induct)
  case (2 c d ds)
  have least: "fkey (first_item m) \<le> fkey (first_item x)"
    if "mset (x # ds) = add_mset m (mset r)" "\<forall>d \<in> set r. fkey (first_item m) \<le> fkey (first_item d)" for x r
  proof -
    have "x \<in># add_mset m (mset r)" unfolding that(1) [symmetric] by simp
    with that(2) show ?thesis by auto
  qed
  show ?case
  proof (cases "cursor_cmp d c = Less")
    case True
    then obtain r where r: "take_least d ds = (m, r)" "rest = c # r" using 2(3) by (auto split: prod.splits)
    note IH = 2(1) [OF True r(1)]
    with least have "fkey (first_item m) \<le> fkey (first_item d)" by blast
    moreover have "fkey (first_item d) < fkey (first_item c)" using True by (simp add: cursor_cmp_first)
    ultimately have "fkey (first_item m) \<le> fkey (first_item c)" by simp
    with IH r(2) show ?thesis by auto
  next
    case False
    then obtain r where r: "take_least c ds = (m, r)" "rest = d # r" using 2(3) by (auto split: prod.splits)
    note IH = 2(2) [OF False r(1)]
    with least have "fkey (first_item m) \<le> fkey (first_item c)" by blast
    moreover have "fkey (first_item c) \<le> fkey (first_item d)" using False by (simp add: cursor_cmp_first)
    ultimately have "fkey (first_item m) \<le> fkey (first_item d)" by simp
    with IH r(2) show ?thesis by (auto simp: add_mset_commute)
  qed
qed simp

lemma heap_pop_spec:
  assumes ok: "\<forall>c \<in> set h. cursor_ok c" and pop: "heap_pop h = Some (c, rest)"
  shows "frontier h = add_mset (first_item c) (frontier (keep_cursor c rest))"
    and "\<forall>c' \<in> set (keep_cursor c rest). cursor_ok c'"
    and "\<forall>y \<in># frontier (keep_cursor c rest). fkey (first_item c) \<le> fkey y"
proof -
  from pop obtain c0 h0 where h: "h = c0 # h0" "take_least c0 h0 = (c, rest)" by (cases h) auto
  note spec = take_least_spec [OF h(2)]
  have fr: "frontier h = mset (cursor_items c) + frontier rest"
    using spec unfolding frontier_def h(1) by simp
  have set: "set h = insert c (set rest)"
    using spec unfolding h(1) by (metis set_mset_add_mset_insert set_mset_mset)
  with ok have okc: "cursor_ok c" and okr: "\<forall>c' \<in> set rest. cursor_ok c'" by auto
  define c1 where "c1 = fst (advance c)"
  have items: "cursor_items c = first_item c # cursor_items c1"
    unfolding c1_def using okc by (intro cursor_items_unfold) (simp add: cursor_ok_def)
  have keep: "keep_cursor c rest = (if c_idx c1 < cursor_len c1 then c1 # rest else rest)"
    by (simp add: keep_cursor_def advance_def c1_def heap_push_def Let_def)
  have empty: "cursor_items c1 = []" if "\<not> c_idx c1 < cursor_len c1"
    using that by (auto simp: cursor_items_def cursor_len_def split: if_splits)
  show "frontier h = add_mset (first_item c) (frontier (keep_cursor c rest))"
    using empty by (simp add: fr items keep)
  have sorted1: "strictly_sorted fkey (first_item c # cursor_items c1)"
    using okc items by (simp add: cursor_ok_def)
  show "\<forall>c' \<in> set (keep_cursor c rest). cursor_ok c'"
    using okr sorted1 by (simp add: keep cursor_ok_def)
  have later: "fkey (first_item c) \<le> fkey y" if "c' \<in> set rest" "y \<in> set (cursor_items c')" for c' y
  proof -
    from okr that(1) have ok': "cursor_ok c'" by blast
    then have "cursor_items c' = first_item c' # cursor_items (fst (advance c'))"
      by (intro cursor_items_unfold) (simp add: cursor_ok_def)
    with ok' that(2) have "fkey (first_item c') \<le> fkey y" by (auto simp: cursor_ok_def)
    moreover have "fkey (first_item c) \<le> fkey (first_item c')" using spec that(1) by blast
    ultimately show ?thesis by simp
  qed
  then show "\<forall>y \<in># frontier (keep_cursor c rest). fkey (first_item c) \<le> fkey y"
    using sorted1 by (auto simp: keep set_frontier)
qed

text \<open>The items of a whole listing, and those a marker has already passed.\<close>

definition listing_items :: "dir_listing \<Rightarrow> fitem list" where
  "listing_items l = map FFile (files l) @ map FDir (dirs l)"

fun passed :: "string option \<Rightarrow> fitem \<Rightarrow> bool" where
  "passed None x \<longleftrightarrow> False"
| "passed (Some a) (FFile e) \<longleftrightarrow> key e \<le> a"
| "passed (Some a) (FDir k) \<longleftrightarrow> k @ ''/'' < a \<and> \<not> prefix (k @ ''/'') a"

lemma take_partition_point:
  assumes "partitioned P xs" "x \<in> set (take (partition_point P xs) xs)"
  shows "P x"
  using assms by (metis partition_point_takeWhile set_takeWhileD takeWhile_eq_take)

lemma mset_drop_subseteq: "mset (drop n xs) \<subseteq># mset xs"
  by (metis append_take_drop_id mset_append mset_subset_eq_add_right)

lemma push_listing_fields [simp]:
  "sl_mapper (push_listing l sl) = sl_mapper sl"
  "sl_prefix (push_listing l sl) = sl_prefix sl"
  "sl_after (push_listing l sl) = sl_after sl"
  "start_seeded (push_listing l sl) = start_seeded sl"
  "exhausted (push_listing l sl) = exhausted sl"
  by (simp_all add: push_listing_def Let_def split: option.split prod.split)

text \<open>Where the two cursors of a pushed listing start; what lies before them cannot be emitted any more.\<close>

abbreviation files_start :: "string option \<Rightarrow> dir_listing \<Rightarrow> nat" where
  "files_start after l \<equiv> (case after of Some a \<Rightarrow> partition_point (\<lambda>f. key f \<le> a) (files l) | None \<Rightarrow> 0)"

abbreviation dirs_start :: "string option \<Rightarrow> dir_listing \<Rightarrow> nat" where
  "dirs_start after l \<equiv> (case after of Some a \<Rightarrow> dirs_start_after (dirs l) a | None \<Rightarrow> 0)"

lemma before_cursors_passed:
  assumes "children_listing d (files l) (dirs l)"
  shows "e \<in> set (take (files_start after l) (files l)) \<Longrightarrow> passed after (FFile e)"
    and "k \<in> set (take (dirs_start after l) (dirs l)) \<Longrightarrow> passed after (FDir k)"
proof -
  have sf: "strictly_sorted key (files l)" and sd: "strictly_sorted (\<lambda>d. d @ ''/'') (dirs l)"
    and child: "\<forall>k \<in> set (dirs l). is_child d k"
    using assms by (simp_all add: children_listing_def)
  show "passed after (FFile e)" if e: "e \<in> set (take (files_start after l) (files l))"
  proof (cases after)
    case (Some a)
    with e have "key e \<le> a" by (intro take_partition_point [OF partitioned_bounds(2) [OF sf]]) simp
    with Some show ?thesis by simp
  qed (use e in simp)
  show "passed after (FDir k)" if k: "k \<in> set (take (dirs_start after l) (dirs l))"
  proof (cases after)
    case (Some a)
    with k have "k @ ''/'' < a \<and> \<not> prefix (k @ ''/'') a" by (intro dirs_start_after_sound [OF sd child]) simp
    with Some show ?thesis by simp
  qed (use k in simp)
qed

lemma in_take: "y \<in> set xs \<Longrightarrow> y \<notin> set (drop n xs) \<Longrightarrow> y \<in> set (take n xs)"
  by (metis Un_iff append_take_drop_id set_append)

lemma push_listing_spec:
  assumes l: "children_listing d (files l) (dirs l)" and ok: "\<forall>c \<in> set (heap sl). cursor_ok c"
  shows "\<exists>N. frontier (heap (push_listing l sl)) = N + frontier (heap sl) \<and>
             N \<subseteq># mset (listing_items l) \<and>
             (\<forall>x \<in> set (listing_items l). x \<notin># N \<longrightarrow> passed (sl_after sl) x) \<and>
             (\<forall>c \<in> set (heap (push_listing l sl)). cursor_ok c)"
proof -
  define i j where "i = files_start (sl_after sl) l" and "j = dirs_start (sl_after sl) l"
  define cf cd where "cf = \<lparr>c_listing = l, c_files = True, c_idx = i\<rparr>"
    and "cd = \<lparr>c_listing = l, c_files = False, c_idx = j\<rparr>"
  have heap: "heap (push_listing l sl) =
      (if j < length (dirs l) then [cd] else []) @ (if i < length (files l) then [cf] else []) @ heap sl"
    by (simp add: push_listing_def heap_push_def Let_def i_def j_def cf_def cd_def split: option.split)
  define N where "N = mset (cursor_items cf) + mset (cursor_items cd)"
  have fr: "frontier (heap (push_listing l sl)) = N + frontier (heap sl)"
    unfolding heap N_def by (auto simp: cf_def cd_def cursor_items_def)
  have sub: "N \<subseteq># mset (listing_items l)"
    unfolding N_def listing_items_def cf_def cd_def cursor_items_def
    by (simp, intro subset_mset.add_mono image_mset_subseteq_mono mset_drop_subseteq)
  note passed = before_cursors_passed [OF l, of _ "sl_after sl", folded i_def j_def]
  have "passed (sl_after sl) x" if x: "x \<in> set (listing_items l)" "x \<notin># N" for x
  proof (cases x)
    case (FFile e)
    with x have "e \<in> set (files l)" "e \<notin> set (drop i (files l))"
      by (auto simp: listing_items_def N_def cf_def cursor_items_def)
    then show ?thesis unfolding FFile by (intro passed(1) in_take)
  next
    case (FDir k)
    with x have "k \<in> set (dirs l)" "k \<notin> set (drop j (dirs l))"
      by (auto simp: listing_items_def N_def cd_def cursor_items_def)
    then show ?thesis unfolding FDir by (intro passed(2) in_take)
  qed
  moreover have "i < length (files l) \<Longrightarrow> cursor_ok cf" "j < length (dirs l) \<Longrightarrow> cursor_ok cd"
    using l by (simp_all add: children_listing_def cursor_ok_def cf_def cd_def cursor_len_def cursor_items_def
        strictly_sorted_map comp_def strictly_sorted_drop)
  ultimately show ?thesis using fr sub ok by (auto simp: heap)
qed

section \<open>The frontier invariant\<close>

text \<open>
  No item of the frontier shadows another: files have different keys, and nothing else in the
  frontier lies below a directory that has not been opened.
\<close>

fun blocks :: "fitem \<Rightarrow> fitem \<Rightarrow> bool" where
  "blocks (FFile e) y \<longleftrightarrow> fkey y = key e"
| "blocks (FDir k) y \<longleftrightarrow> prefix (k @ ''/'') (fkey y)"

definition reachable_dir ::
  "path_mapper \<Rightarrow> (string \<Rightarrow> hdfs_error + dir_listing) \<Rightarrow> string \<Rightarrow> string \<Rightarrow> bool" where
  "reachable_dir m answer pre k \<longleftrightarrow>
     wf_key k \<and> (\<exists>t. tree_at m answer k t) \<and> (\<forall>q. prefix pre (k @ ''/'' @ q) \<longrightarrow> prefix pre k)"

definition frontier_ok ::
  "path_mapper \<Rightarrow> (string \<Rightarrow> hdfs_error + dir_listing) \<Rightarrow> string \<Rightarrow> fitem multiset \<Rightarrow> bool" where
  "frontier_ok m answer pre F \<longleftrightarrow>
     (\<forall>x. count F x \<le> 1) \<and>
     (\<forall>x \<in># F. \<forall>y \<in># F. x \<noteq> y \<longrightarrow> \<not> blocks x y) \<and>
     (\<forall>k. FDir k \<in># F \<longrightarrow> reachable_dir m answer pre k)"

definition fentries :: "path_mapper \<Rightarrow> (string \<Rightarrow> hdfs_error + dir_listing) \<Rightarrow> fitem \<Rightarrow> list_entry set" where
  "fentries m answer x =
     (case x of FFile e \<Rightarrow> {e} | FDir k \<Rightarrow> {e. \<exists>t. tree_at m answer k t \<and> e \<in> set (tree_files t)})"

definition to_emit ::
  "path_mapper \<Rightarrow> (string \<Rightarrow> hdfs_error + dir_listing) \<Rightarrow> string \<Rightarrow> string option \<Rightarrow> fitem multiset
     \<Rightarrow> list_entry set" where
  "to_emit m answer pre after F = {e. \<exists>x \<in># F. e \<in> fentries m answer x \<and> wanted pre after e}"

lemma fentries_tree: "tree_at m answer k t \<Longrightarrow> fentries m answer (FDir k) = set (tree_files t)"
  unfolding fentries_def fitem.case using tree_at_unique by blast

lemma to_emit_add:
  "to_emit m answer pre after (A + B) = to_emit m answer pre after A \<union> to_emit m answer pre after B"
  "to_emit m answer pre after (add_mset x B) =
     {e \<in> fentries m answer x. wanted pre after e} \<union> to_emit m answer pre after B"
  "to_emit m answer pre after {#} = {}"
  by (auto simp: to_emit_def)

lemma frontier_ok_subset: "frontier_ok m answer pre F \<Longrightarrow> G \<subseteq># F \<Longrightarrow> frontier_ok m answer pre G"
  unfolding frontier_ok_def by (meson le_trans mset_subset_eqD subseteq_mset_def)

lemma fentries_ge:
  assumes "frontier_ok m answer pre F" "y \<in># F" "e \<in> fentries m answer y"
  shows "fkey y \<le> key e"
proof (cases y)
  case (FDir k)
  with assms have "wf_key k" by (auto simp: frontier_ok_def reachable_dir_def)
  then have "k \<noteq> []" by (rule wf_key_nonempty)
  with FDir assms(3) have "prefix (k @ ''/'') (key e)" by (auto simp: fentries_def dest: tree_files_below)
  with FDir show ?thesis by (simp add: prefix_le)
qed (use assms in \<open>simp add: fentries_def\<close>)

text \<open>The least item is strictly below everything else, and below everything still to come.\<close>

lemma least_item:
  assumes ok: "frontier_ok m answer pre (add_mset x F)" and le: "\<forall>y \<in># F. fkey x \<le> fkey y"
  shows "\<forall>y \<in># F. x \<noteq> y \<and> fkey x < fkey y \<and> \<not> blocks x y"
    and "\<forall>y \<in># F. \<forall>e \<in> fentries m answer y. fkey x < key e"
proof -
  have one: "count (add_mset x F) z \<le> 1" for z using ok unfolding frontier_ok_def by blast
  have fresh: "x \<notin># F" using one [of x] by (simp add: not_in_iff)
  show *: "\<forall>y \<in># F. x \<noteq> y \<and> fkey x < fkey y \<and> \<not> blocks x y"
  proof
    fix y assume y: "y \<in># F"
    with fresh have "x \<noteq> y" by auto
    moreover from this y ok have nb: "\<not> blocks x y" by (simp add: frontier_ok_def)
    moreover have "fkey x \<noteq> fkey y"
    proof
      assume "fkey x = fkey y"
      with nb show False by (cases x) auto
    qed
    ultimately show "x \<noteq> y \<and> fkey x < fkey y \<and> \<not> blocks x y" using le y by (auto simp: order_less_le)
  qed
  have "frontier_ok m answer pre F" by (rule frontier_ok_subset [OF ok]) simp
  with * fentries_ge show "\<forall>y \<in># F. \<forall>e \<in> fentries m answer y. fkey x < key e"
    by (meson less_le_trans)
qed

lemma frontier_ok_union:
  assumes A: "frontier_ok m answer pre A" and B: "frontier_ok m answer pre B"
    and cross: "\<And>x y. x \<in># A \<Longrightarrow> y \<in># B \<Longrightarrow> x \<noteq> y \<and> \<not> blocks x y \<and> \<not> blocks y x"
  shows "frontier_ok m answer pre (A + B)"
proof -
  have "count (A + B) x \<le> 1" for x
  proof (cases "x \<in># A")
    case True
    with cross have "x \<notin># B" by blast
    with A show ?thesis by (simp add: frontier_ok_def not_in_iff)
  next
    case False
    with B show ?thesis by (simp add: frontier_ok_def not_in_iff)
  qed
  with A B cross show ?thesis unfolding frontier_ok_def by (metis union_iff)
qed

text \<open>Two children of a directory do not stand in each other's way.\<close>

lemma children_independent:
  assumes l: "children_listing d (files l) (dirs l)"
    and xy: "x \<in> set (listing_items l)" "y \<in> set (listing_items l)" "x \<noteq> y"
  shows "\<not> blocks x y"
proof
  assume b: "blocks x y"
  have f: "distinct (map key (files l))" "\<forall>e \<in> set (files l). is_child d (key e)" and g: "\<forall>k \<in> set (dirs l). is_child d k"
    using l by (auto simp: children_listing_def strictly_sorted_iff distinct_map)
  have items: "set (listing_items l) = FFile ` set (files l) \<union> FDir ` set (dirs l)"
    by (auto simp: listing_items_def)
  consider (ff) e e' where "x = FFile e" "y = FFile e'" "e \<in> set (files l)" "e' \<in> set (files l)"
    | (fd) e k where "x = FFile e" "y = FDir k" "e \<in> set (files l)"
    | (df) k e where "x = FDir k" "y = FFile e" "k \<in> set (dirs l)" "e \<in> set (files l)"
    | (dd) k k' where "x = FDir k" "y = FDir k'" "k \<in> set (dirs l)" "k' \<in> set (dirs l)"
    using xy(1,2) unfolding items by blast
  then show False
  proof cases
    case ff
    with b f(1) xy(3) show False by (auto simp: distinct_map inj_on_def)
  next
    case fd
    with b have "key e = k @ ''/''" by simp
    with f(2) fd(3) child_not_dir_output show False by blast
  next
    case df
    with b f(2) g siblings_independent [of d k "key e" "[]"] show False by simp
  next
    case dd
    with b g xy(3) siblings_independent [of d k k' "''/''"] show False by simp
  qed
qed

lemma children_frontier_ok:
  assumes l: "children_listing d (files l) (dirs l)" and r: "\<forall>k \<in> set (dirs l). reachable_dir m answer pre k"
  shows "frontier_ok m answer pre (mset (listing_items l))"
proof -
  have "distinct (map key (files l))" "distinct (dirs l)"
    using l by (auto simp: children_listing_def strictly_sorted_iff distinct_map)
  then have "distinct (listing_items l)"
    by (auto simp: listing_items_def distinct_map inj_on_def)
  then have "count (mset (listing_items l)) x \<le> 1" for x
    by (simp add: distinct_count_atmost_1)
  moreover have "reachable_dir m answer pre k" if "FDir k \<in> set (listing_items l)" for k
    using that r by (auto simp: listing_items_def)
  ultimately show ?thesis using children_independent [OF l] by (simp add: frontier_ok_def)
qed

lemma descend_cross:
  assumes ok: "frontier_ok m answer pre (add_mset (FDir k) F)"
    and x: "prefix (k @ ''/'') (fkey x)" and y: "y \<in># F"
  shows "x \<noteq> y \<and> \<not> blocks x y \<and> \<not> blocks y x"
proof -
  have one: "count (add_mset (FDir k) F) (FDir k) \<le> 1" using ok unfolding frontier_ok_def by blast
  then have "FDir k \<notin># F" by (simp add: not_in_iff)
  with y have "FDir k \<noteq> y" by blast
  with ok y have nb: "\<not> prefix (k @ ''/'') (fkey y)" "\<not> blocks y (FDir k)"
    unfolding frontier_ok_def by (metis add_mset_add_single blocks.simps(2) multi_member_last union_iff)+
  have "\<not> blocks x y"
  proof (cases x)
    case (FDir k')
    with x have "prefix (k @ ''/'') (k' @ ''/'')" by simp
    from prefix_order.trans [OF this, of "fkey y"] nb(1) FDir show ?thesis by auto
  qed (use x nb(1) in auto)
  moreover have "\<not> blocks y x"
  proof (cases y)
    case (FDir j)
    with x nb prefix_same_cases [of "j @ ''/''" "fkey x" "k @ ''/''"] show ?thesis by auto
  qed (use x nb(1) in auto)
  ultimately show ?thesis using x nb(1) by auto
qed

lemma tree_children:
  assumes "tree_at m answer d (Node fs ds)" "x \<in> set (listing_items \<lparr>files = fs, dirs = map fst ds\<rparr>)" "d \<noteq> []"
  shows "prefix (d @ ''/'') (fkey x)"
proof -
  have "is_child d k \<Longrightarrow> prefix (d @ ''/'') (k @ z)" for k z
    using is_child_prefix [OF _ assms(3)] prefix_prefix by blast
  from this [where z = "[]"] this [where z = "''/''"] assms(1,2) show ?thesis
    by (auto simp: listing_items_def children_listing_def)
qed

lemma fentries_dir:
  assumes "tree_at m answer d (Node fs ds)"
  shows "set (tree_files (Node fs ds)) =
         (\<Union>x \<in> set (listing_items \<lparr>files = fs, dirs = map fst ds\<rparr>). fentries m answer x)"
proof -
  have sub: "fentries m answer (FDir (fst x)) = set (tree_files (snd x))" if "x \<in> set ds" for x
    using that assms by (intro fentries_tree) simp
  have "(\<Union>x \<in> set (listing_items \<lparr>files = fs, dirs = map fst ds\<rparr>). fentries m answer x) =
        set fs \<union> (\<Union>x \<in> set ds. fentries m answer (FDir (fst x)))"
    by (auto simp: listing_items_def fentries_def)
  also have "\<dots> = set (tree_files (Node fs ds))" using sub by auto
  finally show ?thesis by simp
qed

lemma passed_not_wanted:
  assumes "passed after x" "e \<in> fentries m answer x" "\<forall>k. x = FDir k \<longrightarrow> wf_key k"
  shows "\<not> wanted pre after e"
proof (cases after)
  case (Some a)
  show ?thesis
  proof (cases x)
    case (FFile f)
    with Some assms(1,2) show ?thesis by (auto simp: fentries_def wanted_def after_marker_def)
  next
    case (FDir k)
    with assms obtain t where "tree_at m answer k t" "e \<in> set (tree_files t)" "wf_key k"
      by (auto simp: fentries_def)
    then obtain q where "key e = (k @ ''/'') @ q"
      using tree_files_below wf_key_nonempty by (metis prefix_def)
    moreover have "k @ ''/'' < a" "\<not> prefix (k @ ''/'') a" using assms(1) Some FDir by simp_all
    ultimately have "key e < a" using prefix_append_less by metis
    with Some show ?thesis by (auto simp: wanted_def after_marker_def)
  qed
qed (use assms in simp)

text \<open>A directory among the children of the prefix's own directory is entered through its key.\<close>

lemma child_reaches_prefix:
  assumes "is_child (dir_part pre) k" "prefix pre (k @ ''/'' @ q)"
  shows "prefix pre k"
proof -
  have slashless: "prefix zs n" if "prefix zs (n @ slash # q)" "slash \<notin> set zs" for zs n
    using that by (auto simp: prefix_append prefix_Cons)
  from assms(1) obtain n where n: "k = child_key (dir_part pre) n" "n \<noteq> []" "slash \<notin> set n"
    by (auto simp: is_child_iff)
  show ?thesis
  proof (cases "rfind_char slash pre")
    case None
    then have "slash \<notin> set pre" unfolding rfind_char_None .
    moreover from None n have "k = n" by (simp add: dir_part_def child_key_def)
    ultimately show ?thesis using assms(2) slashless [of pre n] by simp
  next
    case (Some i)
    then obtain ys zs where pre: "pre = ys @ slash # zs" "slash \<notin> set zs" "i = length ys"
      using rfind_char_Some by blast
    with Some n(1) have k: "k = child_key ys n" by (simp add: dir_part_def)
    show ?thesis
    proof (cases "ys = []")
      case True
      with k have "k = n" by (simp add: child_key_def)
      with assms(2) n pre(1) True show ?thesis by (cases n) simp_all
    next
      case False
      with k have "k = ys @ slash # n" by (simp add: child_key_def)
      with assms(2) pre(1,2) slashless [of zs n] show ?thesis by simp
    qed
  qed
qed

section \<open>The merge emits the flat listing\<close>

definition fweight :: "path_mapper \<Rightarrow> (string \<Rightarrow> hdfs_error + dir_listing) \<Rightarrow> fitem \<Rightarrow> nat" where
  "fweight m answer x =
     (case x of FFile e \<Rightarrow> 1 | FDir k \<Rightarrow> 1 + tree_weight (THE t. tree_at m answer k t))"

abbreviation frontier_weight where
  "frontier_weight m answer F \<equiv> \<Sum>x \<in># F. fweight m answer x"

lemma the_tree: "tree_at m answer k t \<Longrightarrow> (THE t. tree_at m answer k t) = t"
  using tree_at_unique by blast

lemma weight_children:
  assumes "tree_at m answer d (Node fs ds)"
  shows "frontier_weight m answer (mset (listing_items \<lparr>files = fs, dirs = map fst ds\<rparr>)) = tree_weight (Node fs ds)"
proof -
  have "sum_list (map (\<lambda>x. fweight m answer (FDir (fst x))) ds) =
      sum_list (map (\<lambda>x. 1 + tree_weight (snd x)) ds)"
    using assms the_tree by (intro arg_cong [where f = sum_list] map_cong) (auto simp: fweight_def)
  moreover have "sum_list (map (\<lambda>e. fweight m answer (FFile e)) fs) = length fs"
    by (simp add: fweight_def sum_list_triv)
  ultimately show ?thesis
    by (simp add: listing_items_def comp_def sum_mset_sum_list [symmetric] mset_map [symmetric] del: mset_map)
qed

lemma weight_mono: "N \<subseteq># M \<Longrightarrow> frontier_weight m answer N \<le> frontier_weight m answer M"
  by (metis le_add1 image_mset_union subset_mset.le_iff_add sum_mset.union)

text \<open>
  The interface of a lister: its state may change with every call (caches fill up, time passes),
  but as long as its invariant holds it answers each directory the same way.
\<close>

locale stable_lister =
  fixes list_dir :: "'s lister" and inv :: "'s \<Rightarrow> bool"
    and answer :: "string \<Rightarrow> hdfs_error + dir_listing"
  assumes stable: "inv s \<Longrightarrow> fst (list_dir s d) = answer d"
    and stable_inv: "inv s \<Longrightarrow> inv (snd (list_dir s d))"
begin

definition merge_ok :: "sorted_listing \<Rightarrow> bool" where
  "merge_ok sl \<longleftrightarrow>
     start_seeded sl \<and> \<not> exhausted sl \<and> wf_mapper (sl_mapper sl) \<and>
     (\<forall>c \<in> set (heap sl). cursor_ok c) \<and>
     frontier_ok (sl_mapper sl) answer (sl_prefix sl) (frontier (heap sl))"

definition remaining :: "sorted_listing \<Rightarrow> list_entry set" where
  "remaining sl = to_emit (sl_mapper sl) answer (sl_prefix sl) (sl_after sl) (frontier (heap sl))"

definition merge_weight :: "sorted_listing \<Rightarrow> nat" where
  "merge_weight sl = frontier_weight (sl_mapper sl) answer (frontier (heap sl))"

definition pulled :: "list_entry set \<Rightarrow> 's pull \<Rightarrow> bool" where
  "pulled W r \<longleftrightarrow>
     (case r of (Inl e, sl', s') \<Rightarrow> False
      | (Inr None, sl', s') \<Rightarrow> W = {} \<and> exhausted sl' \<and> inv s'
      | (Inr (Some e), sl', s') \<Rightarrow>
          e \<in> W \<and> remaining sl' = W - {e} \<and> (\<forall>e' \<in> remaining sl'. key e < key e') \<and>
          merge_ok sl' \<and> inv s')"

lemma push_children:
  assumes ok: "merge_ok sl" and inv: "frontier (heap sl) = F"
    and t: "tree_at (sl_mapper sl) answer d (Node fs ds)"
    and l: "l = \<lparr>files = fs, dirs = map fst ds\<rparr>"
    and reach: "\<forall>k \<in> fst ` set ds. \<forall>q. prefix (sl_prefix sl) (k @ ''/'' @ q) \<longrightarrow> prefix (sl_prefix sl) k"
    and cross: "\<forall>x \<in> set (listing_items l). \<forall>y \<in># F. x \<noteq> y \<and> \<not> blocks x y \<and> \<not> blocks y x"
  shows "merge_ok (push_listing l sl)"
    and "remaining (push_listing l sl) =
           {e \<in> set (tree_files (Node fs ds)). wanted (sl_prefix sl) (sl_after sl) e} \<union> remaining sl"
    and "merge_weight (push_listing l sl) \<le> tree_weight (Node fs ds) + merge_weight sl"
proof -
  let ?m = "sl_mapper sl" and ?p = "sl_prefix sl" and ?a = "sl_after sl"
  have ch: "children_listing d (files l) (dirs l)" using t l by simp
  obtain N where N: "frontier (heap (push_listing l sl)) = N + F" "N \<subseteq># mset (listing_items l)"
    "\<forall>x \<in> set (listing_items l). x \<notin># N \<longrightarrow> passed ?a x" "\<forall>c \<in> set (heap (push_listing l sl)). cursor_ok c"
    using push_listing_spec [OF ch, of sl] ok inv by (auto simp: merge_ok_def)
  have dirs: "reachable_dir ?m answer ?p k" if "k \<in> set (dirs l)" for k
    using that t l reach unfolding reachable_dir_def by auto
  have okN: "frontier_ok ?m answer ?p N"
    by (rule frontier_ok_subset [OF children_frontier_ok [OF ch] N(2)]) (use dirs in blast)
  have inN: "x \<in> set (listing_items l)" if "x \<in># N" for x using that N(2) by (metis mset_subset_eqD set_mset_mset)
  have "frontier_ok ?m answer ?p (N + F)"
    using ok okN inv cross inN by (intro frontier_ok_union) (auto simp: merge_ok_def)
  with ok N show "merge_ok (push_listing l sl)" by (simp add: merge_ok_def)
  have "to_emit ?m answer ?p ?a N = to_emit ?m answer ?p ?a (mset (listing_items l))"
  proof -
    have "\<not> wanted ?p ?a e" if "x \<in> set (listing_items l)" "x \<notin># N" "e \<in> fentries ?m answer x" for x e
      using passed_not_wanted [of ?a x e] N(3) that dirs by (auto simp: listing_items_def reachable_dir_def)
    with inN show ?thesis by (auto simp: to_emit_def)
  qed
  also have "\<dots> = {e \<in> set (tree_files (Node fs ds)). wanted ?p ?a e}"
    unfolding fentries_dir [OF t] l by (auto simp: to_emit_def)
  finally show "remaining (push_listing l sl) =
      {e \<in> set (tree_files (Node fs ds)). wanted ?p ?a e} \<union> remaining sl"
    by (simp add: remaining_def N(1) to_emit_add inv)
  have "frontier_weight ?m answer N \<le> tree_weight (Node fs ds)"
    using weight_mono [OF N(2), of ?m answer] weight_children [OF t] by (simp add: l)
  then show "merge_weight (push_listing l sl) \<le> tree_weight (Node fs ds) + merge_weight sl"
    by (simp add: merge_weight_def N(1) inv)
qed

text \<open>One round either returns the least remaining entry or makes progress.\<close>

lemma skip_item:
  assumes "merge_ok sl" "heap_pop (heap sl) = Some (c, rest)"
    and "\<forall>e \<in> fentries (sl_mapper sl) answer (first_item c). \<not> wanted (sl_prefix sl) (sl_after sl) e"
  defines "sl' \<equiv> sl\<lparr>heap := keep_cursor c rest\<rparr>"
  shows "merge_ok sl' \<and> remaining sl' = remaining sl \<and> merge_weight sl' < merge_weight sl"
proof -
  have cs: "\<forall>c \<in> set (heap sl). cursor_ok c" using assms(1) by (simp add: merge_ok_def)
  note pop = heap_pop_spec [OF cs assms(2)]
  have "frontier_ok (sl_mapper sl) answer (sl_prefix sl) (frontier (keep_cursor c rest))"
    by (rule frontier_ok_subset [of _ _ _ "frontier (heap sl)"])
       (use assms(1) in \<open>simp_all add: merge_ok_def pop(1)\<close>)
  with assms(1) pop(2) have "merge_ok sl'" by (simp add: merge_ok_def sl'_def)
  moreover have "remaining sl' = remaining sl"
    using assms(3) by (auto simp: remaining_def sl'_def pop(1) to_emit_add)
  moreover have "0 < fweight (sl_mapper sl) answer (first_item c)"
    by (simp add: fweight_def split: fitem.split)
  then have "merge_weight sl' < merge_weight sl" by (simp add: merge_weight_def sl'_def pop(1))
  ultimately show ?thesis by blast
qed

lemma emit_item:
  assumes "merge_ok sl" "heap_pop (heap sl) = Some (c, rest)" "first_item c = FFile e"
    and "wanted (sl_prefix sl) (sl_after sl) e" "inv s"
  shows "pulled (remaining sl) (Inr (Some e), sl\<lparr>heap := keep_cursor c rest\<rparr>, s)"
proof -
  define sl' where "sl' = sl\<lparr>heap := keep_cursor c rest\<rparr>"
  have cs: "\<forall>c \<in> set (heap sl). cursor_ok c" using assms(1) by (simp add: merge_ok_def)
  note pop = heap_pop_spec [OF cs assms(2)]
  have ok: "frontier_ok (sl_mapper sl) answer (sl_prefix sl) (add_mset (FFile e) (frontier (keep_cursor c rest)))"
    using assms(1,3) pop(1) by (simp add: merge_ok_def)
  have "\<forall>y \<in># frontier (keep_cursor c rest). \<forall>e' \<in> fentries (sl_mapper sl) answer y. key e < key e'"
    using least_item(2) [OF ok] pop(3) assms(3) by simp
  then have later: "\<forall>e' \<in> remaining sl'. key e < key e'" by (auto simp: remaining_def to_emit_def sl'_def)
  moreover have "remaining sl = insert e (remaining sl')"
    using assms(3,4) by (auto simp: remaining_def sl'_def pop(1) to_emit_add fentries_def)
  moreover have "e \<notin> remaining sl'" using later by blast
  moreover have "merge_ok sl'"
    using assms(1) pop(2) frontier_ok_subset [OF ok] by (simp add: merge_ok_def sl'_def)
  ultimately show ?thesis using assms(5) by (simp add: pulled_def sl'_def)
qed

lemma unwanted_dir:
  assumes "frontier_ok m answer pre F" "FDir k \<in># F"
    and "\<not> prefix pre k \<or> (\<exists>a. after = Some a \<and> dir_children_all_before k a)"
  shows "\<forall>e \<in> fentries m answer (FDir k). \<not> wanted pre after e"
proof
  fix e assume e: "e \<in> fentries m answer (FDir k)"
  have r: "reachable_dir m answer pre k" using assms(1,2) by (simp add: frontier_ok_def)
  then have wf: "wf_key k" by (simp add: reachable_dir_def)
  from e obtain t where "tree_at m answer k t" "e \<in> set (tree_files t)" by (auto simp: fentries_def)
  then obtain q where q: "key e = k @ ''/'' @ q"
    using tree_files_below [OF _ wf_key_nonempty [OF wf]] by (metis append.assoc prefix_def)
  from assms(3) show "\<not> wanted pre after e"
  proof
    assume "\<not> prefix pre k"
    with r q show ?thesis by (auto simp: reachable_dir_def wanted_def)
  next
    assume "\<exists>a. after = Some a \<and> dir_children_all_before k a"
    then have "passed after (FDir k)" by (auto simp: order_simps)
    then show ?thesis using e wf by (intro passed_not_wanted) auto
  qed
qed

lemma dir_path_key: "wf_mapper m \<Longrightarrow> wf_key k \<Longrightarrow> key_to_hdfs_path m k = Some (dir_path m k)"
  using wf_key_path [of m k] wf_key_nonempty [of k] by (simp add: dir_path_def)

lemma descend_progress:
  assumes ok: "merge_ok sl" and pop: "heap_pop (heap sl) = Some (c, rest)" and first: "first_item c = FDir k"
    and t: "tree_at (sl_mapper sl) answer k (Node fs ds)" and p: "prefix (sl_prefix sl) k"
  defines "sl' \<equiv> push_listing \<lparr>files = fs, dirs = map fst ds\<rparr> (sl\<lparr>heap := keep_cursor c rest\<rparr>)"
  shows "merge_ok sl' \<and> remaining sl' = remaining sl \<and> merge_weight sl' < merge_weight sl"
proof -
  let ?m = "sl_mapper sl" and ?F = "frontier (keep_cursor c rest)"
  define sl1 where "sl1 = sl\<lparr>heap := keep_cursor c rest\<rparr>"
  have cs: "\<forall>c \<in> set (heap sl). cursor_ok c" using ok by (simp add: merge_ok_def)
  note pop = heap_pop_spec [OF cs pop, unfolded first]
  have okF: "frontier_ok ?m answer (sl_prefix sl) (add_mset (FDir k) ?F)"
    using ok pop(1) by (simp add: merge_ok_def)
  have ok1: "merge_ok sl1"
    using ok pop(2) frontier_ok_subset [OF okF, of ?F] by (simp add: merge_ok_def sl1_def)
  have "reachable_dir ?m answer (sl_prefix sl) k" using okF by (simp add: frontier_ok_def)
  then have k: "k \<noteq> []" using wf_key_nonempty by (simp add: reachable_dir_def)
  have "prefix (sl_prefix sl) k'" if "k' \<in> fst ` set ds" for k'
  proof -
    from that t have "is_child k k'" by (auto simp: children_listing_def)
    then have "prefix k k'" using is_child_prefix [OF _ k] append_prefixD by blast
    with p show ?thesis by (rule prefix_order.trans)
  qed
  then have reach: "\<forall>k' \<in> fst ` set ds. \<forall>q. prefix (sl_prefix sl1) (k' @ ''/'' @ q) \<longrightarrow> prefix (sl_prefix sl1) k'"
    by (simp add: sl1_def)
  have cross: "\<forall>x \<in> set (listing_items \<lparr>files = fs, dirs = map fst ds\<rparr>). \<forall>y \<in># ?F.
      x \<noteq> y \<and> \<not> blocks x y \<and> \<not> blocks y x"
    using descend_cross [OF okF] tree_children [OF t _ k] by blast
  have t1: "tree_at (sl_mapper sl1) answer k (Node fs ds)" and F1: "frontier (heap sl1) = ?F"
    using t by (simp_all add: sl1_def)
  note push = push_children [OF ok1 F1 t1 refl reach cross]
  have "fentries ?m answer (FDir k) = set (tree_files (Node fs ds))" by (rule fentries_tree [OF t])
  then have "remaining sl = {e \<in> set (tree_files (Node fs ds)). wanted (sl_prefix sl1) (sl_after sl1) e} \<union> remaining sl1"
    by (simp add: remaining_def pop(1) to_emit_add sl1_def)
  moreover have "merge_weight sl = 1 + tree_weight (Node fs ds) + merge_weight sl1"
    by (simp add: merge_weight_def pop(1) fweight_def the_tree [OF t] sl1_def)
  ultimately show ?thesis unfolding sl'_def sl1_def [symmetric] using push by simp
qed

text \<open>A round that opens a directory is decided by what the lister answers.\<close>

lemma merge_round_open:
  assumes "heap_pop (heap sl) = Some (c, rest)" "\<not> c_files c" "k = dirs (c_listing c) ! c_idx c"
    and "wf_mapper (sl_mapper sl)" "wf_key k" "inv s"
    and "prefix (sl_prefix sl) k" "\<not> (\<exists>a. sl_after sl = Some a \<and> dir_children_all_before k a)"
  defines "sl1 \<equiv> sl\<lparr>heap := keep_cursor c rest\<rparr>" and "d \<equiv> dir_path (sl_mapper sl) k"
  shows "merge_round list_dir sl s =
    (case answer d of
       Inr listing \<Rightarrow> Inr (push_listing listing sl1, snd (list_dir s d))
     | Inl e \<Rightarrow> if is_dir_denied e then Inr (sl1, snd (list_dir s d))
               else if is_file_not_found e then Inr (sl1, snd (list_dir s d))
               else Inl (Inl e, sl1, snd (list_dir s d)))"
proof -
  obtain s' where "list_dir s (dir_path (sl_mapper sl) k) = (answer (dir_path (sl_mapper sl) k), s')"
    using stable [OF assms(6)] by (metis prod.collapse)
  with assms(7,8) show ?thesis
    by (simp add: merge_round_def assms(1,2) assms(3) [symmetric] sl1_def d_def Let_def dir_path_key [OF assms(4,5)]
        split: option.split sum.split)
qed

lemma open_dir_progress:
  assumes ok: "merge_ok sl" and inv: "inv s" and pop: "heap_pop (heap sl) = Some (c, rest)"
    and nf: "\<not> c_files c" and first: "first_item c = FDir k" and k: "k = dirs (c_listing c) ! c_idx c"
  shows "case merge_round list_dir sl s of
           Inl r \<Rightarrow> pulled (remaining sl) r
         | Inr (sl', s') \<Rightarrow> merge_ok sl' \<and> inv s' \<and> remaining sl' = remaining sl \<and> merge_weight sl' < merge_weight sl"
proof -
  let ?m = "sl_mapper sl" and ?sl = "sl\<lparr>heap := keep_cursor c rest\<rparr>"
  have cs: "\<forall>c \<in> set (heap sl). cursor_ok c" using ok by (simp add: merge_ok_def)
  have inF: "FDir k \<in># frontier (heap sl)" using heap_pop_spec(1) [OF cs pop] first by simp
  have okF: "frontier_ok ?m answer (sl_prefix sl) (frontier (heap sl))" and wfm: "wf_mapper ?m"
    using ok by (simp_all add: merge_ok_def)
  then obtain t where t: "tree_at ?m answer k t" and wf: "wf_key k"
    using inF by (auto simp: frontier_ok_def reachable_dir_def)
  note skip = skip_item [OF ok pop, unfolded first]
  define hit where "hit \<longleftrightarrow> prefix (sl_prefix sl) k \<and>
     \<not> (\<exists>a. sl_after sl = Some a \<and> dir_children_all_before k a)"
  show ?thesis
  proof (cases hit)
    case False
    then have "merge_round list_dir sl s = Inr (?sl, s)"
      by (auto simp: merge_round_def pop nf k [symmetric] Let_def hit_def split: option.split)
    moreover have "\<forall>e \<in> fentries ?m answer (FDir k). \<not> wanted (sl_prefix sl) (sl_after sl) e"
      by (rule unwanted_dir [OF okF inF]) (use False in \<open>simp add: hit_def\<close>)
    ultimately show ?thesis using skip inv by simp
  next
    case True
    note round = merge_round_open [OF pop nf k wfm wf inv] and inv' = stable_inv [OF inv, of "dir_path ?m k"]
    show ?thesis
    proof (cases t)
      case (Node fs ds)
      with t True descend_progress [OF ok pop first, of fs ds] inv' show ?thesis
        by (simp add: round hit_def)
    next
      case (Unlistable e)
      then have none: "fentries ?m answer (FDir k) = {}" using fentries_tree [OF t] by simp
      from t Unlistable True have "merge_round list_dir sl s = Inr (?sl, snd (list_dir s (dir_path ?m k)))"
        by (auto simp: round hit_def skippable_def)
      with skip none inv' show ?thesis by simp
    qed
  qed
qed

lemma merge_round_progress:
  assumes ok: "merge_ok sl" and inv: "inv s"
  shows "case merge_round list_dir sl s of
           Inl r \<Rightarrow> pulled (remaining sl) r
         | Inr (sl', s') \<Rightarrow> merge_ok sl' \<and> inv s' \<and> remaining sl' = remaining sl \<and> merge_weight sl' < merge_weight sl"
proof (cases "heap_pop (heap sl)")
  case None
  then have "heap sl = []" by (cases "heap sl") auto
  then show ?thesis using inv by (simp add: merge_round_def pulled_def remaining_def to_emit_add)
next
  case (Some cr)
  obtain c rest where pop: "heap_pop (heap sl) = Some (c, rest)" using Some by (cases cr) auto
  note skip = skip_item [OF ok pop]
  show ?thesis
  proof (cases "c_files c")
    case True
    define e where "e = files (c_listing c) ! c_idx c"
    have first: "first_item c = FFile e" by (simp add: first_item_def True e_def)
    show ?thesis
    proof (cases "wanted (sl_prefix sl) (sl_after sl) e")
      case w: True
      then have "merge_round list_dir sl s = Inl (Inr (Some e), sl\<lparr>heap := keep_cursor c rest\<rparr>, s)"
        by (auto simp: merge_round_def pop True e_def Let_def wanted_def after_marker_def split: option.split)
      with emit_item [OF ok pop first w inv] show ?thesis by simp
    next
      case False
      then have "merge_round list_dir sl s = Inr (sl\<lparr>heap := keep_cursor c rest\<rparr>, s)"
        by (auto simp: merge_round_def pop True e_def Let_def wanted_def after_marker_def not_less split: option.splits)
      moreover have "\<forall>e \<in> fentries (sl_mapper sl) answer (first_item c). \<not> wanted (sl_prefix sl) (sl_after sl) e"
        using False by (simp add: first fentries_def)
      ultimately show ?thesis using skip inv by simp
    qed
  next
    case False
    define k where "k = dirs (c_listing c) ! c_idx c"
    have first: "first_item c = FDir k" by (simp add: first_item_def False k_def)
    from open_dir_progress [OF ok inv pop False first k_def] show ?thesis .
  qed
qed

lemma merge_loop_pulls:
  assumes "merge_ok sl" "inv s"
  shows "\<exists>r. merge_loop list_dir sl s = Some r \<and> pulled (remaining sl) r"
  using assms
proof (induction "merge_weight sl" arbitrary: sl s rule: less_induct)
  case less
  note progress = merge_round_progress [OF less.prems]
  show ?case
  proof (cases "merge_round list_dir sl s")
    case (Inl r)
    with progress show ?thesis by (simp add: merge_loop.simps [of list_dir sl s])
  next
    case (Inr p)
    obtain sl' s' where p: "p = (sl', s')" by (cases p)
    with Inr progress have "merge_ok sl'" "inv s'" "remaining sl' = remaining sl" "merge_weight sl' < merge_weight sl"
      by simp_all
    with less.hyps [of sl' s'] Inr p show ?thesis by (simp add: merge_loop.simps [of list_dir sl s])
  qed
qed

lemma next_entry_pulls:
  assumes "merge_ok sl" "inv s"
  shows "\<exists>r. next_entry list_dir sl s = Some r \<and> pulled (remaining sl) r"
  using merge_loop_pulls [OF assms] assms(1) by (simp add: next_entry_def merge_ok_def)

text \<open>A page is the first part of the sorted sequence of what remains.\<close>

lemma pulled_head:
  assumes "pulled W (Inr (Some e), sl', s')" "strictly_sorted key L" "set L = W"
  shows "\<exists>L'. L = e # L' \<and> strictly_sorted key L' \<and> set L' = remaining sl'"
proof -
  from assms have e: "e \<in> set L" "remaining sl' = set L - {e}" "\<forall>e' \<in> remaining sl'. key e < key e'"
    by (auto simp: pulled_def)
  then obtain x L' where L: "L = x # L'" by (cases L) auto
  have "x = e"
  proof (rule ccontr)
    assume "x \<noteq> e"
    with e L have "key e < key x" "e \<in> set L'" by auto
    moreover have "key x < key e" using assms(2) L \<open>e \<in> set L'\<close> by simp
    ultimately show False by simp
  qed
  with assms(2) L e(2) show ?thesis by auto
qed

lemma collect_loop_page:
  assumes "strictly_sorted key L" "\<exists>r. next_entry list_dir sl s = Some r \<and> pulled (set L) r"
  shows "\<exists>sl' s'. collect_loop list_dir room page sl s =
           Some (Inr (page @ take room L, room < length L), sl', s') \<and> inv s'"
  using assms
proof (induction room arbitrary: L page sl s)
  case 0
  from 0(2) obtain r where r: "next_entry list_dir sl s = Some r" "pulled (set L) r" by blast
  obtain res sl' s' where rr: "r = (res, sl', s')" by (cases r)
  show ?case
  proof (cases res)
    case (Inr x)
    with r rr show ?thesis by (cases x) (auto simp: pulled_def)
  qed (use r rr in \<open>simp add: pulled_def\<close>)
next
  case (Suc room)
  from Suc.prems(2) obtain r where r: "next_entry list_dir sl s = Some r" "pulled (set L) r" by blast
  obtain res sl' s' where rr: "r = (res, sl', s')" by (cases r)
  then obtain x where x: "res = Inr x" using r(2) by (cases res) (simp_all add: pulled_def)
  show ?case
  proof (cases x)
    case None
    with r rr x show ?thesis by (simp add: pulled_def)
  next
    case (Some e)
    with r rr x have p: "pulled (set L) (Inr (Some e), sl', s')" by simp
    from pulled_head [OF p Suc.prems(1) refl] obtain L' where
      L: "L = e # L'" "strictly_sorted key L'" "set L' = remaining sl'" by blast
    have "merge_ok sl'" "inv s'" using p by (simp_all add: pulled_def)
    from next_entry_pulls [OF this] L(3)
    have "\<exists>r. next_entry list_dir sl' s' = Some r \<and> pulled (set L') r" by simp
    from Suc.IH [OF L(2) this, of "page @ [e]"] r rr x Some L(1) show ?thesis by simp
  qed
qed

lemma first_entry_pulls:
  assumes m: "wf_mapper m" and t: "tree_at m answer (dir_part pre) (Node fs ds)" and s: "inv s"
  shows "\<exists>r. next_entry list_dir (sorted_listing_new (dir_path m (dir_part pre)) pre after m) s = Some r \<and>
             pulled {e \<in> set (tree_files (Node fs ds)). wanted pre after e} r"
proof -
  define l where "l = \<lparr>files = fs, dirs = map fst ds\<rparr>"
  define sl where "sl = (sorted_listing_new (dir_path m (dir_part pre)) pre after m)\<lparr>start_seeded := True\<rparr>"
  define s' where "s' = snd (list_dir s (dir_path m (dir_part pre)))"
  have call: "list_dir s (dir_path m (dir_part pre)) = (Inr l, s')" and inv: "inv s'"
    using stable [OF s, of "dir_path m (dir_part pre)"] stable_inv [OF s] t
    by (simp_all add: s'_def l_def prod_eq_iff)
  have ok: "merge_ok sl" and F: "frontier (heap sl) = {#}"
    using m by (simp_all add: merge_ok_def sl_def sorted_listing_new_def frontier_ok_def)
  have t': "tree_at (sl_mapper sl) answer (dir_part pre) (Node fs ds)"
    using t by (simp add: sl_def sorted_listing_new_def)
  have reach: "\<forall>k \<in> fst ` set ds. \<forall>q. prefix (sl_prefix sl) (k @ ''/'' @ q) \<longrightarrow> prefix (sl_prefix sl) k"
    using t child_reaches_prefix [of pre] by (auto simp: sl_def sorted_listing_new_def children_listing_def)
  note push = push_children [OF ok F t' l_def reach]
  have "remaining (push_listing l sl) = {e \<in> set (tree_files (Node fs ds)). wanted pre after e}"
    using push(2) by (simp add: remaining_def F to_emit_add sl_def sorted_listing_new_def)
  moreover have "next_entry list_dir (sorted_listing_new (dir_path m (dir_part pre)) pre after m) s =
      merge_loop list_dir (push_listing l sl) s'"
    by (simp add: next_entry_def sl_def sorted_listing_new_def call)
  ultimately show ?thesis using merge_loop_pulls [of "push_listing l sl" s'] push(1) inv by simp
qed

lemma collect_page_exact:
  assumes "wf_mapper m" "tree_at m answer (dir_part pre) (Node fs ds)" "inv s"
  shows "\<exists>sl' s'. collect_page list_dir n (sorted_listing_new (dir_path m (dir_part pre)) pre after m) s =
           Some (Inr (take n (flat_listing (Node fs ds) pre after),
                      0 < n \<and> n < length (flat_listing (Node fs ds) pre after)), sl', s') \<and> inv s'"
proof (cases "n = 0")
  case True
  then show ?thesis using assms(3) by (simp add: collect_page_def)
next
  case False
  let ?L = "flat_listing (Node fs ds) pre after"
  have "distinct (map key (filter (wanted pre after) (tree_files (Node fs ds))))"
    using tree_files_distinct [OF assms(2)] by (rule distinct_map_filter)
  then have sorted: "strictly_sorted key ?L" unfolding flat_listing_def by (rule strictly_sorted_sort_key)
  have "set ?L = {e \<in> set (tree_files (Node fs ds)). wanted pre after e}"
    by (auto simp: flat_listing_def)
  with first_entry_pulls [OF assms, of after]
  have "\<exists>r. next_entry list_dir (sorted_listing_new (dir_path m (dir_part pre)) pre after m) s = Some r \<and>
           pulled (set ?L) r" by (simp only:)
  from collect_loop_page [OF sorted this, of n "[]"] False show ?thesis
    by (simp add: collect_page_def)
qed

lemma collect_page_start_error:
  assumes "answer start = Inl e" "inv s" "0 < n"
  shows "\<exists>sl' s'. collect_page list_dir n (sorted_listing_new start pre after m) s =
           Some (if is_file_not_found e then Inr ([], False) else Inl e, sl', s') \<and> inv s'"
proof -
  obtain s' where "list_dir s start = (Inl e, s')" "inv s'"
    using stable [OF assms(2), of start] stable_inv [OF assms(2), of start] assms(1)
    by (cases "list_dir s start") auto
  with assms(3) show ?thesis
    by (cases n) (simp_all add: collect_page_def next_entry_def sorted_listing_new_def)
qed

end

section \<open>Listings built from statuses\<close>

definition status_file :: "path_mapper \<Rightarrow> file_status \<Rightarrow> list_entry option" where
  "status_file m st =
     (case hdfs_path_to_key m (fs_path st) of
        Some k \<Rightarrow> if k = [] \<or> fs_isdir st then None
                  else Some \<lparr>key = k, size = fs_length st, modification_time = fs_mtime st\<rparr>
      | None \<Rightarrow> None)"

definition status_dir :: "path_mapper \<Rightarrow> file_status \<Rightarrow> string option" where
  "status_dir m st =
     (case hdfs_path_to_key m (fs_path st) of
        Some k \<Rightarrow> if k \<noteq> [] \<and> fs_isdir st then Some k else None
      | None \<Rightarrow> None)"

lemma fold_status_step:
  "fold (status_step m) sts (fs, ds) =
     (fs @ List.map_filter (status_file m) sts, ds @ List.map_filter (status_dir m) sts)"
  by (induction sts arbitrary: fs ds)
     (auto simp: status_step_def status_file_def status_dir_def map_filter_simps split: option.split)

lemma listing_from_statuses_sort:
  "listing_from_statuses sts m =
     \<lparr>files = sort_key key (List.map_filter (status_file m) sts),
      dirs = sort_key (\<lambda>d. d @ ''/'') (List.map_filter (status_dir m) sts)\<rparr>"
proof -
  have "sort_by cmp_dir_keys = sort_by (\<lambda>a b. cmp (a @ ''/'') (b @ ''/''))"
    by (simp add: cmp_dir_keys_eq [abs_def])
  then show ?thesis
    by (simp add: listing_from_statuses_def fold_status_step sort_by_key)
qed

text \<open>
  A listing that the rest of the program may rely on: files in the byte order of their keys, directories in
  that of their keys with the slash, and every key one that a client can ask for.
\<close>

definition fetchable :: "path_mapper \<Rightarrow> string \<Rightarrow> bool" where
  "fetchable m k \<longleftrightarrow> wf_key k \<and> key_to_hdfs_path m k = Some (join_root (root m) k)"

definition wf_listing :: "path_mapper \<Rightarrow> dir_listing \<Rightarrow> bool" where
  "wf_listing m l \<longleftrightarrow>
     sorted (map key (files l)) \<and> sorted (map (\<lambda>d. d @ ''/'') (dirs l)) \<and>
     list_all (\<lambda>e. fetchable m (key e)) (files l) \<and> list_all (fetchable m) (dirs l)"

lemma wf_listing_statuses:
  assumes "wf_mapper m"
  shows "wf_listing m (listing_from_statuses sts m)"
proof -
  have "fetchable m k" if "hdfs_path_to_key m p = Some k" "k \<noteq> []" for p k
    using hdfs_path_to_key_wf [OF assms that(1)] that(2) wf_key_path [OF assms] by (auto simp: fetchable_def)
  then show ?thesis
    by (auto simp: wf_listing_def listing_from_statuses_sort list_all_iff set_map_filter status_file_def status_dir_def
        split: option.splits if_splits)
qed

lemma distinct_map_filter_key:
  assumes "distinct (map f xs)" "\<And>x y. x \<in> set xs \<Longrightarrow> g x = Some y \<Longrightarrow> f x = h (k y)"
  shows "distinct (map k (List.map_filter g xs))"
  using assms
proof (induction xs)
  case (Cons x xs)
  show ?case
  proof (cases "g x")
    case (Some y)
    have "k y \<notin> k ` set (List.map_filter g xs)"
    proof
      assume "k y \<in> k ` set (List.map_filter g xs)"
      then obtain x' y' where "x' \<in> set xs" "g x' = Some y'" "k y = k y'" by (auto simp: set_map_filter)
      with Cons.prems Some have "f x = f x'" by (metis list.set_intros)
      with Cons.prems(1) \<open>x' \<in> set xs\<close> show False by auto
    qed
    with Cons Some show ?thesis by (simp add: map_filter_simps)
  qed (use Cons in \<open>simp add: map_filter_simps\<close>)
qed (simp add: map_filter_simps)

section \<open>Properties\<close>

text \<open>
  Claim C26: mapping upstream statuses to a directory listing.  When upstream answers a listing of
  the directory with key \<open>d\<close> with the paths of its direct children, each once and in any order, the
  result holds exactly the keys of the non-directories and of the directories, each kind strictly
  sorted by output key, all of them children of \<open>d\<close>, and every key maps back to the path it came
  from.
\<close>

theorem listing_from_statuses_children:
  assumes "d = [] \<or> wf_key d" "distinct (map fs_path sts)"
    and "\<forall>st \<in> set sts. \<exists>n. real_seg n \<and> fs_path st = join_root (root (path_mapper_new c)) (child_key d n)"
  defines "l \<equiv> listing_from_statuses sts (path_mapper_new c)"
  shows "children_listing d (files l) (dirs l) \<and>
         (\<forall>st \<in> set sts. \<exists>k. wf_key k \<and> key_to_hdfs_path (path_mapper_new c) k = Some (fs_path st) \<and>
            (if fs_isdir st then k \<in> set (dirs l)
             else \<lparr>key = k, size = fs_length st, modification_time = fs_mtime st\<rparr> \<in> set (files l))) \<and>
         length (files l) + length (dirs l) = length sts"
proof -
  let ?m = "path_mapper_new c"
  have child: "\<exists>k n. k = child_key d n \<and> n \<noteq> [] \<and> slash \<notin> set n \<and> wf_key k \<and>
      fs_path st = join_root (root ?m) k \<and> hdfs_path_to_key ?m (fs_path st) = Some k \<and> k \<noteq> []" if "st \<in> set sts" for st
  proof -
    from assms(3) that obtain n where n: "real_seg n" "fs_path st = join_root (root ?m) (child_key d n)" by blast
    have wf: "wf_key (child_key d n)" by (rule wf_key_child [OF assms(1) n(1)])
    from n path_to_key [OF path_mapper_new_wf wf, of c] wf_key_nonempty [OF wf] wf show ?thesis
      by (auto simp: real_seg_def intro!: exI [of _ n])
  qed
  have inj: "distinct (map key (List.map_filter (status_file ?m) sts))"
      "distinct (map (\<lambda>k. k) (List.map_filter (status_dir ?m) sts))"
    by (rule distinct_map_filter_key [OF assms(2), where h = "join_root (root ?m)"];
        use child in \<open>fastforce simp: status_file_def status_dir_def split: option.splits if_splits\<close>)+
  have sortd: "strictly_sorted (\<lambda>d. d @ ''/'') (sort_key (\<lambda>d. d @ ''/'') (List.map_filter (status_dir ?m) sts))"
    using inj(2) by (intro strictly_sorted_sort_key) (simp add: distinct_map inj_on_def)
  have files: "\<forall>f \<in> set (List.map_filter (status_file ?m) sts). is_child d (key f)"
    and dirs: "\<forall>k \<in> set (List.map_filter (status_dir ?m) sts). is_child d k"
    using child by (fastforce simp: set_map_filter status_file_def status_dir_def is_child_iff
        split: option.splits if_splits)+
  have len: "length (List.map_filter (status_file ?m) sts) + length (List.map_filter (status_dir ?m) sts) = length sts"
    using child by (induction sts) (fastforce simp: map_filter_simps status_file_def status_dir_def split: option.splits)+
  have mem: "\<exists>k. wf_key k \<and> key_to_hdfs_path ?m k = Some (fs_path st) \<and>
            (if fs_isdir st then k \<in> set (dirs l)
             else \<lparr>key = k, size = fs_length st, modification_time = fs_mtime st\<rparr> \<in> set (files l))"
    if "st \<in> set sts" for st
  proof -
    from child [OF that] obtain k where k: "wf_key k" "fs_path st = join_root (root ?m) k"
      "hdfs_path_to_key ?m (fs_path st) = Some k" "k \<noteq> []" by blast
    with that wf_key_path [OF path_mapper_new_wf k(1), of c] show ?thesis
      by (intro exI [of _ k])
         (force simp: l_def listing_from_statuses_sort set_map_filter status_file_def status_dir_def)
  qed
  from sortd inj(1) files dirs len mem show ?thesis
    by (simp add: l_def listing_from_statuses_sort children_listing_def strictly_sorted_sort_key)
qed

text \<open>
  A directory is skipped for a continuation marker exactly when every key it could
  contain sorts before the marker.
\<close>

lemma dir_children_all_before_exact:
  "dir_children_all_before k after \<longleftrightarrow> (\<forall>q. k @ ''/'' @ q < after)"
proof
  assume "dir_children_all_before k after"
  then have "k @ ''/'' < after" "\<not> prefix (k @ ''/'') after" by (simp_all add: order_simps)
  then show "\<forall>q. k @ ''/'' @ q < after" using prefix_append_less [of "k @ ''/''" after] by simp
next
  assume all: "\<forall>q. k @ ''/'' @ q < after"
  have "k @ ''/'' < after" using all [rule_format, of "[]"] by simp
  moreover have "\<not> prefix (k @ ''/'') after"
  proof
    assume "prefix (k @ ''/'') after"
    then obtain z where "after = k @ ''/'' @ z" by (auto simp: prefix_def)
    with all [rule_format, of "z"] show False by simp
  qed
  ultimately show "dir_children_all_before k after" by (simp add: order_simps)
qed

section \<open>Instances\<close>

theorem listing_from_statuses_children_witness:
  "children_listing ''a''
     (files (listing_from_statuses
        [\<lparr>fs_path = ''/data/a/z'', fs_length = 1, fs_isdir = False, fs_mtime = 2\<rparr>,
         \<lparr>fs_path = ''/data/a/b'', fs_length = 0, fs_isdir = True, fs_mtime = 3\<rparr>] (path_mapper_new data_config)))
     (dirs (listing_from_statuses
        [\<lparr>fs_path = ''/data/a/z'', fs_length = 1, fs_isdir = False, fs_mtime = 2\<rparr>,
         \<lparr>fs_path = ''/data/a/b'', fs_length = 0, fs_isdir = True, fs_mtime = 3\<rparr>] (path_mapper_new data_config)))"
  (is "children_listing _ (files (listing_from_statuses ?sts _)) _")
proof -
  have d: "''a'' = [] \<or> wf_key ''a''" and dist: "distinct (map fs_path ?sts)" by code_simp+
  have "real_seg ''z'' \<and> ''/data/a/z'' = join_root (root (path_mapper_new data_config)) (child_key ''a'' ''z'')"
    "real_seg ''b'' \<and> ''/data/a/b'' = join_root (root (path_mapper_new data_config)) (child_key ''a'' ''b'')"
    by code_simp+
  then have "\<forall>st \<in> set ?sts. \<exists>n. real_seg n \<and>
      fs_path st = join_root (root (path_mapper_new data_config)) (child_key ''a'' n)"
    by (simp only: list.set(2) list.set(1) ball_simps) auto
  from listing_from_statuses_children [OF d dist this] show ?thesis by blast
qed

end
