(* ===== verification/Gateway_State.thy ===== *)
theory Gateway_State
  imports Config Ttl_Cache Sorted_Listing
begin

text \<open>
  \<^verbatim>\<open>src/s3/cache.rs\<close> (the gateway's four caches), the upstream HDFS client as a record of
  operations, the state a request works on, and the production directory lister
  \<^verbatim>\<open>HdfsDirLister\<close> of \<^verbatim>\<open>src/s3/sorted_listing.rs\<close>.

  The crate \<^verbatim>\<open>hdfs-native\<close> is not part of the repository: its client is the parameter
  \<open>up\<close>, a record of the calls the gateway makes, which thread the state \<open>'w\<close> of everything
  outside the process, the monotonic clock (nanoseconds) and the wall clock included.  \<open>'r\<close> is the type of an open reader (a block map).
  The four LRU maps are the parameter \<open>ops\<close>.
\<close>

section \<open>The caches\<close>

record file_meta =
  fm_length :: u64
  fm_isdir :: bool
  fm_mtime :: u64

record 'r cached_reader =
  cr_reader :: 'r
  cr_length :: u64
  cr_mtime :: u64

record ('lm, 'ln, 'lb, 'ld) caches =
  metadata :: "'lm ttl_cache"
  negative :: "'ln ttl_cache"
  blocks_cache :: "'lb ttl_cache"
  dirs_cache :: "'ld ttl_cache"
  max_dir_entries :: usize

record ('r, 'lm, 'ln, 'lb, 'ld) cache_ops =
  metadata_ops :: "(string, file_meta entry, 'lm) lru_ops"
  negative_ops :: "(string, unit entry, 'ln) lru_ops"
  blocks_ops :: "(string, 'r cached_reader entry, 'lb) lru_ops"
  dirs_ops :: "(string, dir_listing entry, 'ld) lru_ops"

text \<open>\<^verbatim>\<open>capacity\<close>: a \<^verbatim>\<open>NonZeroUsize\<close>.\<close>

definition capacity :: "usize \<Rightarrow> nat" where
  "capacity n = unat (max n 1)"

text \<open>\<^verbatim>\<open>ttl\<close>: a duration in nanoseconds; zero disables the cache.\<close>

definition ttl_of :: "cache_config \<Rightarrow> u64 \<Rightarrow> nat" where
  "ttl_of config millis = (if enabled config then unat millis * 1000000 else 0)"

definition caches_new ::
  "('r, 'lm, 'ln, 'lb, 'ld) cache_ops \<Rightarrow> cache_config \<Rightarrow> ('lm, 'ln, 'lb, 'ld) caches" where
  "caches_new ops config =
     \<lparr>metadata = ttl_new (metadata_ops ops) (capacity (metadata_capacity config))
        (ttl_of config (metadata_ttl_ms config)) (metadata_capacity config),
      negative = ttl_new (negative_ops ops) (capacity (metadata_capacity config))
        (ttl_of config (negative_ttl_ms config)) (metadata_capacity config),
      blocks_cache = ttl_new (blocks_ops ops) (capacity (blocks_capacity config))
        (ttl_of config (blocks_ttl_ms config)) (blocks_capacity config),
      dirs_cache = ttl_new (dirs_ops ops) (capacity (listing_capacity_entries config))
        (ttl_of config (listing_ttl_ms config)) (listing_capacity_entries config),
      max_dir_entries = listing_max_dir_entries config\<rparr>"

section \<open>Upstream and the state of the process\<close>

text \<open>
  One pull of \<^verbatim>\<open>read_range_stream\<close> yields bytes or an I/O error; the stream of a request is
  the list of its pulls, and its end is the end of the list.
\<close>

record ('r, 'w) upstream =
  get_file_info :: "'w \<Rightarrow> string \<Rightarrow> (hdfs_error + file_status) \<times> 'w"
  list_status :: "'w \<Rightarrow> string \<Rightarrow> bool \<Rightarrow> (hdfs_error + file_status list) \<times> 'w"
  read_file :: "'w \<Rightarrow> string \<Rightarrow> (hdfs_error + 'r) \<times> 'w"
  file_length :: "'r \<Rightarrow> usize"
  read_range_stream :: "'w \<Rightarrow> 'r \<Rightarrow> usize \<Rightarrow> usize \<Rightarrow> (string + string) list"
  clock :: "'w \<Rightarrow> nat"
  wall_nanos :: "'w \<Rightarrow> nat"

text \<open>The caches, the world outside, and the process-wide request counter.\<close>

record ('w, 'lm, 'ln, 'lb, 'ld) gw_state =
  gs_caches :: "('lm, 'ln, 'lb, 'ld) caches"
  gs_world :: 'w
  gs_seq :: u64

section \<open>The cached directory lister\<close>

definition hdfs_list_dir ::
  "('r, 'lm, 'ln, 'lb, 'ld) cache_ops \<Rightarrow> ('r, 'w) upstream \<Rightarrow> path_mapper
     \<Rightarrow> ('w, 'lm, 'ln, 'lb, 'ld) gw_state lister" where
  "hdfs_list_dir ops up m st d =
     (case ttl_get (dirs_ops ops) (clock up (gs_world st)) (dirs_cache (gs_caches st)) d of
        (hit, c1) \<Rightarrow>
          let st1 = st\<lparr>gs_caches := (gs_caches st)\<lparr>dirs_cache := c1\<rparr>\<rparr> in
          case hit of
            Some listing \<Rightarrow> (Inr listing, st1)
          | None \<Rightarrow>
              (case list_status up (gs_world st1) d False of
                 (Inl e, w) \<Rightarrow> (Inl e, st1\<lparr>gs_world := w\<rparr>)
               | (Inr statuses, w) \<Rightarrow>
                   let listing = listing_from_statuses statuses m;
                       weight = of_nat (length (files listing) + length (dirs listing));
                       st2 = st1\<lparr>gs_world := w\<rparr>
                   in (Inr listing,
                       if weight \<le> max_dir_entries (gs_caches st2)
                       then st2\<lparr>gs_caches := (gs_caches st2)\<lparr>dirs_cache :=
                              ttl_insert (dirs_ops ops) (clock up w) (dirs_cache (gs_caches st2)) d listing weight\<rparr>\<rparr>
                       else st2)))"

section \<open>A namespace that does not change\<close>

text \<open>
  \<open>ns\<close> is what upstream answers to a listing of each directory, for as long as the world is in
  \<open>calm\<close>.
\<close>

definition static_upstream ::
  "('r, 'w) upstream \<Rightarrow> ('w \<Rightarrow> bool) \<Rightarrow> (string \<Rightarrow> hdfs_error + file_status list) \<Rightarrow> bool" where
  "static_upstream up calm ns \<longleftrightarrow>
     (\<forall>w d r. calm w \<longrightarrow> fst (list_status up w d r) = ns d \<and> calm (snd (list_status up w d r)))"

definition ns_answer ::
  "path_mapper \<Rightarrow> (string \<Rightarrow> hdfs_error + file_status list) \<Rightarrow> string \<Rightarrow> hdfs_error + dir_listing" where
  "ns_answer m ns d = (case ns d of Inl e \<Rightarrow> Inl e | Inr sts \<Rightarrow> Inr (listing_from_statuses sts m))"

text \<open>The listings the cache holds are those of the namespace.\<close>

definition lister_inv ::
  "('r, 'lm, 'ln, 'lb, 'ld) cache_ops \<Rightarrow> ('r, 'w) upstream \<Rightarrow> path_mapper \<Rightarrow> ('w \<Rightarrow> bool)
     \<Rightarrow> (string \<Rightarrow> hdfs_error + file_status list) \<Rightarrow> ('ld \<Rightarrow> bool) \<Rightarrow> ('ld \<Rightarrow> nat)
     \<Rightarrow> ('ld \<Rightarrow> (string \<times> dir_listing entry) list) \<Rightarrow> ('w, 'lm, 'ln, 'lb, 'ld) gw_state \<Rightarrow> bool" where
  "lister_inv ops up m calm ns valid cap items st \<longleftrightarrow>
     ttl_lru (dirs_ops ops) valid cap items \<and> static_upstream up calm ns \<and> calm (gs_world st) \<and>
     ttl_store.sound (live items) (cache_inv valid items) (\<lambda>t d l. ns_answer m ns d = Inr l)
       (dirs_cache (gs_caches st))"

interpretation cached: stable_lister
  "hdfs_list_dir ops up m" "lister_inv ops up m calm ns valid cap items" "ns_answer m ns"
  for ops :: "('r, 'lm, 'ln, 'lb, 'ld) cache_ops" and up :: "('r, 'w) upstream" and m calm ns valid cap items
proof
  fix s :: "('w, 'lm, 'ln, 'lb, 'ld) gw_state" and d
  assume inv: "lister_inv ops up m calm ns valid cap items s"
  let ?P = "\<lambda>(t :: nat) d l. ns_answer m ns d = Inr l" and ?now = "clock up (gs_world s)"
  from inv have L: "ttl_lru (dirs_ops ops) valid cap items" and up: "static_upstream up calm ns"
    and w: "calm (gs_world s)"
    and S: "ttl_store.sound (live items) (cache_inv valid items) ?P (dirs_cache (gs_caches s))"
    by (simp_all add: lister_inv_def)
  obtain hit c1 where get: "ttl_get (dirs_ops ops) ?now (dirs_cache (gs_caches s)) d = (hit, c1)"
    by fastforce
  have S1: "ttl_store.sound (live items) (cache_inv valid items) ?P c1"
    using ttl_store.sound_get [OF ttl_lru.is_store [OF L] S, of ?now d] get by simp
  have hit: "ns_answer m ns d = Inr l" if "hit = Some l" for l
    using ttl_store.sound_get_result [OF ttl_lru.is_store [OF L] S, of ?now d l] get that by simp
  obtain r w' where call: "list_status up (gs_world s) d False = (r, w')" by fastforce
  have r: "r = ns d" "calm w'"
    using up w call unfolding static_upstream_def by (metis fst_conv snd_conv)+
  show "fst (hdfs_list_dir ops up m s d) = ns_answer m ns d"
    using hit r(1) call
    by (auto simp: hdfs_list_dir_def get Let_def ns_answer_def split: option.split sum.split)
  have ins: "ttl_store.sound (live items) (cache_inv valid items) ?P
      (ttl_insert (dirs_ops ops) now c1 d (listing_from_statuses sts m) n)" if "ns d = Inr sts" for now sts n
    by (rule ttl_store.sound_ins [OF ttl_lru.is_store [OF L] S1]) (simp add: ns_answer_def that)
  show "lister_inv ops up m calm ns valid cap items (snd (hdfs_list_dir ops up m s d))"
    using L up S1 w r ins call
    by (auto simp: hdfs_list_dir_def get Let_def lister_inv_def split: option.split sum.split)
qed

lemma capacity_pos: "0 < capacity n"
  by (auto simp: capacity_def unat_gt_0 max_def)

lemma lister_inv_new:
  assumes "ttl_lru (dirs_ops ops) valid cap items" "static_upstream up calm ns" "calm w"
    and "2 * unat (listing_capacity_entries config) < 2 ^ 64"
  shows "lister_inv ops up m calm ns valid cap items
           \<lparr>gs_caches = caches_new ops config, gs_world = w, gs_seq = n\<rparr>"
  using assms ttl_lru.sound_new [OF assms(1) capacity_pos assms(4)]
  by (simp add: lister_inv_def caches_new_def)

section \<open>Properties\<close>

text \<open>
  Claim C3: the flat listing is exact.  On a finite namespace that does not change, whatever the
  cache holds of it, a pull of \<open>max_keys\<close> entries from a fresh merge returns, and returns exactly the
  first \<open>max_keys\<close> files in byte order among all files of the subtree that match the prefix and come
  after the marker, without those below directories that are denied or have vanished; the flag
  says exactly whether there is a further one (and is unset for \<open>max_keys = 0\<close>).
\<close>

theorem collect_page_flat_listing:
  assumes "lister_inv ops up (path_mapper_new c) calm ns valid cap items st"
    and "tree_at (path_mapper_new c) (ns_answer (path_mapper_new c) ns) (dir_part pre) (Node fs ds)"
  shows "\<exists>sl' st'.
    collect_page (hdfs_list_dir ops up (path_mapper_new c)) max_keys
      (sorted_listing_new (dir_path (path_mapper_new c) (dir_part pre)) pre after (path_mapper_new c)) st =
    Some (Inr (take max_keys (flat_listing (Node fs ds) pre after),
               0 < max_keys \<and> max_keys < length (flat_listing (Node fs ds) pre after)), sl', st') \<and>
    lister_inv ops up (path_mapper_new c) calm ns valid cap items st'"
  by (rule cached.collect_page_exact [OF path_mapper_new_wf assms(2,1)])

text \<open>
  Claim C25: the start directory of a flat listing.  If it does not exist the page is empty; any
  other error, a denial included, is returned to the caller.
\<close>

theorem collect_page_start_fails:
  assumes "lister_inv ops up m calm ns valid cap items st" "ns start = Inl e" "0 < max_keys"
  shows "\<exists>sl' st'.
    collect_page (hdfs_list_dir ops up m) max_keys (sorted_listing_new start pre after m) st =
    Some (if is_file_not_found e then Inr ([], False) else Inl e, sl', st')"
  using cached.collect_page_start_error [of m ns start e ops up calm valid cap items st max_keys pre after m] assms
  by (auto simp: ns_answer_def)

section \<open>Instances\<close>

text \<open>A small cluster: \<open>/data\<close> holds a file, a readable directory and a denied one.\<close>

definition test_status :: "string \<Rightarrow> bool \<Rightarrow> file_status" where
  "test_status p d = \<lparr>fs_path = p, fs_length = 7, fs_isdir = d, fs_mtime = 42\<rparr>"

definition test_ns :: "string \<Rightarrow> hdfs_error + file_status list" where
  "test_ns d =
     (if d = ''/data'' then
        Inr [test_status ''/data/b'' True, test_status ''/data/b.txt'' False, test_status ''/data/x'' True]
      else if d = ''/data/b'' then Inr [test_status ''/data/b/2'' False, test_status ''/data/b/1'' False]
      else if d = ''/data/x'' then Inl (RPCError ''AccessControlException'' ''denied'')
      else Inl (FileNotFound d))"

definition test_up :: "(unit, unit) upstream" where
  "test_up =
     \<lparr>get_file_info = (\<lambda>w p. (Inl (FileNotFound p), w)), list_status = (\<lambda>w d r. (test_ns d, w)),
      read_file = (\<lambda>w p. (Inl (FileNotFound p), w)), file_length = (\<lambda>r. 0),
      read_range_stream = (\<lambda>w r a n. []), clock = (\<lambda>w. 0), wall_nanos = (\<lambda>w. 0)\<rparr>"

definition test_ops where
  "test_ops = \<lparr>metadata_ops = list_lru, negative_ops = list_lru, blocks_ops = list_lru, dirs_ops = list_lru\<rparr>"

definition test_state where
  "test_state = \<lparr>gs_caches = caches_new test_ops (cache_config_default\<lparr>enabled := True\<rparr>), gs_world = (), gs_seq = 0\<rparr>"

definition test_entry_of :: "string \<Rightarrow> list_entry" where
  "test_entry_of k = \<lparr>key = k, size = 7, modification_time = 42\<rparr>"

lemma test_lister_inv:
  "lister_inv test_ops test_up m (\<lambda>w. True) test_ns list_lru_valid fst snd test_state"
  unfolding test_state_def
  by (rule lister_inv_new)
     (simp_all add: test_ops_def list_ttl.ttl_lru_axioms static_upstream_def test_up_def cache_config_default_def)

theorem collect_page_flat_listing_witness:
  "\<exists>sl' st'.
    collect_page (hdfs_list_dir test_ops test_up (path_mapper_new data_config)) 2
      (sorted_listing_new (dir_path (path_mapper_new data_config) (dir_part [])) [] (Some ''b.txt'')
        (path_mapper_new data_config)) test_state =
    Some (Inr ([test_entry_of ''b/1'', test_entry_of ''b/2''], False), sl', st')"
proof -
  let ?t = "Node [test_entry_of ''b.txt''] [(''b'', Node [test_entry_of ''b/1'', test_entry_of ''b/2''] []),
     (''x'', Unlistable (RPCError ''AccessControlException'' ''denied''))]"
  have tree: "tree_at (path_mapper_new data_config) (ns_answer (path_mapper_new data_config) test_ns)
      (dir_part []) ?t" by code_simp
  have "take 2 (flat_listing ?t [] (Some ''b.txt'')) = [test_entry_of ''b/1'', test_entry_of ''b/2''] \<and>
      \<not> 2 < length (flat_listing ?t [] (Some ''b.txt''))" by code_simp
  with collect_page_flat_listing [OF test_lister_inv tree, of 2 "Some ''b.txt''"] show ?thesis by auto
qed

theorem collect_page_start_fails_witness:
  "\<exists>sl' st'.
    collect_page (hdfs_list_dir test_ops test_up (path_mapper_new data_config)) 2
      (sorted_listing_new ''/data/x'' [] None (path_mapper_new data_config)) test_state =
    Some (Inl (RPCError ''AccessControlException'' ''denied''), sl', st')"
proof -
  have "test_ns ''/data/x'' = Inl (RPCError ''AccessControlException'' ''denied'')" by code_simp
  from collect_page_start_fails [OF test_lister_inv this, of 2] show ?thesis by simp
qed

end
