(* ===== verification/Metadata.thy ===== *)
theory Metadata
  imports Gateway_Prelude
begin

text \<open>
  \<^verbatim>\<open>src/core/metadata.rs\<close>: the object metadata derived from an HDFS file status, and its
  ETag.  \<^verbatim>\<open>mime_guess\<close> is a parameter: \<open>mime_guess\<close> maps a file name to the first media type
  it suggests.
\<close>

unbundle bit_operations_syntax

section \<open>Definitions\<close>

type_synonym u8 = "8 word"

record object_metadata =
  path :: string
  length' :: u64
  is_dir :: bool
  modification_time :: u64
  checksum :: "u8 list option"

definition from_hdfs ::
  "string \<Rightarrow> u64 \<Rightarrow> bool \<Rightarrow> u64 \<Rightarrow> u8 list option \<Rightarrow> object_metadata" where
  "from_hdfs p l d t cs =
     \<lparr>path = p, length' = l, is_dir = d, modification_time = t, checksum = cs\<rparr>"

fun hex_encode :: "u8 list \<Rightarrow> string" where
  "hex_encode [] = []"
| "hex_encode (b # bs) =
     digit_char (unat (drop_bit 4 b)) # digit_char (unat (b AND 0xF)) # hex_encode bs"

definition fallback_etag :: "u64 \<Rightarrow> u64 \<Rightarrow> string" where
  "fallback_etag len mtime = ''hdfs-'' @ fmt_hex (unat len) @ ''-'' @ fmt_hex (unat mtime)"

definition etag :: "object_metadata \<Rightarrow> string" where
  "etag m =
     (case checksum m of
        Some bytes \<Rightarrow> hex_encode bytes
      | None \<Rightarrow> fallback_etag (length' m) (modification_time m))"

definition content_type :: "(string \<Rightarrow> string option) \<Rightarrow> object_metadata \<Rightarrow> string" where
  "content_type mime_guess m =
     (let name = last (split_on slash (path m))
      in case mime_guess name of Some t \<Rightarrow> t | None \<Rightarrow> ''application/octet-stream'')"

section \<open>Properties\<close>

lemma nibbles: "unat (drop_bit 4 (b :: u8)) < 16" "unat (b AND 0xF) < 16"
  "unat b = 16 * unat (drop_bit 4 b) + unat (b AND 0xF)"
proof -
  have low: "unat (b AND 0xF) = unat b mod 16"
  proof -
    have "b AND 0xF = take_bit 4 b" by (simp add: take_bit_eq_mask mask_eq_exp_minus_1)
    then have "unat (b AND 0xF) = take_bit 4 (unat b)" by (simp only: unsigned_take_bit_eq)
    then show ?thesis by (simp add: take_bit_eq_mod)
  qed
  have high: "unat (drop_bit 4 b) = unat b div 16"
    by (simp add: drop_bit_eq_div unat_div_distrib)
  show "unat (b AND 0xF) < 16" by (simp add: low)
  show "unat (drop_bit 4 b) < 16" using unsigned_less [of b, where ?'a = nat] by (simp add: high)
  show "unat b = 16 * unat (drop_bit 4 b) + unat (b AND 0xF)" by (simp add: low high)
qed

lemma hex_encode_inj: "hex_encode xs = hex_encode ys \<Longrightarrow> xs = ys"
proof (induction xs arbitrary: ys)
  case Nil
  then show ?case by (cases ys) auto
next
  case (Cons x xs)
  then obtain y ys' where ys: "ys = y # ys'" by (cases ys) auto
  with Cons.prems have "unat (drop_bit 4 x) = unat (drop_bit 4 y)" "unat (x AND 0xF) = unat (y AND 0xF)"
    by (auto intro: digit_char_inj nibbles)
  then have "unat x = unat y" using nibbles(3) [of x] nibbles(3) [of y] by presburger
  then have "x = y" by (simp add: word_eq_iff_unsigned [where ?'a = nat])
  with Cons ys show ?case by simp
qed

lemma fmt_hex_no_dash: "CHR ''-'' \<notin> set (fmt_hex n)"
proof
  assume "CHR ''-'' \<in> set (fmt_hex n)"
  then obtain d where "d < 16" "digit_char d = CHR ''-''"
    using digits_radix_chars [of 16 "CHR ''-''" n] by auto
  moreover from \<open>d < 16\<close> have "digit_char d \<noteq> CHR ''-''" by (rule digit_char_neq) simp
  ultimately show False by blast
qed

lemma append_Cons_unique:
  "c \<notin> set xs \<Longrightarrow> c \<notin> set ys \<Longrightarrow> xs @ c # us = ys @ c # vs \<Longrightarrow> xs = ys \<and> us = vs"
proof (induction xs arbitrary: ys)
  case Nil
  then show ?case by (cases ys) auto
next
  case (Cons x xs)
  then show ?case by (cases ys) auto
qed

lemma fallback_etag_inj: "fallback_etag l t = fallback_etag l' t' \<longleftrightarrow> l = l' \<and> t = t'"
proof
  assume "fallback_etag l t = fallback_etag l' t'"
  then have "fmt_hex (unat l) = fmt_hex (unat l') \<and> fmt_hex (unat t) = fmt_hex (unat t')"
    using append_Cons_unique [OF fmt_hex_no_dash fmt_hex_no_dash] by (simp add: fallback_etag_def)
  then have "unat l = unat l'" "unat t = unat t'" by (auto intro: digits_radix_inj [of 16])
  then show "l = l' \<and> t = t'" by (simp add: word_eq_iff_unsigned [where ?'a = nat])
qed simp

lemma hex_encode_head: "hex_encode bs = c # cs \<Longrightarrow> c \<noteq> CHR ''h''"
proof (cases bs)
  case (Cons b bs')
  assume "hex_encode bs = c # cs"
  with Cons have "c = digit_char (unat (drop_bit 4 b))" by simp
  then show ?thesis using digit_char_neq [OF nibbles(1) [of b], of "CHR ''h''"] by auto
qed simp

text \<open>
  Claim C37: the ETag identifies what it is derived from.  Two objects have the same ETag exactly
  when both have a checksum and the checksums are equal, or neither has and their lengths and
  modification times are equal; a checksum ETag never coincides with a fallback one.
\<close>

theorem etag_identifies:
  "etag m = etag m' \<longleftrightarrow>
     checksum m = checksum m' \<and>
     (case checksum m of
        Some _ \<Rightarrow> True
      | None \<Rightarrow> length' m = length' m' \<and> modification_time m = modification_time m')"
proof -
  have neq: "hex_encode bs \<noteq> fallback_etag l t" for bs l t
  proof
    assume "hex_encode bs = fallback_etag l t"
    then have "hex_encode bs = CHR ''h'' # ''dfs-'' @ fmt_hex (unat l) @ ''-'' @ fmt_hex (unat t)"
      by (simp add: fallback_etag_def)
    from hex_encode_head [OF this] show False by simp
  qed
  show ?thesis
    by (cases "checksum m"; cases "checksum m'")
       (auto simp: etag_def fallback_etag_inj neq neq [symmetric] dest: hex_encode_inj)
qed

end
