(* ===== verification/Ranges.thy ===== *)
theory Ranges
  imports Gateway_Prelude
begin

text \<open>
  \<^verbatim>\<open>src/core/range.rs\<close>: byte ranges resolved against a file length.  The arithmetic is on
  \<^verbatim>\<open>u64\<close> words, whose \<open>+\<close> and \<open>-\<close> wrap; the properties state the result on the natural
  numbers the words stand for, so they include that nothing wraps.
\<close>

section \<open>Definitions\<close>

datatype byte_range =
    From u64
  | Inclusive u64 u64
  | Suffix u64

fun resolve_range :: "u64 \<Rightarrow> byte_range \<Rightarrow> (u64 \<times> u64) option" where
  "resolve_range file_len (From first) =
     (if first \<ge> file_len then None else Some (first, file_len))"
| "resolve_range file_len (Inclusive first last0) =
     (if first \<ge> file_len then None
      else let last' = min last0 (file_len - 1)
           in if first > last' then None else Some (first, last' + 1))"
| "resolve_range file_len (Suffix length0) =
     (if length0 = 0 then None
      else let length' = min length0 file_len
           in if length' = 0 then None else Some (file_len - length', file_len))"

text \<open>The byte positions a range asks for, in a file of \<open>n\<close> bytes (RFC 9110).\<close>

fun requested :: "nat \<Rightarrow> byte_range \<Rightarrow> nat set" where
  "requested n (From first) = {i. unat first \<le> i}"
| "requested n (Inclusive first last') = {i. unat first \<le> i \<and> i \<le> unat last'}"
| "requested n (Suffix len) = {i. n - unat len \<le> i}"

section \<open>Properties\<close>

lemma unat_pred: "0 < (n :: u64) \<Longrightarrow> unat (n - 1) = unat n - 1"
  by (simp add: unat_minus_one word_gt_0)

lemma unat_succ_below: "(m :: u64) < n \<Longrightarrow> unat (m + 1) = unat m + 1"
  using unsigned_less [of n, where ?'a = nat] by (simp add: unat_word_ariths word_less_nat_alt)

lemma unat_min: "unat (min (a :: u64) b) = min (unat a) (unat b)"
  by (simp add: min_def word_le_nat_alt)

lemma resolve_inclusive_window:
  assumes "(first :: u64) < n" "first \<le> min l (n - 1)"
  shows "unat (min l (n - 1) + 1) = min (unat l) (unat n - 1) + 1"
proof -
  have "0 < n" using assms(1) by (metis word_gt_0 word_not_simps(1))
  then have "unat (n - 1) < unat n" using unat_pred [of n] by (simp add: word_less_nat_alt)
  then have "min l (n - 1) < n" by (auto simp: word_less_nat_alt word_le_nat_alt min_def)
  from unat_succ_below [OF this] show ?thesis
    using \<open>0 < n\<close> by (simp add: unat_min unat_pred)
qed

lemma resolve_range_spec:
  "case resolve_range n r of
     None \<Rightarrow> requested (unat n) r \<inter> {..< unat n} = {}
   | Some (s, e) \<Rightarrow> unat s < unat e \<and> unat e \<le> unat n \<and>
                     {unat s ..< unat e} = requested (unat n) r \<inter> {..< unat n}"
proof (cases r)
  case (From first)
  then show ?thesis by (auto simp: word_le_nat_alt)
next
  case (Inclusive first l)
  show ?thesis
  proof (cases "first < n \<and> first \<le> min l (n - 1)")
    case True
    then have n: "0 < n" by (metis word_gt_0 word_not_simps(1))
    from True have "unat first \<le> min (unat l) (unat n - 1)"
      using n by (metis unat_min unat_pred word_le_nat_alt)
    moreover have "0 < unat n" using n by (simp add: unat_gt_0 word_gt_0)
    moreover have "resolve_range n r = Some (first, min l (n - 1) + 1)"
      using True Inclusive by (simp add: Let_def not_le not_less)
    ultimately show ?thesis
      using Inclusive resolve_inclusive_window [of first n l] True by auto
  next
    case False
    then have none: "resolve_range n r = None"
      using Inclusive by (auto simp: Let_def not_le not_less)
    have "unat n \<le> unat first \<or> min (unat l) (unat n - 1) < unat first"
      using False unat_pred [of n] unat_min [of l "n - 1"]
      by (metis linorder_not_le word_le_nat_alt word_gt_0 unat_0 not_less_zero)
    with none Inclusive show ?thesis by auto
  qed
next
  case (Suffix len)
  show ?thesis
  proof (cases "len = 0 \<or> n = 0")
    case True
    with Suffix show ?thesis by (auto simp: Let_def min_def)
  next
    case False
    then have pos: "0 < unat len" "0 < unat n" by (simp_all add: unat_gt_0)
    have "unat (n - min len n) = unat n - min (unat len) (unat n)"
      by (metis min.cobounded2 unat_min unat_sub)
    moreover have "min len n \<noteq> 0" using False by (simp add: min_def)
    ultimately show ?thesis using Suffix False pos by (auto simp: Let_def)
  qed
qed

text \<open>
  Claim C11: \<open>resolve_range\<close> is exact.  A window it returns is non-empty, lies in the file and
  holds precisely the requested byte positions that exist; when it returns none, the range asks
  for no byte of the file.  The word arithmetic (\<open>last + 1\<close>, \<open>file_len - 1\<close>,
  \<open>file_len - length\<close>) never wraps.
\<close>

theorem resolve_range_exact:
  "case resolve_range n r of
     None \<Rightarrow> requested (unat n) r \<inter> {..< unat n} = {}
   | Some (s, e) \<Rightarrow> unat s < unat e \<and> unat e \<le> unat n \<and>
                     {unat s ..< unat e} = requested (unat n) r \<inter> {..< unat n}"
  by (rule resolve_range_spec)

end
