(* ===== verification/Gateway.thy ===== *)
theory Gateway
  imports Gateway_State Metadata Ranges
begin

text \<open>
  \<^verbatim>\<open>src/s3/mod.rs\<close> and \<^verbatim>\<open>src/s3/write_policy.rs\<close>: the S3 operations.

  A handler is a function of the state that returns a response or an error together with the new
  state.  Functions of third-party crates are the record \<open>ext\<close>.  Requests and responses have the
  fields the handlers read and set.  Log lines are left out; the request id, which reaches the
  client, is not.
\<close>

section \<open>What the handlers take from other crates\<close>

datatype etag_value = Strong string | Weak string
datatype etag_condition = AnyETag | ETag etag_value

record externs =
  url_encode :: "string \<Rightarrow> string"
  url_decode :: "string \<Rightarrow> string option"
  std_decode :: "string \<Rightarrow> string option"
  mime_guess :: "string \<Rightarrow> string option"
  err_to_string :: "hdfs_error \<Rightarrow> string"
  header_value :: "string \<Rightarrow> string option"
  strong_cmp :: "etag_value \<Rightarrow> etag_value \<Rightarrow> bool"
  weak_cmp :: "etag_value \<Rightarrow> etag_value \<Rightarrow> bool"

section \<open>Request ids and responses\<close>

definition new_request_id ::
  "('r, 'w) upstream \<Rightarrow> ('w, 'lm, 'ln, 'lb, 'ld) gw_state \<Rightarrow> string \<times> ('w, 'lm, 'ln, 'lb, 'ld) gw_state" where
  "new_request_id up st =
     (fmt_hex (wall_nanos up (gs_world st) div 1000) @ ''-'' @ fmt_hex (unat (gs_seq st)),
      st\<lparr>gs_seq := gs_seq st + 1\<rparr>)"

record request_log =
  rl_op :: string
  rl_request_id :: string
  rl_hdfs_path :: "string option"
  rl_bytes_served :: u64
  rl_ok :: bool

definition request_log_new ::
  "('r, 'w) upstream \<Rightarrow> string \<Rightarrow> ('w, 'lm, 'ln, 'lb, 'ld) gw_state
     \<Rightarrow> request_log \<times> ('w, 'lm, 'ln, 'lb, 'ld) gw_state" where
  "request_log_new up op st =
     (case new_request_id up st of (rid, st') \<Rightarrow>
      (\<lparr>rl_op = op, rl_request_id = rid, rl_hdfs_path = None, rl_bytes_served = 0, rl_ok = False\<rparr>, st'))"

definition attach_error_request_id :: "externs \<Rightarrow> string \<Rightarrow> s3_error \<Rightarrow> s3_error" where
  "attach_error_request_id ext rid err =
     err\<lparr>request_id := Some rid,
         err_headers := (case header_value ext rid of
                           Some v \<Rightarrow> [(''x-amz-request-id'', v)] | None \<Rightarrow> []) @
                        [(''content-type'', ''application/xml'')]\<rparr>"

definition attach :: "externs \<Rightarrow> request_log \<Rightarrow> s3_error \<Rightarrow> s3_error" where
  "attach ext log err = attach_error_request_id ext (rl_request_id log) err"

definition finish :: "externs \<Rightarrow> request_log \<Rightarrow> s3_error + 'a \<Rightarrow> s3_error + 'a" where
  "finish ext log result = map_sum (attach ext log) id result"

record 'o s3_response =
  resp_output :: 'o
  resp_headers :: "(string \<times> string) list"

definition s3_response_new :: "'o \<Rightarrow> 'o s3_response" where
  "s3_response_new x = \<lparr>resp_output = x, resp_headers = []\<rparr>"

definition with_request_id ::
  "externs \<Rightarrow> 'o s3_response \<Rightarrow> request_log \<Rightarrow> 'o s3_response \<times> request_log" where
  "with_request_id ext resp log =
     ((case header_value ext (rl_request_id log) of
         Some v \<Rightarrow> resp\<lparr>resp_headers := (''x-amz-request-id'', v) # resp_headers resp\<rparr>
       | None \<Rightarrow> resp),
      log\<lparr>rl_ok := True\<rparr>)"

section \<open>The response body\<close>

datatype get_body_error = Upstream string | ShortRead nat nat

text \<open>
  \<^verbatim>\<open>bytes_stream\<close>: the items a consumer sees when it pulls until the end, from the upstream
  pulls (an error or bytes).
\<close>

fun bytes_stream :: "(string + string) list \<Rightarrow> nat \<Rightarrow> nat \<Rightarrow> (get_body_error + string) list" where
  "bytes_stream stream limit remaining =
     (if remaining = 0 then []
      else case stream of
        Inr bytes0 # rest \<Rightarrow>
          let bytes = (if length bytes0 > remaining then take remaining bytes0 else bytes0)
          in Inr bytes # bytes_stream rest limit (remaining - length bytes)
      | Inl e # rest \<Rightarrow> Inl (Upstream e) # bytes_stream rest limit remaining
      | [] \<Rightarrow> Inl (ShortRead limit (limit - remaining)) # bytes_stream [] limit 0)"

declare bytes_stream.simps [simp del]

text \<open>The upstream pulls such a consumer makes.\<close>

fun upstream_pulls :: "(string + string) list \<Rightarrow> nat \<Rightarrow> (string + string) list" where
  "upstream_pulls [] remaining = []"
| "upstream_pulls (Inr bytes # rest) remaining =
     (if remaining = 0 then [] else Inr bytes # upstream_pulls rest (remaining - min (length bytes) remaining))"
| "upstream_pulls (Inl e # rest) remaining =
     (if remaining = 0 then [] else Inl e # upstream_pulls rest remaining)"

section \<open>The gateway\<close>

record gateway =
  gw_mapper :: path_mapper
  gw_config :: config

definition gateway_new :: "config \<Rightarrow> gateway" where
  "gateway_new config = \<lparr>gw_mapper = path_mapper_new config, gw_config = config\<rparr>"

abbreviation err_resp where
  "err_resp ext log c \<equiv> Inl (attach ext log (s3_error_new c))"

abbreviation upstream_err where
  "upstream_err ext gw log e \<equiv>
     Inl (attach ext log (map_hdfs_error (err_to_string ext) e (expose_upstream_errors (gw_config gw))))"

definition file_meta_of ::
  "('r, 'lm, 'ln, 'lb, 'ld) cache_ops \<Rightarrow> ('r, 'w) upstream \<Rightarrow> externs \<Rightarrow> gateway \<Rightarrow> request_log \<Rightarrow> string
     \<Rightarrow> ('w, 'lm, 'ln, 'lb, 'ld) gw_state \<Rightarrow> (s3_error + file_meta) \<times> ('w, 'lm, 'ln, 'lb, 'ld) gw_state" where
  "file_meta_of ops up ext gw log hdfs_path st =
     (case ttl_get (metadata_ops ops) (clock up (gs_world st)) (metadata (gs_caches st)) hdfs_path of
        (hit, mc) \<Rightarrow>
        let st1 = st\<lparr>gs_caches := (gs_caches st)\<lparr>metadata := mc\<rparr>\<rparr> in
        case hit of
          Some meta \<Rightarrow> (Inr meta, st1)
        | None \<Rightarrow>
            (case ttl_get (negative_ops ops) (clock up (gs_world st1)) (negative (gs_caches st1)) hdfs_path of
               (neg, nc) \<Rightarrow>
               let st2 = st1\<lparr>gs_caches := (gs_caches st1)\<lparr>negative := nc\<rparr>\<rparr> in
               if neg \<noteq> None then (err_resp ext log NoSuchKey, st2)
               else case get_file_info up (gs_world st2) hdfs_path of
                 (Inr status, w) \<Rightarrow>
                   let meta = \<lparr>fm_length = fs_length status, fm_isdir = fs_isdir status, fm_mtime = fs_mtime status\<rparr>
                   in (Inr meta,
                       st2\<lparr>gs_world := w, gs_caches := (gs_caches st2)\<lparr>metadata :=
                          ttl_insert (metadata_ops ops) (clock up w) (metadata (gs_caches st2)) hdfs_path meta 1\<rparr>\<rparr>)
               | (Inl e, w) \<Rightarrow>
                   if is_file_not_found e
                   then (err_resp ext log NoSuchKey,
                         st2\<lparr>gs_world := w, gs_caches := (gs_caches st2)\<lparr>negative :=
                            ttl_insert (negative_ops ops) (clock up w) (negative (gs_caches st2)) hdfs_path () 1\<rparr>\<rparr>)
                   else (upstream_err ext gw log e, st2\<lparr>gs_world := w\<rparr>)))"

definition open_reader ::
  "('r, 'lm, 'ln, 'lb, 'ld) cache_ops \<Rightarrow> ('r, 'w) upstream \<Rightarrow> externs \<Rightarrow> gateway \<Rightarrow> request_log \<Rightarrow> string
     \<Rightarrow> file_meta \<Rightarrow> ('w, 'lm, 'ln, 'lb, 'ld) gw_state
     \<Rightarrow> (s3_error + 'r) \<times> ('w, 'lm, 'ln, 'lb, 'ld) gw_state" where
  "open_reader ops up ext gw log hdfs_path meta st =
     (case ttl_get (blocks_ops ops) (clock up (gs_world st)) (blocks_cache (gs_caches st)) hdfs_path of
        (hit, bc) \<Rightarrow>
        let st1 = st\<lparr>gs_caches := (gs_caches st)\<lparr>blocks_cache := bc\<rparr>\<rparr>;
            usable = (case hit of
                        Some cached \<Rightarrow> cr_length cached = fm_length meta \<and> cr_mtime cached = fm_mtime meta
                      | None \<Rightarrow> False)
        in if usable then (Inr (cr_reader (the hit)), st1)
           else
             let st2 = (if hit \<noteq> None
                        then st1\<lparr>gs_caches := (gs_caches st1)\<lparr>blocks_cache :=
                               ttl_remove (blocks_ops ops) (blocks_cache (gs_caches st1)) hdfs_path\<rparr>\<rparr>
                        else st1)
             in case read_file up (gs_world st2) hdfs_path of
                  (Inr reader, w) \<Rightarrow>
                    (Inr reader,
                     st2\<lparr>gs_world := w, gs_caches := (gs_caches st2)\<lparr>blocks_cache :=
                        ttl_insert (blocks_ops ops) (clock up w) (blocks_cache (gs_caches st2)) hdfs_path
                          \<lparr>cr_reader = reader, cr_length = fm_length meta, cr_mtime = fm_mtime meta\<rparr> 1\<rparr>\<rparr>)
                | (Inl e, w) \<Rightarrow>
                    (upstream_err ext gw log e,
                     st2\<lparr>gs_world := w, gs_caches := (gs_caches st2)\<lparr>metadata :=
                        ttl_remove (metadata_ops ops) (metadata (gs_caches st2)) hdfs_path\<rparr>\<rparr>))"

section \<open>Formatting and time\<close>

definition fmt_content_range :: "u64 \<Rightarrow> u64 \<Rightarrow> u64 \<Rightarrow> string" where
  "fmt_content_range start end_inclusive size' =
     ''bytes '' @ fmt_dec (unat start) @ ''-'' @ fmt_dec (unat end_inclusive) @ ''/'' @ fmt_dec (unat size')"

text \<open>A timestamp is its distance from the epoch in nanoseconds.\<close>

type_synonym timestamp = int

definition millis_to_timestamp :: "u64 \<Rightarrow> timestamp" where
  "millis_to_timestamp millis =
     (let secs = millis div 1000; nanos = (millis mod 1000) * 1000000
      in uint secs * 1000000000 + uint nanos)"

section \<open>HeadObject\<close>

record object_input =
  in_bucket :: string
  in_key :: string
  if_match :: "etag_condition option"
  if_unmodified_since :: "timestamp option"
  if_none_match :: "etag_condition option"
  if_modified_since :: "timestamp option"

text \<open>The conditional headers, the same in both handlers: the error code, if a condition stops
  the request.\<close>

definition check_conditions :: "externs \<Rightarrow> 'z object_input_scheme \<Rightarrow> etag_value \<Rightarrow> timestamp \<Rightarrow> s3_code option" where
  "check_conditions ext input tag last_modified =
     (if (case if_match input of
            Some AnyETag \<Rightarrow> False
          | Some (ETag other) \<Rightarrow> \<not> strong_cmp ext tag other
          | None \<Rightarrow> False) then Some PreconditionFailed
      else if (case if_unmodified_since input of Some since \<Rightarrow> last_modified > since | None \<Rightarrow> False)
        then Some PreconditionFailed
      else if (case if_none_match input of
            Some AnyETag \<Rightarrow> True
          | Some (ETag other) \<Rightarrow> weak_cmp ext tag other
          | None \<Rightarrow> False) then Some NotModified
      else if (case if_modified_since input of Some since \<Rightarrow> last_modified \<le> since | None \<Rightarrow> False)
        then Some NotModified
      else None)"

record object_head =
  accept_ranges :: string
  content_length :: int
  o_content_type :: string
  last_modified :: timestamp
  e_tag :: etag_value

text \<open>What the handler answers once it has the metadata.\<close>

definition head_reply ::
  "externs \<Rightarrow> request_log \<Rightarrow> 'z object_input_scheme \<Rightarrow> string \<Rightarrow> file_meta \<Rightarrow> s3_error + object_head s3_response" where
  "head_reply ext log input hdfs_path status =
     (if fm_isdir status then err_resp ext log NoSuchKey
      else
        let meta = from_hdfs hdfs_path (fm_length status) (fm_isdir status) (fm_mtime status) None;
            tag = Strong (etag meta);
            modified = millis_to_timestamp (fm_mtime status)
        in case check_conditions ext input tag modified of
             Some c \<Rightarrow> err_resp ext log c
           | None \<Rightarrow>
               Inr (fst (with_request_id ext (s3_response_new
                  \<lparr>accept_ranges = ''bytes'', content_length = sint (fm_length status),
                   o_content_type = content_type (mime_guess ext) meta,
                   last_modified = modified, e_tag = tag\<rparr>) log)))"

definition head_object where
  "head_object ops up ext gw input st0 =
     (case request_log_new up ''HeadObject'' st0 of (log, st) \<Rightarrow>
      if in_bucket input \<noteq> bucket (gw_mapper gw) then (err_resp ext log NoSuchBucket, st)
      else case key_to_hdfs_path (gw_mapper gw) (in_key input) of
        None \<Rightarrow> (err_resp ext log NoSuchKey, st)
      | Some hdfs_path \<Rightarrow>
          let log = log\<lparr>rl_hdfs_path := Some hdfs_path\<rparr> in
          (case file_meta_of ops up ext gw log hdfs_path st of
             (Inl e, st1) \<Rightarrow> (Inl e, st1)
           | (Inr status, st1) \<Rightarrow> (head_reply ext log input hdfs_path status, st1)))"

section \<open>GetObject\<close>

datatype s3_range = RangeInt u64 "u64 option" | RangeSuffix u64

record get_object_input = object_input +
  in_range :: "s3_range option"

text \<open>The body is the stream of results a consumer sees; \<open>upstream_stream\<close> is what feeds it.\<close>

record object_get = object_head +
  content_range :: "string option"
  body :: "(get_body_error + string) list"
  upstream_stream :: "(string + string) list"
  body_length :: nat

fun byte_range_of :: "s3_range \<Rightarrow> byte_range" where
  "byte_range_of (RangeInt first (Some last')) = Inclusive first last'"
| "byte_range_of (RangeInt first None) = From first"
| "byte_range_of (RangeSuffix len) = Suffix len"

text \<open>The window of a request: start, end (exclusive), content length and content range.\<close>

definition resolve_window ::
  "u64 \<Rightarrow> s3_range option \<Rightarrow> (u64 \<times> u64 \<times> u64 \<times> string option) option" where
  "resolve_window file_len rng =
     (case rng of
        None \<Rightarrow> Some (0, file_len, file_len, None)
      | Some r \<Rightarrow>
          (case resolve_range file_len (byte_range_of r) of
             None \<Rightarrow> None
           | Some (s, e) \<Rightarrow> Some (s, e, e - s, Some (fmt_content_range s (e - 1) file_len))))"

text \<open>\<^verbatim>\<open>usize::try_from(u64)\<close> on a 64-bit target.\<close>

definition usize_try_from :: "u64 \<Rightarrow> usize option" where
  "usize_try_from n = Some n"

definition forget_object ::
  "('r, 'lm, 'ln, 'lb, 'ld) cache_ops \<Rightarrow> string \<Rightarrow> ('w, 'lm, 'ln, 'lb, 'ld) gw_state
     \<Rightarrow> ('w, 'lm, 'ln, 'lb, 'ld) gw_state" where
  "forget_object ops hdfs_path st =
     st\<lparr>gs_caches := (gs_caches st)\<lparr>
        blocks_cache := ttl_remove (blocks_ops ops) (blocks_cache (gs_caches st)) hdfs_path,
        metadata := ttl_remove (metadata_ops ops) (metadata (gs_caches st)) hdfs_path\<rparr>\<rparr>"

text \<open>The window to read, once the handler has the metadata: start, end, content length and range.\<close>

definition get_plan ::
  "externs \<Rightarrow> request_log \<Rightarrow> get_object_input \<Rightarrow> string \<Rightarrow> file_meta
     \<Rightarrow> s3_error + (usize \<times> usize \<times> u64 \<times> string option)" where
  "get_plan ext log input hdfs_path status =
     (if fm_isdir status then err_resp ext log NoSuchKey
      else
        let file_len = fm_length status;
            modified = millis_to_timestamp (fm_mtime status);
            meta = from_hdfs hdfs_path file_len (fm_isdir status) (fm_mtime status) None;
            tag = Strong (etag meta)
        in case check_conditions ext input tag modified of
             Some c \<Rightarrow> err_resp ext log c
           | None \<Rightarrow>
               (case resolve_window file_len (in_range input) of
                  None \<Rightarrow> err_resp ext log InvalidRange
                | Some (start, end_exclusive, len, cr) \<Rightarrow>
                    (case (usize_try_from start, usize_try_from end_exclusive) of
                       (Some window_start, Some window_end) \<Rightarrow> Inr (window_start, window_end, len, cr)
                     | _ \<Rightarrow> err_resp ext log InvalidRange)))"

text \<open>The answer that streams the window from an open reader.\<close>

definition get_reply ::
  "('r, 'w) upstream \<Rightarrow> externs \<Rightarrow> request_log \<Rightarrow> string \<Rightarrow> file_meta \<Rightarrow> usize \<times> usize \<times> u64 \<times> string option
     \<Rightarrow> 'r \<Rightarrow> 'w \<Rightarrow> object_get s3_response" where
  "get_reply up ext log hdfs_path status window reader w =
     (case window of (window_start, window_end, len, cr) \<Rightarrow>
      let remaining = window_end - window_start;
          stream = read_range_stream up w reader window_start remaining;
          meta = from_hdfs hdfs_path (fm_length status) (fm_isdir status) (fm_mtime status) None
      in fst (with_request_id ext (s3_response_new
           \<lparr>accept_ranges = ''bytes'', content_length = sint len,
            o_content_type = content_type (mime_guess ext) meta,
            last_modified = millis_to_timestamp (fm_mtime status), e_tag = Strong (etag meta),
            content_range = cr,
            body = bytes_stream stream (unat remaining) (unat remaining),
            upstream_stream = stream, body_length = unat remaining\<rparr>) log))"

definition get_object where
  "get_object ops up ext gw input st0 =
     (case request_log_new up ''GetObject'' st0 of (log, st) \<Rightarrow>
      if in_bucket input \<noteq> bucket (gw_mapper gw) then (err_resp ext log NoSuchBucket, st)
      else case key_to_hdfs_path (gw_mapper gw) (in_key input) of
        None \<Rightarrow> (err_resp ext log NoSuchKey, st)
      | Some hdfs_path \<Rightarrow>
          let log = log\<lparr>rl_hdfs_path := Some hdfs_path\<rparr> in
          (case file_meta_of ops up ext gw log hdfs_path st of
             (Inl e, st1) \<Rightarrow> (Inl e, st1)
           | (Inr status, st1) \<Rightarrow>
               (case get_plan ext log input hdfs_path status of
                  Inl e \<Rightarrow> (Inl e, st1)
                | Inr (window_start, window_end, len, cr) \<Rightarrow>
                    (case open_reader ops up ext gw log hdfs_path status st1 of
                       (Inl e, st2) \<Rightarrow> (Inl e, st2)
                     | (Inr reader, st2) \<Rightarrow>
                         if window_end > file_length up reader
                         then (err_resp ext log InternalError, forget_object ops hdfs_path st2)
                         else (Inr (get_reply up ext log hdfs_path status (window_start, window_end, len, cr) reader (gs_world st2)), st2)))))"

text \<open>What the body does to the caches while it is consumed: every failed pull drops the object.\<close>

definition consume_body ::
  "('r, 'lm, 'ln, 'lb, 'ld) cache_ops \<Rightarrow> string \<Rightarrow> (string + string) list \<Rightarrow> nat
     \<Rightarrow> ('w, 'lm, 'ln, 'lb, 'ld) gw_state \<Rightarrow> ('w, 'lm, 'ln, 'lb, 'ld) gw_state" where
  "consume_body ops hdfs_path stream remaining st =
     fold (\<lambda>pull st. case pull of Inl e \<Rightarrow> forget_object ops hdfs_path st | Inr bytes \<Rightarrow> st)
       (upstream_pulls stream remaining) st"

section \<open>ListObjectsV2\<close>

record list_input =
  li_bucket :: string
  li_prefix :: "string option"
  li_delimiter :: "string option"
  li_max_keys :: "int option"
  li_continuation_token :: "string option"
  li_start_after :: "string option"

definition usize_max :: nat where
  "usize_max = 2 ^ 64 - 1"

text \<open>
  The three listing strategies, over any lister.  The delimiter is already normalised; \<open>None\<close> as the result is a
  merge that does not return.
\<close>

definition list_page ::
  "'s lister \<Rightarrow> path_mapper \<Rightarrow> string \<Rightarrow> string option \<Rightarrow> string option \<Rightarrow> nat \<Rightarrow> 's
     \<Rightarrow> ((hdfs_error + page) \<times> 's) option" where
  "list_page list_dir m pre delimiter start_after max_keys st =
     (if delimiter = Some ''/'' then
        let answer = (case list_start m pre of
                        None \<Rightarrow> (Inr dir_listing_default, st)
                      | Some hdfs_start \<Rightarrow>
                          (case list_dir st hdfs_start of
                             (Inr listing, st') \<Rightarrow> (Inr listing, st')
                           | (Inl e, st') \<Rightarrow>
                               if is_file_not_found e then (Inr dir_listing_default, st') else (Inl e, st')))
        in Some (case answer of
                   (Inl e, st') \<Rightarrow> (Inl e, st')
                 | (Inr listing, st') \<Rightarrow>
                     (Inr (paginate_slash (files listing) (dirs listing) pre start_after max_keys), st'))
      else if delimiter \<noteq> None then
        (case (if max_keys = 0 then Some (Inr ([], False), st)
               else case list_start m pre of
                 None \<Rightarrow> Some (Inr ([], False), st)
               | Some hdfs_start \<Rightarrow>
                   map_option (\<lambda>(r, sl, st'). (r, st'))
                     (collect_page list_dir usize_max
                        (sorted_listing_new hdfs_start pre start_after m) st)) of
           None \<Rightarrow> None
         | Some (Inl e, st') \<Rightarrow> Some (Inl e, st')
         | Some (Inr (es, _), st') \<Rightarrow> Some (Inr (paginate es [] pre delimiter start_after max_keys), st'))
      else
        (case (case list_start m pre of
                 None \<Rightarrow> Some (Inr ([], False), st)
               | Some hdfs_start \<Rightarrow>
                   map_option (\<lambda>(r, sl, st'). (r, st'))
                     (collect_page list_dir max_keys
                        (sorted_listing_new hdfs_start pre start_after m) st)) of
           None \<Rightarrow> None
         | Some (Inl e, st') \<Rightarrow> Some (Inl e, st')
         | Some (Inr (es, truncated), st') \<Rightarrow>
             Some (Inr \<lparr>contents = es, common_prefixes = [], is_truncated = truncated,
                        next_token = (if truncated \<and> es \<noteq> [] then Some (key (last es)) else None)\<rparr>, st')))"

record s3_object =
  o_key :: string
  o_size :: int
  o_last_modified :: timestamp
  o_e_tag :: etag_value

record list_output =
  lo_name :: string
  lo_prefix :: "string option"
  lo_delimiter :: "string option"
  lo_max_keys :: int
  lo_is_truncated :: bool
  lo_contents :: "s3_object list option"
  lo_common_prefixes :: "string list option"
  lo_continuation_token :: "string option"
  lo_next_continuation_token :: "string option"
  lo_key_count :: int

definition object_of_entry :: "list_entry \<Rightarrow> s3_object" where
  "object_of_entry e =
     \<lparr>o_key = key e, o_size = sint (size e),
      o_last_modified = millis_to_timestamp (list_entry.modification_time e),
      o_e_tag = Strong (fallback_etag (size e) (list_entry.modification_time e))\<rparr>"

text \<open>\<^verbatim>\<open>usize as i32\<close>.\<close>

definition as_i32 :: "nat \<Rightarrow> int" where
  "as_i32 n = signed_take_bit 31 (int n)"

definition none_if_empty :: "'a list \<Rightarrow> 'a list option" where
  "none_if_empty xs = (if xs = [] then None else Some xs)"

text \<open>The response to a page.\<close>

definition list_reply ::
  "externs \<Rightarrow> gateway \<Rightarrow> request_log \<Rightarrow> list_input \<Rightarrow> nat \<Rightarrow> page \<Rightarrow> list_output s3_response" where
  "list_reply ext gw log input max_keys pg =
     fst (with_request_id ext (s3_response_new
       \<lparr>lo_name = bucket (gw_mapper gw), lo_prefix = li_prefix input,
        lo_delimiter = li_delimiter input, lo_max_keys = as_i32 max_keys,
        lo_is_truncated = (is_truncated pg \<and> next_token pg \<noteq> None),
        lo_contents = none_if_empty (map object_of_entry (contents pg)),
        lo_common_prefixes = none_if_empty (common_prefixes pg),
        lo_continuation_token = li_continuation_token input,
        lo_next_continuation_token = map_option (encode_token (url_encode ext)) (next_token pg),
        lo_key_count = as_i32 (length (contents pg) + length (common_prefixes pg))\<rparr>) log)"

text \<open>What is asked for: the prefix, the delimiter, the marker and the page size, or the client's mistake.\<close>

definition list_plan ::
  "externs \<Rightarrow> gateway \<Rightarrow> request_log \<Rightarrow> list_input \<Rightarrow> s3_error + string \<times> string option \<times> string option \<times> nat" where
  "list_plan ext gw log input =
     (if li_bucket input \<noteq> bucket (gw_mapper gw) then err_resp ext log NoSuchBucket
      else
        let pre = (case li_prefix input of Some p \<Rightarrow> p | None \<Rightarrow> []);
            delimiter = (case li_delimiter input of Some d \<Rightarrow> if d = [] then None else Some d | None \<Rightarrow> None)
        in if (case li_max_keys input of Some n \<Rightarrow> n < 0 | None \<Rightarrow> False)
           then Inl (attach ext log (with_message InvalidArgumentCode ''max-keys must not be negative''))
           else
             let max_keys = (case li_max_keys input of Some n \<Rightarrow> nat n | None \<Rightarrow> 1000)
             in case (case li_continuation_token input of
                        Some token \<Rightarrow>
                          (case decode_token (url_decode ext) (std_decode ext) token of
                             Some k \<Rightarrow> Inr (Some k) | None \<Rightarrow> Inl InvalidToken)
                      | None \<Rightarrow> Inr (li_start_after input)) of
                  Inl c \<Rightarrow> err_resp ext log c
                | Inr start_after \<Rightarrow> Inr (pre, delimiter, start_after, max_keys))"

text \<open>The handler after its request is logged.\<close>

definition list_resume ::
  "'s lister \<Rightarrow> externs \<Rightarrow> gateway \<Rightarrow> list_input \<Rightarrow> request_log \<Rightarrow> 's
     \<Rightarrow> ((s3_error + list_output s3_response) \<times> 's) option" where
  "list_resume list_dir ext gw input log st =
     (case list_plan ext gw log input of
        Inl e \<Rightarrow> Some (Inl e, st)
      | Inr (pre, delimiter, start_after, max_keys) \<Rightarrow>
          (case list_page list_dir (gw_mapper gw) pre delimiter start_after max_keys st of
             None \<Rightarrow> None
           | Some (Inl e, st') \<Rightarrow> Some (upstream_err ext gw log e, st')
           | Some (Inr pg, st') \<Rightarrow> Some (Inr (list_reply ext gw log input max_keys pg), st')))"

definition list_objects_v2 where
  "list_objects_v2 ops up ext gw input st0 =
     (case request_log_new up ''ListObjectsV2'' st0 of (log, st) \<Rightarrow>
      list_resume (hdfs_list_dir ops up (gw_mapper gw)) ext gw input log st)"

section \<open>Buckets, writes and probes\<close>

definition head_bucket where
  "head_bucket up ext gw b st0 =
     (case request_log_new up ''HeadBucket'' st0 of (log, st) \<Rightarrow>
      if b \<noteq> bucket (gw_mapper gw) then (err_resp ext log NoSuchBucket, st)
      else (Inr (fst (with_request_id ext (s3_response_new ()) log)), st))"

definition list_buckets where
  "list_buckets up ext gw st0 =
     (case request_log_new up ''ListBuckets'' st0 of (log, st) \<Rightarrow>
      (Inr (fst (with_request_id ext
         (s3_response_new [(bucket (gw_mapper gw), int (wall_nanos up (gs_world st)))]) log))
         :: s3_error + (string \<times> timestamp) list s3_response, st))"

definition write_denied :: s3_error where
  "write_denied = with_message AccessDenied ''this gateway is read-only; write operations are not supported''"

text \<open>The write-shaped operations differ in the name they log.\<close>

datatype write_op =
    PutObject | DeleteObject | DeleteObjects | CreateBucket | DeleteBucket | CopyObject
  | CreateMultipartUpload | UploadPart | CompleteMultipartUpload | AbortMultipartUpload
  | ListMultipartUploads | ListParts | RestoreObject

fun write_op_name :: "write_op \<Rightarrow> string" where
  "write_op_name PutObject = ''PutObject''"
| "write_op_name DeleteObject = ''DeleteObject''"
| "write_op_name DeleteObjects = ''DeleteObjects''"
| "write_op_name CreateBucket = ''CreateBucket''"
| "write_op_name DeleteBucket = ''DeleteBucket''"
| "write_op_name CopyObject = ''CopyObject''"
| "write_op_name CreateMultipartUpload = ''CreateMultipartUpload''"
| "write_op_name UploadPart = ''UploadPart''"
| "write_op_name CompleteMultipartUpload = ''CompleteMultipartUpload''"
| "write_op_name AbortMultipartUpload = ''AbortMultipartUpload''"
| "write_op_name ListMultipartUploads = ''ListMultipartUploads''"
| "write_op_name ListParts = ''ListParts''"
| "write_op_name RestoreObject = ''RestoreObject''"

definition write_operation where
  "write_operation up ext op st0 =
     (case request_log_new up (write_op_name op) st0 of (log, st) \<Rightarrow>
      (finish ext log (Inl write_denied) :: s3_error + unit, st))"

text \<open>The bucket probes answer \<open>not configured\<close>.\<close>

datatype probe_op = GetBucketVersioning | GetBucketTagging | GetBucketAcl | GetBucketCors

datatype probe_output = VersioningDefault | TaggingEmpty | AclDefault | CorsDefault

fun probe_response :: "probe_op \<Rightarrow> probe_output s3_response" where
  "probe_response GetBucketVersioning = s3_response_new VersioningDefault"
| "probe_response GetBucketTagging = s3_response_new TaggingEmpty"
| "probe_response GetBucketAcl = s3_response_new AclDefault"
| "probe_response GetBucketCors = s3_response_new CorsDefault"

fun probe_op_name :: "probe_op \<Rightarrow> string" where
  "probe_op_name GetBucketVersioning = ''GetBucketVersioning''"
| "probe_op_name GetBucketTagging = ''GetBucketTagging''"
| "probe_op_name GetBucketAcl = ''GetBucketAcl''"
| "probe_op_name GetBucketCors = ''GetBucketCors''"

definition probe_operation where
  "probe_operation up ext op st0 =
     (case request_log_new up (probe_op_name op) st0 of (log, st) \<Rightarrow>
      (Inr (fst (with_request_id ext (probe_response op) log)) :: s3_error + probe_output s3_response, st))"

section \<open>Instances\<close>

definition test_externs :: externs where
  "test_externs =
     \<lparr>url_encode = rev, url_decode = (\<lambda>t. Some (rev t)), std_decode = (\<lambda>t. None),
      mime_guess = (\<lambda>p. None), err_to_string = (\<lambda>e. ''error''), header_value = Some,
      strong_cmp = (\<lambda>a b. case (a, b) of (Strong x, Strong y) \<Rightarrow> x = y | _ \<Rightarrow> False),
      weak_cmp = (\<lambda>a b. (case a of Strong x \<Rightarrow> x | Weak x \<Rightarrow> x) = (case b of Strong y \<Rightarrow> y | Weak y \<Rightarrow> y))\<rparr>"

end
