(* ===== verification/Gateway_Listings.thy ===== *)
theory Gateway_Listings
  imports Gateway
begin

text \<open>
  What \<^verbatim>\<open>list_objects_v2\<close> answers on a namespace that does not change: every page is a window of
  one sorted listing, and a client that follows the continuation tokens sees all of it once.
\<close>

section \<open>The listing of a namespace\<close>

text \<open>
  What a client may see of a tree.  With delimiter \<open>/\<close> the direct children are enough; otherwise
  every file of the tree counts.
\<close>

fun namespace_outputs :: "dir_tree \<Rightarrow> string \<Rightarrow> string option \<Rightarrow> out_item list" where
  "namespace_outputs (Node fs ds) pre delimiter =
     (if delimiter = Some ''/'' then listing_outputs fs (map fst ds) pre delimiter
      else listing_outputs (tree_files (Node fs ds)) [] pre delimiter)"
| "namespace_outputs (Unlistable e) pre delimiter = []"

lemma file_output_le: "file_output pre delimiter e = Some x \<Longrightarrow> prefix pre (key e) \<and> out_key x \<le> key e"
  by (auto simp: file_output_def take_is_prefix prefix_le split: if_splits option.splits)

text \<open>Dropping the keys up to the marker before grouping loses nothing after the marker.\<close>

lemma resume_pushdown:
  assumes "distinct (map key es)"
  shows "resume_at after (listing_outputs (sort_key key (filter (wanted pre after) es)) [] pre delimiter) =
         resume_at after (listing_outputs es [] pre delimiter)"
proof (rule strictly_sorted_unique [where f = out_key])
  have "distinct (map key (filter (wanted pre after) es))" using assms by (rule distinct_map_filter)
  then have d: "distinct (map key (sort_key key (filter (wanted pre after) es)))"
    by (simp add: distinct_map)
  show "strictly_sorted out_key (resume_at after (listing_outputs (sort_key key (filter (wanted pre after) es)) [] pre delimiter))"
    by (rule strictly_sorted_filter [OF listing_outputs_sorted [OF d]])
  show "strictly_sorted out_key (resume_at after (listing_outputs es [] pre delimiter))"
    by (rule strictly_sorted_filter [OF listing_outputs_sorted [OF assms]])
  have "after_marker after (key e)" if "file_output pre delimiter e = Some x" "after_marker after (out_key x)" for e x
    using that file_output_le [OF that(1)] by (auto simp: after_marker_def split: option.splits)
  then show "set (resume_at after (listing_outputs (sort_key key (filter (wanted pre after) es)) [] pre delimiter)) =
        set (resume_at after (listing_outputs es [] pre delimiter))"
    using file_output_le by (fastforce simp: set_listing_outputs set_map_filter wanted_def map_filter_simps)
qed

lemma flat_listing_outputs:
  assumes "distinct (map key es)"
  shows "resume_at after (listing_outputs es [] pre None) =
         map Content (sort_key key (filter (wanted pre after) es))"
proof (rule strictly_sorted_unique [where f = out_key])
  show "strictly_sorted out_key (resume_at after (listing_outputs es [] pre None))"
    by (rule strictly_sorted_filter [OF listing_outputs_sorted [OF assms]])
  have "strictly_sorted key (sort_key key (filter (wanted pre after) es))"
    by (rule strictly_sorted_sort_key [OF distinct_map_filter [OF assms]])
  then show "strictly_sorted out_key (map Content (sort_key key (filter (wanted pre after) es)))"
    by (simp add: strictly_sorted_map comp_def)
  show "set (resume_at after (listing_outputs es [] pre None)) =
        set (map Content (sort_key key (filter (wanted pre after) es)))"
    by (auto simp: set_listing_outputs set_map_filter file_output_def wanted_def map_filter_simps
        split: if_splits)
qed

lemma page_of_contents:
  "page_of (map Content L) n =
     \<lparr>contents = take n L, common_prefixes = [], is_truncated = (0 < n \<and> n < length L),
      next_token = (if 0 < n \<and> n < length L then Some (key (last (take n L))) else None)\<rparr>"
  using last_take [of n L] by (auto simp: page_of_def take_map nth_map)

text \<open>Grouping what the merge returns after the marker is grouping the whole tree.\<close>

lemma paginate_flat_listing:
  assumes dist: "distinct (map key (tree_files (Node fs ds)))" and d: "d \<noteq> ''/''"
  shows "paginate (flat_listing (Node fs ds) pre after) [] pre (Some d) after n =
         page_of (resume_at after (namespace_outputs (Node fs ds) pre (Some d))) n"
proof -
  have "distinct (map key (flat_listing (Node fs ds) pre after))"
    unfolding flat_listing_def
    using strictly_sorted_sort_key [OF distinct_map_filter [OF dist]] by (simp only: strictly_sorted_iff)
  note win = paginate_window [OF this, of "[]" pre "Some d" after n]
  have "resume_at after (listing_outputs (flat_listing (Node fs ds) pre after) [] pre (Some d)) =
      resume_at after (listing_outputs (tree_files (Node fs ds)) [] pre (Some d))"
    unfolding flat_listing_def by (rule resume_pushdown [OF dist])
  moreover have "namespace_outputs (Node fs ds) pre (Some d) = listing_outputs (tree_files (Node fs ds)) [] pre (Some d)"
    unfolding namespace_outputs.simps using d by (simp del: tree_files.simps)
  ultimately show ?thesis unfolding win by (simp only:)
qed

text \<open>The three strategies, with any lister whose answers do not change.\<close>

context stable_lister begin

lemma list_page_slash:
  assumes inv: "inv st" and start: "list_start m pre = Some (dir_path m (dir_part pre))"
    and tree: "tree_at m answer (dir_part pre) (Node fs ds)"
  shows "\<exists>st'. list_page list_dir m pre (Some ''/'') after n st =
           Some (Inr (page_of (resume_at after (namespace_outputs (Node fs ds) pre (Some ''/''))) n), st') \<and> inv st'"
proof -
  have ch: "children_listing (dir_part pre) fs (map fst ds)" using tree by simp
  obtain r st' where call: "list_dir st (dir_path m (dir_part pre)) = (r, st')" by fastforce
  have "r = Inr \<lparr>files = fs, dirs = map fst ds\<rparr>" "inv st'"
    using stable [OF inv, of "dir_path m (dir_part pre)"] stable_inv [OF inv, of "dir_path m (dir_part pre)"]
      call tree by simp_all
  with start call show ?thesis
    by (simp add: list_page_def paginate_slash_window [OF children_sorted_streams [OF ch]] children_outputs [OF ch])
qed

lemma list_page_other:
  assumes wf: "wf_mapper m" and inv: "inv st"
    and start: "list_start m pre = Some (dir_path m (dir_part pre))"
    and tree: "tree_at m answer (dir_part pre) (Node fs ds)"
    and small: "length (tree_files (Node fs ds)) \<le> usize_max" and d: "d \<noteq> ''/''"
  shows "\<exists>st'. list_page list_dir m pre (Some d) after n st =
           Some (Inr (page_of (resume_at after (namespace_outputs (Node fs ds) pre (Some d))) n), st') \<and> inv st'"
proof (cases "n = 0")
  case True
  with d inv show ?thesis by (simp add: list_page_def paginate_def)
next
  case False
  let ?L = "flat_listing (Node fs ds) pre after"
  have len: "length ?L \<le> usize_max"
    using small length_filter_le [of "wanted pre after" "tree_files (Node fs ds)"] by (simp add: flat_listing_def)
  from collect_page_exact [OF wf tree inv, of usize_max after, unfolded take_all [OF len]] obtain sl' st' b where collect:
    "collect_page list_dir usize_max (sorted_listing_new (dir_path m (dir_part pre)) pre after m) st =
      Some (Inr (?L, b), sl', st')" and inv': "inv st'"
    by blast
  have "list_page list_dir m pre (Some d) after n st = Some (Inr (paginate ?L [] pre (Some d) after n), st')"
    unfolding list_page_def start option.case collect using d False by simp
  with inv' show ?thesis unfolding paginate_flat_listing [OF tree_files_distinct [OF tree] d] by simp
qed

lemma list_page_flat:
  assumes wf: "wf_mapper m" and inv: "inv st"
    and start: "list_start m pre = Some (dir_path m (dir_part pre))"
    and tree: "tree_at m answer (dir_part pre) (Node fs ds)"
  shows "\<exists>st'. list_page list_dir m pre None after n st =
           Some (Inr (page_of (resume_at after (namespace_outputs (Node fs ds) pre None)) n), st') \<and> inv st'"
proof -
  let ?L = "flat_listing (Node fs ds) pre after"
  from collect_page_exact [OF wf tree inv, of n after] obtain sl' st' where
    "collect_page list_dir n (sorted_listing_new (dir_path m (dir_part pre)) pre after m) st =
      Some (Inr (take n ?L, 0 < n \<and> n < length ?L), sl', st')" "inv st'"
    by blast
  moreover have "resume_at after (namespace_outputs (Node fs ds) pre None) = map Content ?L"
    using flat_listing_outputs [OF tree_files_distinct [OF tree]] by (simp add: flat_listing_def)
  ultimately show ?thesis using start by (auto simp: list_page_def page_of_contents)
qed

lemma list_page_window:
  assumes wf: "wf_mapper m" and inv: "inv st"
    and start: "list_start m pre = Some (dir_path m (dir_part pre))"
    and tree: "tree_at m answer (dir_part pre) (Node fs ds)"
    and small: "length (tree_files (Node fs ds)) \<le> usize_max"
  shows "\<exists>st'. list_page list_dir m pre delimiter after n st =
           Some (Inr (page_of (resume_at after (namespace_outputs (Node fs ds) pre delimiter)) n), st') \<and> inv st'"
proof -
  consider "delimiter = Some ''/''" | d where "delimiter = Some d" "d \<noteq> ''/''" | "delimiter = None"
    by (cases delimiter) auto
  then show ?thesis
    using list_page_slash [OF inv start tree] list_page_other [OF wf inv start tree small]
      list_page_flat [OF wf inv start tree]
    by cases (simp_all del: namespace_outputs.simps)
qed

end

section \<open>The handler\<close>

text \<open>What a request asks for: the page size and the key to resume after.\<close>

definition page_size :: "list_input \<Rightarrow> nat" where
  "page_size input = (case li_max_keys input of Some n \<Rightarrow> nat n | None \<Rightarrow> 1000)"

definition page_marker :: "externs \<Rightarrow> list_input \<Rightarrow> string option option" where
  "page_marker ext input =
     (case li_continuation_token input of
        Some token \<Rightarrow> map_option Some (decode_token (url_decode ext) (std_decode ext) token)
      | None \<Rightarrow> Some (li_start_after input))"

abbreviation page_prefix :: "list_input \<Rightarrow> string" where
  "page_prefix input \<equiv> (case li_prefix input of Some p \<Rightarrow> p | None \<Rightarrow> [])"

abbreviation page_delimiter :: "list_input \<Rightarrow> string option" where
  "page_delimiter input \<equiv>
     (case li_delimiter input of Some d \<Rightarrow> if d = [] then None else Some d | None \<Rightarrow> None)"

text \<open>A request for the right bucket whose page size is a non-negative \<^verbatim>\<open>i32\<close>.\<close>

definition valid_list_input :: "config \<Rightarrow> list_input \<Rightarrow> bool" where
  "valid_list_input c input \<longleftrightarrow>
     li_bucket input = bucket (path_mapper_new c) \<and>
     (case li_max_keys input of Some n \<Rightarrow> 0 \<le> n \<and> n < 2 ^ 31 | None \<Rightarrow> True)"

text \<open>The answer that carries a page.\<close>

definition page_response :: "externs \<Rightarrow> config \<Rightarrow> list_input \<Rightarrow> page \<Rightarrow> list_output" where
  "page_response ext c input pg =
     \<lparr>lo_name = bucket (path_mapper_new c), lo_prefix = li_prefix input, lo_delimiter = li_delimiter input,
      lo_max_keys = int (page_size input), lo_is_truncated = is_truncated pg,
      lo_contents = none_if_empty (map object_of_entry (contents pg)),
      lo_common_prefixes = none_if_empty (common_prefixes pg),
      lo_continuation_token = li_continuation_token input,
      lo_next_continuation_token = map_option (encode_token (url_encode ext)) (next_token pg),
      lo_key_count = int (length (contents pg) + length (common_prefixes pg))\<rparr>"

lemma lister_inv_seq [simp]:
  "lister_inv ops up m calm ns valid cap items (st\<lparr>gs_seq := k\<rparr>) =
   lister_inv ops up m calm ns valid cap items st"
  by (simp add: lister_inv_def)

lemma as_i32_small: "n < 2 ^ 31 \<Longrightarrow> as_i32 n = int n"
  by (simp add: as_i32_def signed_take_bit_int_eq_self)

lemma page_size_bound: "valid_list_input c input \<Longrightarrow> page_size input < 2 ^ 31"
  by (auto simp: valid_list_input_def page_size_def split: option.splits)

lemma length_map_filter_split:
  "length (List.map_filter content_of L) + length (List.map_filter prefix_of L) = length L"
proof (induction L)
  case (Cons x L)
  then show ?case by (cases x) (simp_all add: map_filter_simps)
qed (simp add: map_filter_simps)

lemma page_of_truncated: "is_truncated (page_of L n) \<longleftrightarrow> next_token (page_of L n) \<noteq> None"
  by (simp add: page_of_def)

lemma page_of_length:
  "length (contents (page_of L n)) + length (common_prefixes (page_of L n)) = min n (length L)"
  using length_map_filter_split [of "take n L"] by (simp add: page_of_def)

lemma list_plan_valid:
  assumes "valid_list_input c input" "page_marker ext input = Some after"
  shows "list_plan ext (gateway_new c) log input = Inr (page_prefix input, page_delimiter input, after, page_size input)"
  using assms by (auto simp: list_plan_def valid_list_input_def page_marker_def page_size_def gateway_new_def Let_def split: option.splits)

lemma list_reply_page:
  assumes "valid_list_input c input"
  shows "resp_output (list_reply ext (gateway_new c) log input (page_size input) (page_of outs (page_size input))) =
    page_response ext c input (page_of outs (page_size input))"
proof -
  let ?pg = "page_of outs (page_size input)"
  have i32: "as_i32 (length (contents ?pg) + length (common_prefixes ?pg)) = int (length (contents ?pg) + length (common_prefixes ?pg))"
      "as_i32 (page_size input) = int (page_size input)"
    using page_size_bound [OF assms] by (simp_all add: as_i32_small page_of_length)
  have out: "resp_output (fst (with_request_id ext (s3_response_new x) log)) = x" for x :: list_output
    by (simp add: with_request_id_def s3_response_new_def split: option.split)
  show ?thesis unfolding list_reply_def out page_response_def using i32
    by (simp add: page_of_truncated gateway_new_def)
qed

context stable_lister begin

lemma list_resume_window:
  assumes inv: "inv st"
    and tree: "tree_at (path_mapper_new c) answer (dir_part (page_prefix input)) (Node fs ds)"
    and start: "list_start (path_mapper_new c) (page_prefix input) =
      Some (dir_path (path_mapper_new c) (dir_part (page_prefix input)))"
    and small: "length (tree_files (Node fs ds)) \<le> usize_max"
    and req: "valid_list_input c input" "page_marker ext input = Some after"
  shows "\<exists>resp st'. list_resume list_dir ext (gateway_new c) input log st = Some (Inr resp, st') \<and>
    resp_output resp = page_response ext c input
      (page_of (resume_at after (namespace_outputs (Node fs ds) (page_prefix input) (page_delimiter input))) (page_size input)) \<and>
    inv st'"
proof -
  let ?pg = "page_of (resume_at after (namespace_outputs (Node fs ds) (page_prefix input) (page_delimiter input))) (page_size input)"
  have gw: "gw_mapper (gateway_new c) = path_mapper_new c" by (simp add: gateway_new_def)
  from list_page_window [OF path_mapper_new_wf inv start tree small] obtain st' where
    page: "list_page list_dir (path_mapper_new c) (page_prefix input) (page_delimiter input) after (page_size input) st =
      Some (Inr ?pg, st')" and inv': "inv st'" by blast
  have "list_resume list_dir ext (gateway_new c) input log st = Some (Inr (list_reply ext (gateway_new c) log input (page_size input) ?pg), st')"
    unfolding list_resume_def list_plan_valid [OF req] gw sum.case prod.case page option.case ..
  with inv' show ?thesis using list_reply_page [OF req(1)] by blast
qed

end

lemma list_objects_v2_window:
  assumes inv: "lister_inv ops up (path_mapper_new c) calm ns valid cap items st"
    and tree: "tree_at (path_mapper_new c) (ns_answer (path_mapper_new c) ns) (dir_part (page_prefix input)) (Node fs ds)"
    and start: "list_start (path_mapper_new c) (page_prefix input) =
      Some (dir_path (path_mapper_new c) (dir_part (page_prefix input)))"
    and small: "length (tree_files (Node fs ds)) \<le> usize_max"
    and req: "valid_list_input c input" "page_marker ext input = Some after"
  defines "pg \<equiv> page_of (resume_at after (namespace_outputs (Node fs ds) (page_prefix input) (page_delimiter input)))
      (page_size input)"
  shows "\<exists>resp st'. list_objects_v2 ops up ext (gateway_new c) input st = Some (Inr resp, st') \<and>
           resp_output resp = page_response ext c input pg \<and>
           lister_inv ops up (path_mapper_new c) calm ns valid cap items st'"
proof -
  obtain log where log: "request_log_new up ''ListObjectsV2'' st = (log, st\<lparr>gs_seq := gs_seq st + 1\<rparr>)"
    by (simp add: request_log_new_def new_request_id_def)
  have gw: "gw_mapper (gateway_new c) = path_mapper_new c" by (simp add: gateway_new_def)
  have "lister_inv ops up (path_mapper_new c) calm ns valid cap items (st\<lparr>gs_seq := gs_seq st + 1\<rparr>)" using inv by simp
  from cached.list_resume_window [OF this tree start small req] show ?thesis
    unfolding list_objects_v2_def log prod.case gw pg_def .
qed

section \<open>A client that follows the continuation tokens\<close>

text \<open>For at most \<open>fuel\<close> further requests; \<open>None\<close> when a request fails.\<close>

fun list_all_pages where
  "list_all_pages 0 ops up ext gw input st =
     (case list_objects_v2 ops up ext gw input st of
        Some (Inr resp, st') \<Rightarrow> Some ([resp_output resp], st') | _ \<Rightarrow> None)"
| "list_all_pages (Suc fuel) ops up ext gw input st =
     (case list_objects_v2 ops up ext gw input st of
        Some (Inr resp, st') \<Rightarrow>
          (case lo_next_continuation_token (resp_output resp) of
             None \<Rightarrow> Some ([resp_output resp], st')
           | Some t \<Rightarrow>
               (case list_all_pages fuel ops up ext gw (input\<lparr>li_continuation_token := Some t\<rparr>) st' of
                  Some (os, st'') \<Rightarrow> Some (resp_output resp # os, st'') | None \<Rightarrow> None))
      | _ \<Rightarrow> None)"

definition or_empty :: "'a list option \<Rightarrow> 'a list" where
  "or_empty xs = (case xs of Some ys \<Rightarrow> ys | None \<Rightarrow> [])"

lemma or_empty_none_if_empty [simp]: "or_empty (none_if_empty xs) = xs"
  by (simp add: or_empty_def none_if_empty_def)

lemma page_response_simps [simp]:
  "or_empty (lo_contents (page_response ext c input pg)) = map object_of_entry (contents pg)"
  "or_empty (lo_common_prefixes (page_response ext c input pg)) = common_prefixes pg"
  "lo_is_truncated (page_response ext c input pg) = is_truncated pg"
  "lo_next_continuation_token (page_response ext c input pg) =
     map_option (encode_token (url_encode ext)) (next_token pg)"
  by (simp_all add: page_response_def)

lemma request_with_token [simp]:
  "page_prefix (input\<lparr>li_continuation_token := t\<rparr>) = page_prefix input"
  "page_delimiter (input\<lparr>li_continuation_token := t\<rparr>) = page_delimiter input"
  "page_size (input\<lparr>li_continuation_token := t\<rparr>) = page_size input"
  "valid_list_input c (input\<lparr>li_continuation_token := t\<rparr>) = valid_list_input c input"
  by (simp_all add: page_size_def valid_list_input_def)

lemma page_of_token_mem: "next_token (page_of L n) = Some t \<Longrightarrow> \<exists>x \<in> set L. t = out_key x"
  by (auto simp: page_of_def split: if_splits)

interpretation namespace: page_source
  "\<lambda>(t, pre, delimiter) marker. page_of (resume_at marker (namespace_outputs t pre delimiter))"
  "\<lambda>(t, pre, delimiter). namespace_outputs t pre delimiter"
  "\<lambda>(t, pre, delimiter). strictly_sorted out_key (namespace_outputs t pre delimiter)"
  by unfold_locales auto

lemma list_all_pages_walk:
  assumes tree: "tree_at (path_mapper_new c) (ns_answer (path_mapper_new c) ns) (dir_part (page_prefix input)) (Node fs ds)"
    and start: "list_start (path_mapper_new c) (page_prefix input) =
      Some (dir_path (path_mapper_new c) (dir_part (page_prefix input)))"
    and small: "length (tree_files (Node fs ds)) \<le> usize_max"
    and req: "valid_list_input c input"
    and codec: "\<And>b. url_decode ext (url_encode ext b) = Some b"
    and utf8: "\<forall>x \<in> set (namespace_outputs (Node fs ds) (page_prefix input) (page_delimiter input)). valid_utf8 (out_key x)"
    and inv: "lister_inv ops up (path_mapper_new c) calm ns valid cap items st"
    and marker: "page_marker ext input = Some after"
  shows "\<exists>os st'. list_all_pages fuel ops up ext (gateway_new c) input st = Some (os, st') \<and>
     list_all2 (\<lambda>out pg. or_empty (lo_contents out) = map object_of_entry (contents pg) \<and>
         or_empty (lo_common_prefixes out) = common_prefixes pg \<and> lo_is_truncated out = is_truncated pg) os
       (walk_pages fuel (\<lambda>m. page_of (resume_at m (namespace_outputs (Node fs ds) (page_prefix input)
         (page_delimiter input))) (page_size input)) after)"
  using tree start req utf8 inv marker
proof (induction fuel arbitrary: input st after)
  case 0
  from list_objects_v2_window [OF "0.prems"(5,1,2) small "0.prems"(3,6)]
  obtain resp st' where "list_objects_v2 ops up ext (gateway_new c) input st = Some (Inr resp, st')"
    "resp_output resp = page_response ext c input (page_of (resume_at after (namespace_outputs (Node fs ds)
       (page_prefix input) (page_delimiter input))) (page_size input))" by blast
  then show ?case by (simp del: namespace_outputs.simps)
next
  case (Suc fuel)
  let ?outs = "namespace_outputs (Node fs ds) (page_prefix input) (page_delimiter input)"
  let ?pg = "page_of (resume_at after ?outs) (page_size input)"
  from list_objects_v2_window [OF Suc.prems(5,1,2) small Suc.prems(3,6)]
  obtain resp st' where call: "list_objects_v2 ops up ext (gateway_new c) input st = Some (Inr resp, st')"
    and resp: "resp_output resp = page_response ext c input ?pg"
    and inv': "lister_inv ops up (path_mapper_new c) calm ns valid cap items st'" by blast
  show ?case
  proof (cases "next_token ?pg")
    case None
    with call resp show ?thesis by (simp del: namespace_outputs.simps)
  next
    case (Some t)
    let ?input = "input\<lparr>li_continuation_token := Some (encode_token (url_encode ext) t)\<rparr>"
    from page_of_token_mem [OF Some] Suc.prems(4) have "valid_utf8 t" by auto
    then have marker: "page_marker ext ?input = Some (Some t)"
      using codec by (simp add: page_marker_def decode_token_def encode_token_def from_utf8_def)
    have "\<exists>os st''. list_all_pages fuel ops up ext (gateway_new c) ?input st' = Some (os, st'') \<and>
       list_all2 (\<lambda>out pg. or_empty (lo_contents out) = map object_of_entry (contents pg) \<and>
         or_empty (lo_common_prefixes out) = common_prefixes pg \<and> lo_is_truncated out = is_truncated pg) os
       (walk_pages fuel (\<lambda>m. page_of (resume_at m ?outs) (page_size input)) (Some t))"
      using Suc.IH [of ?input st' "Some t"] Suc.prems(1-4) inv' marker by (simp del: namespace_outputs.simps)
    with call resp Some show ?thesis by (auto simp del: namespace_outputs.simps)
  qed
qed

lemma list_all2_map_eq: "list_all2 R xs ys \<Longrightarrow> (\<And>x y. R x y \<Longrightarrow> f x = g y) \<Longrightarrow> map f xs = map g ys"
  by (induction rule: list_all2_induct) auto

lemma map_eq_last: "map f xs = map g ys \<Longrightarrow> ys \<noteq> [] \<Longrightarrow> f (last xs) = g (last ys)"
  by (metis last_map map_is_Nil_conv)

lemma namespace_outputs_sorted:
  assumes "tree_at m answer d (Node fs ds)"
  shows "strictly_sorted out_key (namespace_outputs (Node fs ds) pre delimiter)"
proof -
  have "distinct (map key fs)" using tree_files_distinct [OF assms] by simp
  with tree_files_distinct [OF assms] show ?thesis
    by (simp add: listing_outputs_sorted del: tree_files.simps)
qed

section \<open>The one-directory listing and the whole tree\<close>

text \<open>Whether the tree has a file below a common prefix.\<close>

definition shows_file :: "dir_tree \<Rightarrow> out_item \<Rightarrow> bool" where
  "shows_file t x = (case x of Content e \<Rightarrow> True | Prefix p \<Rightarrow> list_ex (\<lambda>e. prefix p (key e)) (tree_files t))"

lemma subtree_output:
  assumes tree: "tree_at m answer (dir_part pre) (Node fs ds)" and x: "x \<in> set ds"
    and e: "prefix (fst x @ ''/'') (key e)"
  shows "file_output pre (Some ''/'') e = (if prefix pre (key e) then Some (Prefix (fst x @ ''/'')) else None)"
    and "prefix pre (key e) = prefix pre (fst x @ ''/'')"
proof -
  have dir: "is_child (dir_part pre) (fst x)" using tree x by (auto simp: children_listing_def)
  from e obtain r where r: "key e = fst x @ slash # r" by (auto simp: prefix_def)
  show "file_output pre (Some ''/'') e = (if prefix pre (key e) then Some (Prefix (fst x @ ''/'')) else None)"
    by (rule file_output_below [OF dir r])
  show "prefix pre (key e) = prefix pre (fst x @ ''/'')"
  proof
    assume "prefix pre (key e)"
    then have "prefix pre (fst x)" using below_child_matches_prefix [OF dir, of r] r by simp
    then show "prefix pre (fst x @ ''/'')" by (rule prefix_prefix)
  next
    assume "prefix pre (fst x @ ''/'')"
    then show "prefix pre (key e)" using e by (rule prefix_order.order_trans)
  qed
qed

lemma in_slash_outputs:
  assumes "children_listing (dir_part pre) fs (map fst ds)"
  shows "y \<in> set (listing_outputs fs (map fst ds) pre (Some ''/'')) \<longleftrightarrow>
    (\<exists>f \<in> set fs. prefix pre (key f) \<and> y = Content f) \<or>
    (\<exists>x \<in> set ds. prefix pre (fst x @ ''/'') \<and> y = Prefix (fst x @ ''/''))"
proof -
  have "file_output pre (Some ''/'') f = (if prefix pre (key f) then Some (Content f) else None)" if "f \<in> set fs" for f
    using that assms by (simp add: children_listing_def child_file_output)
  moreover have "is_child (dir_part pre) (fst x)" if "x \<in> set ds" for x
    using that assms by (auto simp: children_listing_def)
  ultimately show ?thesis
    by (auto simp: set_listing_outputs set_map_filter child_dir_output split: if_splits)
qed

lemma in_tree_outputs:
  assumes tree: "tree_at m answer (dir_part pre) (Node fs ds)"
  shows "y \<in> set (listing_outputs (tree_files (Node fs ds)) [] pre (Some ''/'')) \<longleftrightarrow>
    (\<exists>f \<in> set fs. prefix pre (key f) \<and> y = Content f) \<or>
    (\<exists>x \<in> set ds. \<exists>e \<in> set (tree_files (Node fs ds)). prefix (fst x @ ''/'') (key e) \<and>
       prefix pre (fst x @ ''/'') \<and> y = Prefix (fst x @ ''/''))"
    (is "?in \<longleftrightarrow> ?content \<or> ?prefix")
proof -
  have outs: "?in \<longleftrightarrow> (\<exists>e \<in> set (tree_files (Node fs ds)). file_output pre (Some ''/'') e = Some y)"
    by (simp add: set_listing_outputs set_map_filter map_filter_simps del: tree_files.simps)
  have child: "file_output pre (Some ''/'') f = (if prefix pre (key f) then Some (Content f) else None)" if "f \<in> set fs" for f
    using that tree by (simp add: children_listing_def child_file_output)
  have below: "prefix (fst x @ ''/'') (key e)" if "x \<in> set ds" "e \<in> set (tree_files (snd x))" for x e
    using that tree tree_files_below [of m answer "fst x" "snd x" e] wf_key_nonempty by fastforce
  have "?content \<or> ?prefix" if e: "e \<in> set (tree_files (Node fs ds))" "file_output pre (Some ''/'') e = Some y" for e
  proof (cases "e \<in> set fs")
    case True
    with e(2) child show ?thesis by (auto split: if_splits)
  next
    case False
    with e(1) obtain x where x: "x \<in> set ds" "e \<in> set (tree_files (snd x))" by auto
    with e below [OF x] subtree_output [OF tree x(1) below [OF x]] have ?prefix by (auto split: if_splits)
    then show ?thesis ..
  qed
  moreover have ?in if ?content using that child unfolding outs by fastforce
  moreover have ?in if ?prefix
    using that subtree_output [OF tree] unfolding outs by (metis (no_types, lifting))
  ultimately show ?thesis unfolding outs by blast
qed

lemma slash_outputs_tree:
  assumes tree: "tree_at m answer (dir_part pre) (Node fs ds)"
  shows "listing_outputs (tree_files (Node fs ds)) [] pre (Some ''/'') =
         filter (shows_file (Node fs ds)) (listing_outputs fs (map fst ds) pre (Some ''/''))"
proof (rule strictly_sorted_unique [where f = out_key])
  have ch: "children_listing (dir_part pre) fs (map fst ds)" using tree by simp
  have dist: "distinct (map key fs)" using tree_files_distinct [OF tree] by simp
  show "strictly_sorted out_key (listing_outputs (tree_files (Node fs ds)) [] pre (Some ''/''))"
    by (rule listing_outputs_sorted [OF tree_files_distinct [OF tree]])
  show "strictly_sorted out_key (filter (shows_file (Node fs ds)) (listing_outputs fs (map fst ds) pre (Some ''/'')))"
    by (rule strictly_sorted_filter [OF listing_outputs_sorted [OF dist]])
  show "set (listing_outputs (tree_files (Node fs ds)) [] pre (Some ''/'')) =
        set (filter (shows_file (Node fs ds)) (listing_outputs fs (map fst ds) pre (Some ''/'')))"
    unfolding set_eq_iff set_filter mem_Collect_eq in_tree_outputs [OF tree] in_slash_outputs [OF ch]
    by (force simp: shows_file_def list_ex_iff simp del: tree_files.simps)
qed

lemma list_start_matchable:
  "wf_key k \<Longrightarrow> prefix pre k \<Longrightarrow> pre \<notin> {''.'', ''..''} \<Longrightarrow>
     list_start (path_mapper_new c) pre = Some (dir_path (path_mapper_new c) (dir_part pre))"
  using list_start_dir_part [OF path_mapper_new_wf] by simp

section \<open>Properties\<close>

text \<open>
  Claim C1: a page of \<^verbatim>\<open>ListObjectsV2\<close> is exact.  On a finite namespace that does not change,
  whatever the directory cache holds of it, a request with any prefix of some key (but \<open>.\<close> and
  \<open>..\<close>), any delimiter, marker and page size is answered, and the answer carries exactly the first \<open>page_size\<close> outputs after the marker
  of one strictly sorted listing, with their number, the flag that tells whether more follow and
  the token of the last one.
\<close>

theorem list_objects_v2_exact:
  assumes "lister_inv ops up (path_mapper_new c) calm ns valid cap items st"
    and "tree_at (path_mapper_new c) (ns_answer (path_mapper_new c) ns) (dir_part (page_prefix input)) (Node fs ds)"
    and "wf_key k" "prefix (page_prefix input) k" "page_prefix input \<notin> {''.'', ''..''}"
    and "length (tree_files (Node fs ds)) \<le> usize_max"
    and "valid_list_input c input" "page_marker ext input = Some after"
  shows "strictly_sorted out_key (namespace_outputs (Node fs ds) (page_prefix input) (page_delimiter input)) \<and>
    (\<exists>resp st'. list_objects_v2 ops up ext (gateway_new c) input st = Some (Inr resp, st') \<and>
       resp_output resp = page_response ext c input
         (page_of (resume_at after (namespace_outputs (Node fs ds) (page_prefix input) (page_delimiter input)))
           (page_size input)) \<and>
       lister_inv ops up (path_mapper_new c) calm ns valid cap items st')"
  using list_objects_v2_window [OF assms(1,2) list_start_matchable [OF assms(3-5)] assms(6-8)]
    namespace_outputs_sorted [OF assms(2)] by blast

text \<open>
  Claim C10: following the tokens lists everything.  On such a namespace a client that asks for
  pages of positive size and sends back each continuation token gets, after at most as many
  requests as there are outputs, a last page that is not truncated; the pages together hold every
  object and every common prefix after the marker exactly once and in order.
\<close>

theorem list_walk_complete:
  assumes "lister_inv ops up (path_mapper_new c) calm ns valid cap items st"
    and "tree_at (path_mapper_new c) (ns_answer (path_mapper_new c) ns) (dir_part (page_prefix input)) (Node fs ds)"
    and "wf_key k" "prefix (page_prefix input) k" "page_prefix input \<notin> {''.'', ''..''}"
    and "length (tree_files (Node fs ds)) \<le> usize_max"
    and "valid_list_input c input" "page_marker ext input = Some after" "0 < page_size input"
    and "\<And>b. url_decode ext (url_encode ext b) = Some b"
    and "\<forall>x \<in> set (namespace_outputs (Node fs ds) (page_prefix input) (page_delimiter input)). valid_utf8 (out_key x)"
    and "outs = resume_at after (namespace_outputs (Node fs ds) (page_prefix input) (page_delimiter input))"
    and "length outs \<le> fuel"
  shows "\<exists>os st'. list_all_pages fuel ops up ext (gateway_new c) input st = Some (os, st') \<and>
    concat (map (or_empty \<circ> lo_contents) os) = map object_of_entry (List.map_filter content_of outs) \<and>
    concat (map (or_empty \<circ> lo_common_prefixes) os) = List.map_filter prefix_of outs \<and>
    \<not> lo_is_truncated (last os)"
proof -
  let ?ns = "namespace_outputs (Node fs ds) (page_prefix input) (page_delimiter input)"
  let ?ps = "walk_pages fuel (\<lambda>m. page_of (resume_at m ?ns) (page_size input)) after"
  from list_all_pages_walk [OF assms(2) list_start_matchable [OF assms(3-5)] assms(6,7,10,11,1,8)] obtain os st' where
    run: "list_all_pages fuel ops up ext (gateway_new c) input st = Some (os, st')" and
    rel: "list_all2 (\<lambda>out pg. or_empty (lo_contents out) = map object_of_entry (contents pg) \<and>
         or_empty (lo_common_prefixes out) = common_prefixes pg \<and> lo_is_truncated out = is_truncated pg) os ?ps"
    by blast
  have c: "map (or_empty \<circ> lo_contents) os = map (map object_of_entry \<circ> contents) ?ps"
    and p: "map (or_empty \<circ> lo_common_prefixes) os = map common_prefixes ?ps"
    and t: "map lo_is_truncated os = map is_truncated ?ps"
    by (rule list_all2_map_eq [OF rel], simp)+
  have "?ps \<noteq> []" by (cases fuel) (simp_all add: Let_def del: namespace_outputs.simps)
  then have "lo_is_truncated (last os) = is_truncated (last ?ps)" by (rule map_eq_last [OF t])
  moreover have "concat (map (map object_of_entry \<circ> contents) ?ps) = map object_of_entry (concat (map contents ?ps))"
    by (simp add: map_concat)
  moreover note namespace.walk_complete [of "(Node fs ds, page_prefix input, page_delimiter input)" "page_size input" after fuel,
    unfolded split, OF namespace_outputs_sorted [OF assms(2)] assms(9) assms(13) [unfolded assms(12)]]
  ultimately show ?thesis using run c p assms(12) by (simp del: namespace_outputs.simps)
qed

text \<open>
  Claim C23: the one-directory shortcut loses nothing.  For delimiter \<open>/\<close> the page cut from a single
  directory listing is a window of the outputs of that directory; dropping from those outputs the
  common prefixes below which the tree has no readable file gives exactly what grouping every file
  of the whole subtree would give.
\<close>

theorem slash_listing_faithful:
  assumes "tree_at m answer (dir_part pre) (Node fs ds)"
    and "outs = resume_at after (listing_outputs fs (map fst ds) pre (Some ''/''))"
  shows "paginate_slash fs (map fst ds) pre after n = page_of outs n \<and>
         paginate (tree_files (Node fs ds)) [] pre (Some ''/'') after n =
           page_of (filter (shows_file (Node fs ds)) outs) n"
proof -
  have ch: "children_listing (dir_part pre) fs (map fst ds)" using assms(1) by simp
  have "resume_at after (filter (shows_file (Node fs ds)) (listing_outputs fs (map fst ds) pre (Some ''/''))) =
      filter (shows_file (Node fs ds)) outs"
    unfolding assms(2) filter_filter by (rule filter_cong) auto
  then show ?thesis
    unfolding paginate_slash_window [OF children_sorted_streams [OF ch]] children_outputs [OF ch]
      paginate_window [OF tree_files_distinct [OF assms(1)]] slash_outputs_tree [OF assms(1)]
    using assms(2) by simp
qed

section \<open>Instances\<close>

definition test_tree :: dir_tree where
  "test_tree =
     Node [test_entry_of ''b.txt'']
       [(''b'', Node [test_entry_of ''b/1'', test_entry_of ''b/2''] []),
        (''x'', Unlistable (RPCError ''AccessControlException'' ''denied''))]"

definition test_list_input :: list_input where
  "test_list_input =
     \<lparr>li_bucket = bucket (path_mapper_new data_config), li_prefix = None, li_delimiter = Some ''/'',
      li_max_keys = Some 1, li_continuation_token = None, li_start_after = Some ''b.''\<rparr>"

text \<open>The tree is what the small cluster answers.\<close>

lemma test_tree_at:
  "tree_at (path_mapper_new data_config) (ns_answer (path_mapper_new data_config) test_ns)
     (dir_part (page_prefix test_list_input)) test_tree"
  by code_simp

lemma test_prefix:
  "wf_key ''b.txt''" "prefix (page_prefix test_list_input) ''b.txt''" "page_prefix test_list_input \<notin> {''.'', ''..''}"
  by code_simp+

lemma test_request:
  "valid_list_input data_config test_list_input"
  "page_marker test_externs test_list_input = Some (Some ''b.'')"
  "page_size test_list_input = 1"
  by code_simp+

lemma test_tree_small: "length (tree_files test_tree) \<le> usize_max"
  by (simp add: test_tree_def usize_max_def)

lemma test_outputs:
  "resume_at (Some ''b.'') (namespace_outputs test_tree (page_prefix test_list_input) (page_delimiter test_list_input)) =
     [Content (test_entry_of ''b.txt''), Prefix ''b/'', Prefix ''x/'']"
  by code_simp

lemma test_page_let:
  "let pg = page_of [Content (test_entry_of ''b.txt''), Prefix ''b/'', Prefix ''x/''] 1;
       resp = page_response test_externs data_config test_list_input pg
   in lo_contents resp = Some [object_of_entry (test_entry_of ''b.txt'')] \<and> lo_is_truncated resp \<and>
      lo_next_continuation_token resp = Some ''txt.b''"
  by code_simp

lemmas test_page = test_page_let [unfolded Let_def]

theorem list_objects_v2_exact_witness:
  "\<exists>resp st'. list_objects_v2 test_ops test_up test_externs (gateway_new data_config) test_list_input test_state =
      Some (Inr resp, st') \<and>
    lo_contents (resp_output resp) = Some [object_of_entry (test_entry_of ''b.txt'')] \<and>
    lo_is_truncated (resp_output resp) \<and> lo_next_continuation_token (resp_output resp) = Some ''txt.b''"
proof -
  let ?pg = "page_of [Content (test_entry_of ''b.txt''), Prefix ''b/'', Prefix ''x/''] 1"
  from list_objects_v2_exact [OF test_lister_inv test_tree_at [unfolded test_tree_def] test_prefix
      test_tree_small [unfolded test_tree_def] test_request(1,2), folded test_tree_def,
      unfolded test_outputs test_request(3)]
  obtain resp st' where
    "list_objects_v2 test_ops test_up test_externs (gateway_new data_config) test_list_input test_state = Some (Inr resp, st')"
    "resp_output resp = page_response test_externs data_config test_list_input ?pg" by blast
  with test_page show ?thesis by metis
qed

theorem list_walk_complete_witness:
  "\<exists>os st'. list_all_pages 3 test_ops test_up test_externs (gateway_new data_config) test_list_input test_state = Some (os, st') \<and>
    concat (map (or_empty \<circ> lo_contents) os) = [object_of_entry (test_entry_of ''b.txt'')] \<and>
    concat (map (or_empty \<circ> lo_common_prefixes) os) = [''b/'', ''x/''] \<and> \<not> lo_is_truncated (last os)"
proof -
  have "\<forall>x \<in> set (namespace_outputs test_tree (page_prefix test_list_input) (page_delimiter test_list_input)). valid_utf8 (out_key x)"
    by code_simp
  from list_walk_complete [OF test_lister_inv test_tree_at [unfolded test_tree_def] test_prefix
      test_tree_small [unfolded test_tree_def] test_request(1,2) _ _ this [unfolded test_tree_def] refl, of 3,
      folded test_tree_def, unfolded test_outputs test_request(3)]
  show ?thesis by (simp add: map_filter_simps test_externs_def)
qed

theorem slash_listing_faithful_witness:
  "paginate_slash [test_entry_of ''b.txt''] [''b'', ''x''] [] None 5 =
     \<lparr>contents = [test_entry_of ''b.txt''], common_prefixes = [''b/'', ''x/''], is_truncated = False, next_token = None\<rparr> \<and>
   paginate (tree_files test_tree) [] [] (Some ''/'') None 5 =
     \<lparr>contents = [test_entry_of ''b.txt''], common_prefixes = [''b/''], is_truncated = False, next_token = None\<rparr>"
proof -
  let ?outs = "resume_at None (listing_outputs [test_entry_of ''b.txt''] [''b'', ''x''] [] (Some ''/''))"
  have "tree_at (path_mapper_new data_config) (ns_answer (path_mapper_new data_config) test_ns) (dir_part []) test_tree"
    by code_simp
  from slash_listing_faithful [OF this [unfolded test_tree_def], of ?outs None 5]
  have "paginate_slash [test_entry_of ''b.txt''] [''b'', ''x''] [] None 5 = page_of ?outs 5 \<and>
      paginate (tree_files test_tree) [] [] (Some ''/'') None 5 = page_of (filter (shows_file test_tree) ?outs) 5"
    by (simp add: test_tree_def del: tree_files.simps)
  moreover have "?outs = [Content (test_entry_of ''b.txt''), Prefix ''b/'', Prefix ''x/'']" by code_simp
  moreover have "filter (shows_file test_tree) [Content (test_entry_of ''b.txt''), Prefix ''b/'', Prefix ''x/''] =
      [Content (test_entry_of ''b.txt''), Prefix ''b/'']" by code_simp
  ultimately show ?thesis by (simp add: page_of_def map_filter_simps)
qed

end
