(* ===== verification/Gateway_Objects.thy ===== *)
theory Gateway_Objects
  imports Gateway_Listings
begin

text \<open>
  What the object handlers of \<^verbatim>\<open>src/s3/mod.rs\<close> promise: the body of a \<^verbatim>\<open>GetObject\<close>, the
  conditional headers, the request ids and the refusal of writes.
\<close>

section \<open>The body stream\<close>

text \<open>The bytes a consumer has received, and those upstream produced.\<close>

definition ok_bytes :: "('e + string) list \<Rightarrow> string" where
  "ok_bytes items = concat (map (case_sum (\<lambda>e. []) id) items)"

lemma ok_bytes_simps [simp]:
  "ok_bytes [] = []"
  "ok_bytes (Inr b # items) = b @ ok_bytes items"
  "ok_bytes (Inl e # items) = ok_bytes items"
  by (simp_all add: ok_bytes_def)

definition short_read :: "(get_body_error + string) list \<Rightarrow> bool" where
  "short_read items = list_ex (\<lambda>x. case x of Inl (ShortRead e g) \<Rightarrow> True | _ \<Rightarrow> False) items"

lemma short_read_simps [simp]:
  "\<not> short_read []"
  "short_read (Inr b # items) = short_read items"
  "short_read (Inl (Upstream e) # items) = short_read items"
  "short_read (Inl (ShortRead n g) # items)"
  by (simp_all add: short_read_def)

lemma short_read_last: "items \<noteq> [] \<Longrightarrow> last items = Inl (ShortRead n g) \<Longrightarrow> short_read items"
  using last_in_set [of items] by (auto simp: short_read_def list_ex_iff intro!: bexI [of _ "last items"])

lemma bytes_stream_0 [simp]: "bytes_stream stream limit 0 = []"
  by (simp add: bytes_stream.simps)

lemma bytes_stream_pulls:
  assumes "0 < remaining"
  shows "bytes_stream (Inl e # stream) limit remaining = Inl (Upstream e) # bytes_stream stream limit remaining"
    and "bytes_stream (Inr b # stream) limit remaining =
           Inr (take remaining b) # bytes_stream stream limit (remaining - min (length b) remaining)"
    and "bytes_stream [] limit remaining = [Inl (ShortRead limit (limit - remaining))]"
    and "bytes_stream xs limit remaining \<noteq> []"
  using assms by (subst bytes_stream.simps; auto simp: Let_def min_def split: list.split sum.split)+

lemma bytes_stream_spec:
  assumes "remaining \<le> limit"
  shows "ok_bytes (bytes_stream stream limit remaining) = take remaining (ok_bytes stream) \<and>
    (short_read (bytes_stream stream limit remaining) \<longleftrightarrow> length (ok_bytes stream) < remaining) \<and>
    (length (ok_bytes stream) < remaining \<longrightarrow>
       last (bytes_stream stream limit remaining) =
         Inl (ShortRead limit (limit - remaining + length (ok_bytes stream))))"
  using assms
proof (induction stream arbitrary: remaining)
  case Nil
  then show ?case by (cases "remaining = 0") (simp_all add: bytes_stream_pulls)
next
  case (Cons x stream)
  show ?case
  proof (cases "remaining = 0 \<or> (\<exists>e. x = Inl e)")
    case True
    then show ?thesis using Cons.IH [OF Cons.prems] by (cases "remaining = 0") (auto simp: bytes_stream_pulls)
  next
    case False
    then obtain b where b: "0 < remaining" "x = Inr b" by (cases x) auto
    have "bytes_stream stream limit (remaining - min (length b) remaining) \<noteq> []" if "length b < remaining"
      using that by (intro bytes_stream_pulls(4)) simp
    with b Cons.IH [of "remaining - min (length b) remaining"] Cons.prems show ?thesis
      by (auto simp: bytes_stream_pulls min_def)
  qed
qed

section \<open>Conditional headers\<close>

text \<open>
  The precedence of RFC 7232, section 6: \<open>If-Unmodified-Since\<close> is ignored when \<open>If-Match\<close> is
  present, and \<open>If-Modified-Since\<close> when \<open>If-None-Match\<close> is.
\<close>

definition rfc7232 :: "externs \<Rightarrow> 'z object_input_scheme \<Rightarrow> etag_value \<Rightarrow> timestamp \<Rightarrow> s3_code option" where
  "rfc7232 ext input tag modified =
     (let matches = (\<lambda>cmp c. case c of AnyETag \<Rightarrow> True | ETag t \<Rightarrow> cmp tag t);
          fails = (case if_match input of
                     Some c \<Rightarrow> \<not> matches (strong_cmp ext) c
                   | None \<Rightarrow> (case if_unmodified_since input of Some since \<Rightarrow> since < modified | None \<Rightarrow> False));
          unchanged = (case if_none_match input of
                     Some c \<Rightarrow> matches (weak_cmp ext) c
                   | None \<Rightarrow> (case if_modified_since input of Some since \<Rightarrow> modified \<le> since | None \<Rightarrow> False))
      in if fails then Some PreconditionFailed else if unchanged then Some NotModified else None)"

text \<open>An \<^verbatim>\<open>HTTP-date\<close> has no fraction of a second: what a client can echo of a timestamp.\<close>

definition http_date :: "timestamp \<Rightarrow> timestamp" where
  "http_date t = t div 1000000000 * 1000000000"

lemma millis_to_timestamp_eq: "millis_to_timestamp ms = int (unat ms) * 1000000"
proof -
  have "uint (ms mod 1000) = uint ms mod 1000" by (simp add: uint_mod)
  then have "uint ((ms mod 1000) * 1000000 :: u64) = (uint ms mod 1000) * 1000000"
    by (simp add: uint_word_ariths)
  moreover have "uint (ms div 1000) = uint ms div 1000" by (simp add: uint_div)
  moreover have "x div 1000 * 1000000000 + x mod 1000 * 1000000 = x * 1000000" for x :: int by presburger
  ultimately show ?thesis by (simp add: millis_to_timestamp_def Let_def)
qed

lemma http_date_millis:
  "millis_to_timestamp ms \<le> http_date (millis_to_timestamp ms) \<longleftrightarrow> unat ms mod 1000 = 0"
proof -
  let ?x = "int (unat ms)"
  have "?x * 1000000 div 1000000000 = ?x div 1000" using div_mult_mult2 [of 1000000 ?x 1000] by simp
  then have "millis_to_timestamp ms \<le> http_date (millis_to_timestamp ms) \<longleftrightarrow> ?x \<le> ?x div 1000 * 1000"
    unfolding millis_to_timestamp_eq http_date_def by (simp add: mult.commute)
  also have "\<dots> \<longleftrightarrow> ?x mod 1000 = 0"
    using div_mult_mod_eq [of ?x 1000] pos_mod_sign [of 1000 ?x] by linarith
  also have "\<dots> \<longleftrightarrow> unat ms mod 1000 = 0" by (metis of_nat_eq_0_iff of_nat_mod of_nat_numeral)
  finally show ?thesis .
qed

section \<open>Request ids\<close>

abbreviation request_id_of where "request_id_of up st \<equiv> fst (new_request_id up st)"

lemma request_log_new_id [simp]:
  "rl_request_id (fst (request_log_new up op st)) = request_id_of up st"
  "snd (request_log_new up op st) = st\<lparr>gs_seq := gs_seq st + 1\<rparr>"
  by (simp_all add: request_log_new_def new_request_id_def)

lemma request_log_new_split:
  "(case request_log_new up op st of (log, st') \<Rightarrow> f log st') =
   f (fst (request_log_new up op st)) (st\<lparr>gs_seq := gs_seq st + 1\<rparr>)"
  by (simp add: case_prod_beta)

text \<open>A result that carries the id of its request, in its error or its headers.\<close>

definition tagged :: "externs \<Rightarrow> string \<Rightarrow> s3_error + 'o s3_response \<Rightarrow> bool" where
  "tagged ext rid r =
     (let header = (case header_value ext rid of Some v \<Rightarrow> [(''x-amz-request-id'', v)] | None \<Rightarrow> []) in
      case r of
        Inl e \<Rightarrow> request_id e = Some rid \<and> err_headers e = header @ [(''content-type'', ''application/xml'')]
      | Inr resp \<Rightarrow> resp_headers resp = header)"

lemma tagged_attach [simp]: "rl_request_id log = rid \<Longrightarrow> tagged ext rid (Inl (attach ext log e))"
  by (auto simp: tagged_def attach_def attach_error_request_id_def)

lemma tagged_response [simp]:
  "rl_request_id log = rid \<Longrightarrow> tagged ext rid (Inr (fst (with_request_id ext (s3_response_new x) log)))"
  by (auto simp: tagged_def with_request_id_def s3_response_new_def split: option.split)

text \<open>The same where the id is a legal header value, which it always is.\<close>

definition carries :: "string \<Rightarrow> s3_error + 'o s3_response \<Rightarrow> bool" where
  "carries rid r =
     (case r of
        Inl e \<Rightarrow> request_id e = Some rid \<and>
          err_headers e = [(''x-amz-request-id'', rid), (''content-type'', ''application/xml'')]
      | Inr resp \<Rightarrow> resp_headers resp = [(''x-amz-request-id'', rid)])"

lemma tagged_carries: "header_value ext rid = Some rid \<Longrightarrow> tagged ext rid r \<Longrightarrow> carries rid r"
  by (auto simp: tagged_def carries_def split: sum.splits)

lemma request_id_visible:
  assumes "c \<in> set (request_id_of up st)"
  shows "32 \<le> (of_char c :: nat) \<and> (of_char c :: nat) < 127"
proof -
  have "32 \<le> (of_char c :: nat) \<and> (of_char c :: nat) < 127" if hex: "c \<in> set (fmt_hex n)" for n
  proof -
    obtain d where "d < 16" "c = digit_char d" using digits_radix_chars [OF _ _ hex] by auto
    then show ?thesis by (simp add: of_digit_char)
  qed
  with assms show ?thesis by (auto simp: new_request_id_def)
qed

lemma tagged_any: "tagged ext rid (Inl e :: s3_error + 'o s3_response) = tagged ext rid (Inl e :: s3_error + unit s3_response)"
  by (simp add: tagged_def)

lemma file_meta_of_tagged:
  "file_meta_of ops up ext gw log p st = (Inl e, st') \<Longrightarrow> rl_request_id log = rid \<Longrightarrow>
     tagged ext rid (Inl e :: s3_error + unit s3_response)"
  by (auto simp: file_meta_of_def Let_def split: prod.splits option.splits sum.splits if_splits)

lemma open_reader_tagged:
  "open_reader ops up ext gw log p meta st = (Inl e, st') \<Longrightarrow> rl_request_id log = rid \<Longrightarrow>
     tagged ext rid (Inl e :: s3_error + unit s3_response)"
  by (auto simp: open_reader_def Let_def split: prod.splits option.splits sum.splits if_splits)

lemma head_object_tagged: "tagged ext (request_id_of up st) (fst (head_object ops up ext gw input st))"
  unfolding head_object_def head_reply_def request_log_new_split Let_def
  by (auto simp: file_meta_of_tagged tagged_any [where ?'o = object_head] split: option.split prod.split sum.split)

lemma get_object_tagged: "tagged ext (request_id_of up st) (fst (get_object ops up ext gw input st))"
  unfolding get_object_def get_plan_def get_reply_def request_log_new_split Let_def usize_try_from_def
  by (auto simp: file_meta_of_tagged open_reader_tagged tagged_any [where ?'o = object_get]
      split: option.split prod.split sum.split)

lemma list_objects_v2_tagged:
  "list_objects_v2 ops up ext gw input st = Some (r, st') \<Longrightarrow> tagged ext (request_id_of up st) r"
  unfolding list_objects_v2_def list_resume_def list_plan_def list_reply_def request_log_new_split Let_def
  by (auto split: option.splits prod.splits sum.splits if_splits)

section \<open>A successful GetObject\<close>

lemma resolve_window_bounds:
  assumes "resolve_window n rng = Some (s, e, len, cr)"
  shows "unat s \<le> unat e \<and> unat e \<le> unat n \<and> len = e - s \<and> unat (e - s) = unat e - unat s \<and>
    {unat s ..< unat e} = (case rng of None \<Rightarrow> {..< unat n} | Some r \<Rightarrow> requested (unat n) (byte_range_of r) \<inter> {..< unat n})"
proof (cases rng)
  case None
  with assms show ?thesis by (auto simp: resolve_window_def)
next
  case (Some r)
  with assms have "resolve_range n (byte_range_of r) = Some (s, e)" and len: "len = e - s"
    by (auto simp: resolve_window_def split: option.splits)
  then have b: "unat s < unat e" "unat e \<le> unat n"
    "{unat s ..< unat e} = requested (unat n) (byte_range_of r) \<inter> {..< unat n}"
    using resolve_range_spec [of n "byte_range_of r"] by auto
  then have "s \<le> e" by (simp add: word_le_nat_alt)
  then show ?thesis using b len Some by (simp add: unat_sub)
qed

abbreviation object_log where
  "object_log up op p st \<equiv> (fst (request_log_new up op st))\<lparr>rl_hdfs_path := Some p\<rparr>"

lemma get_object_cases:
  assumes "get_object ops up ext gw input st = (Inr resp, st')"
  obtains p meta st1 s e len cr reader where
    "key_to_hdfs_path (gw_mapper gw) (in_key input) = Some p"
    "file_meta_of ops up ext gw (object_log up ''GetObject'' p st) p (st\<lparr>gs_seq := gs_seq st + 1\<rparr>) = (Inr meta, st1)"
    "\<not> fm_isdir meta"
    "resolve_window (fm_length meta) (in_range input) = Some (s, e, len, cr)"
    "open_reader ops up ext gw (object_log up ''GetObject'' p st) p meta st1 = (Inr reader, st')"
    "e \<le> file_length up reader"
    "content_length (resp_output resp) = sint len"
    "body_length (resp_output resp) = unat (e - s)"
    "body (resp_output resp) = bytes_stream (read_range_stream up (gs_world st') reader s (e - s)) (unat (e - s)) (unat (e - s))"
    "last_modified (resp_output resp) = millis_to_timestamp (fm_mtime meta)"
    "e_tag (resp_output resp) = Strong (fallback_etag (fm_length meta) (fm_mtime meta))"
  using assms
  unfolding get_object_def get_plan_def get_reply_def request_log_new_split Let_def usize_try_from_def
  by (auto simp: with_request_id_def s3_response_new_def not_less etag_def from_hdfs_def
      split: option.splits prod.splits sum.splits if_splits)

lemma prefix_shorter: "prefix xs ys \<Longrightarrow> length xs < length ys \<longleftrightarrow> xs \<noteq> ys"
  by (auto simp: prefix_def)

text \<open>
  What the gateway relies on of an open reader: its length is that of the file's content, and a
  range stream yields bytes of that range from its start on, possibly not all of them.
\<close>

definition faithful_reader :: "('r, 'w) upstream \<Rightarrow> ('r \<Rightarrow> string) \<Rightarrow> bool" where
  "faithful_reader up file_bytes \<longleftrightarrow>
     (\<forall>r. unat (file_length up r) = length (file_bytes r)) \<and>
     (\<forall>w r a n. prefix (ok_bytes (read_range_stream up w r a n)) (take (unat n) (drop (unat a) (file_bytes r))))"

section \<open>Properties\<close>

text \<open>
  Claim C12: the body of a successful \<^verbatim>\<open>GetObject\<close>.  The response's window consists of exactly the
  requested bytes of a file as long as its metadata says, and \<^verbatim>\<open>Content-Length\<close> is the size of the
  window.  The bytes delivered are those of the window in the open file, from its start on; they
  are all of them, \<^verbatim>\<open>Content-Length\<close> many, unless the body ends in a \<open>ShortRead\<close> error.
\<close>

theorem get_object_body:
  assumes "get_object ops up ext gw input st = (Inr resp, st')" "faithful_reader up file_bytes"
  shows "\<exists>p log meta st1 reader (s :: u64) e.
    key_to_hdfs_path (gw_mapper gw) (in_key input) = Some p \<and>
    file_meta_of ops up ext gw log p (st\<lparr>gs_seq := gs_seq st + 1\<rparr>) = (Inr meta, st1) \<and> \<not> fm_isdir meta \<and>
    open_reader ops up ext gw log p meta st1 = (Inr reader, st') \<and>
    {unat s ..< unat e} = (case in_range input of
        None \<Rightarrow> {..< unat (fm_length meta)}
      | Some r \<Rightarrow> requested (unat (fm_length meta)) (byte_range_of r) \<inter> {..< unat (fm_length meta)}) \<and>
    body_length (resp_output resp) = unat e - unat s \<and>
    content_length (resp_output resp) = sint (e - s) \<and>
    (let window = take (unat e - unat s) (drop (unat s) (file_bytes reader)); sent = ok_bytes (body (resp_output resp))
     in length window = unat e - unat s \<and> prefix sent window \<and>
        (short_read (body (resp_output resp)) \<longleftrightarrow> sent \<noteq> window))"
  using assms(1)
proof (rule get_object_cases)
  fix p meta st1 s e len cr reader
  assume g: "key_to_hdfs_path (gw_mapper gw) (in_key input) = Some p"
    "file_meta_of ops up ext gw (object_log up ''GetObject'' p st) p (st\<lparr>gs_seq := gs_seq st + 1\<rparr>) = (Inr meta, st1)"
    "\<not> fm_isdir meta"
    "open_reader ops up ext gw (object_log up ''GetObject'' p st) p meta st1 = (Inr reader, st')"
    and size: "content_length (resp_output resp) = sint len" "body_length (resp_output resp) = unat (e - s)"
    and win: "resolve_window (fm_length meta) (in_range input) = Some (s, e, len, cr)" "e \<le> file_length up reader"
    and body: "body (resp_output resp) =
      bytes_stream (read_range_stream up (gs_world st') reader s (e - s)) (unat (e - s)) (unat (e - s))"
  note b = resolve_window_bounds [OF win(1)]
  let ?stream = "read_range_stream up (gs_world st') reader s (e - s)"
  let ?window = "take (unat e - unat s) (drop (unat s) (file_bytes reader))"
  have "unat e \<le> length (file_bytes reader)"
    using win(2) assms(2) by (metis faithful_reader_def word_le_nat_alt)
  then have len: "length ?window = unat e - unat s" using b by simp
  have pre: "prefix (ok_bytes ?stream) ?window" using assms(2) b by (metis faithful_reader_def)
  have sent: "ok_bytes (body (resp_output resp)) = ok_bytes ?stream"
    and short: "short_read (body (resp_output resp)) \<longleftrightarrow> length (ok_bytes ?stream) < length ?window"
    using bytes_stream_spec [OF order.refl, of ?stream "unat (e - s)"] prefix_length_le [OF pre] len b body
    by simp_all
  have sent_window: "let window = ?window; sent = ok_bytes (body (resp_output resp))
     in length window = unat e - unat s \<and> prefix sent window \<and>
        (short_read (body (resp_output resp)) \<longleftrightarrow> sent \<noteq> window)"
    unfolding Let_def sent short prefix_shorter [OF pre] using len pre by blast
  have size': "body_length (resp_output resp) = unat e - unat s" "content_length (resp_output resp) = sint (e - s)"
    using size b by simp_all
  from b have range: "{unat s ..< unat e} = (case in_range input of
        None \<Rightarrow> {..< unat (fm_length meta)}
      | Some r \<Rightarrow> requested (unat (fm_length meta)) (byte_range_of r) \<inter> {..< unat (fm_length meta)})"
    by blast
  show ?thesis by (intro exI conjI) (fact g range size' sent_window)+
qed

text \<open>
  Claim C22: a response body has its declared length or says that it has not.  Whatever chunks and
  errors upstream produces, the consumer receives the first \<open>n\<close> bytes of it; the body is shorter
  than \<open>n\<close> exactly when it holds a \<open>ShortRead\<close> error, and that error is its last item and tells how
  many bytes were sent.
\<close>

theorem bytes_stream_exact:
  "ok_bytes (bytes_stream stream n n) = take n (ok_bytes stream) \<and>
   (short_read (bytes_stream stream n n) \<longleftrightarrow> length (ok_bytes (bytes_stream stream n n)) < n) \<and>
   (short_read (bytes_stream stream n n) \<longleftrightarrow>
      bytes_stream stream n n \<noteq> [] \<and>
      last (bytes_stream stream n n) = Inl (ShortRead n (length (ok_bytes (bytes_stream stream n n)))))"
proof -
  note spec = bytes_stream_spec [OF order.refl, of stream n]
  have "bytes_stream stream n n \<noteq> []" if "length (ok_bytes stream) < n"
    using that by (intro bytes_stream_pulls(4)) simp
  then show ?thesis using spec short_read_last [of "bytes_stream stream n n"] by (auto simp: min_def)
qed

text \<open>
  Conditional requests.  When a request does not combine \<open>If-Match\<close> with
  \<open>If-Unmodified-Since\<close>, nor \<open>If-None-Match\<close> with \<open>If-Modified-Since\<close>, the code's order of tests
  answers 412, 304 or goes on exactly as RFC 7232, section 6, prescribes.
\<close>

lemma conditions_rfc7232:
  assumes "if_match input = None \<or> if_unmodified_since input = None"
    and "if_none_match input = None \<or> if_modified_since input = None"
  shows "check_conditions ext input tag modified = rfc7232 ext input tag modified"
  using assms
  by (auto simp: check_conditions_def rfc7232_def Let_def split: option.splits etag_condition.splits)

text \<open>
  Claim C31: conditional requests that combine headers.  In general the code differs from RFC 7232:
  it also answers 412 when a satisfied \<open>If-Match\<close> comes with an \<open>If-Unmodified-Since\<close> that fails,
  and 304 when an unsatisfied \<open>If-None-Match\<close> comes with an \<open>If-Modified-Since\<close> in the future, where
  the RFC has the date ignored.
\<close>

theorem conditions_extra_headers:
  "check_conditions ext input tag modified =
     (if rfc7232 ext input tag modified = Some PreconditionFailed then Some PreconditionFailed
      else if if_match input \<noteq> None \<and>
              (case if_unmodified_since input of Some since \<Rightarrow> since < modified | None \<Rightarrow> False)
        then Some PreconditionFailed
      else if if_none_match input \<noteq> None \<and>
              (case if_modified_since input of Some since \<Rightarrow> modified \<le> since | None \<Rightarrow> False)
        then Some NotModified
      else rfc7232 ext input tag modified)"
  by (auto simp: check_conditions_def rfc7232_def Let_def split: option.splits etag_condition.splits)

text \<open>
  Claim C32: a date the gateway sent may fail its own precondition.  A client that echoes the
  \<open>Last-Modified\<close> date it received, which as an HTTP date has no milliseconds, in
  \<open>If-Unmodified-Since\<close> gets 412, and in \<open>If-Modified-Since\<close> does not get 304, for every object
  whose modification time is not a whole second.
\<close>

theorem echoed_last_modified:
  "let input = \<lparr>in_bucket = b, in_key = k, if_match = None, if_unmodified_since = None,
                if_none_match = None, if_modified_since = None\<rparr>;
       modified = millis_to_timestamp ms
   in check_conditions ext (input\<lparr>if_unmodified_since := Some (http_date modified)\<rparr>) tag modified =
        (if unat ms mod 1000 = 0 then None else Some PreconditionFailed) \<and>
      check_conditions ext (input\<lparr>if_modified_since := Some (http_date modified)\<rparr>) tag modified =
        (if unat ms mod 1000 = 0 then Some NotModified else None)"
  using http_date_millis [of ms] by (auto simp: Let_def check_conditions_def)

text \<open>
  Claim C36: every answer carries its request's id.  Under what \<^verbatim>\<open>http::HeaderValue::from_str\<close>
  documents -- it accepts every text of visible ASCII characters -- whatever an operation answers carries
  the id of the request, made of the wall clock and the request counter: an error in its body and in
  the \<open>x-amz-request-id\<close> header, beside its XML content type, and a success in that header.  This holds of
  the object, listing and bucket operations, of the bucket probes, and of all the write-shaped
  operations, every one of which is refused with \<open>AccessDenied\<close>.
\<close>

theorem errors_carry_request_id:
  assumes "\<forall>s. (\<forall>c \<in> set s. 32 \<le> (of_char c :: nat) \<and> (of_char c :: nat) < 127) \<longrightarrow> header_value ext s = Some s"
  shows "let rid = fmt_hex (wall_nanos up (gs_world st) div 1000) @ ''-'' @ fmt_hex (unat (gs_seq st)) in
    carries rid (fst (get_object ops up ext gw get_input st)) \<and>
    carries rid (fst (head_object ops up ext gw head_input st)) \<and>
    (case list_objects_v2 ops up ext gw list_input st of Some (r, st') \<Rightarrow> carries rid r | None \<Rightarrow> True) \<and>
    carries rid (fst (head_bucket up ext gw b st)) \<and>
    carries rid (fst (list_buckets up ext gw st)) \<and>
    carries rid (fst (probe_operation up ext probe st)) \<and>
    (case fst (write_operation up ext op st) of
       Inl e \<Rightarrow> code e = AccessDenied \<and> carries rid (Inl e :: s3_error + unit s3_response)
     | Inr _ \<Rightarrow> False)"
proof -
  let ?rid = "request_id_of up st"
  have rid: "fmt_hex (wall_nanos up (gs_world st) div 1000) @ ''-'' @ fmt_hex (unat (gs_seq st)) = ?rid"
    by (simp add: new_request_id_def)
  have legal: "header_value ext ?rid = Some ?rid"
    using assms request_id_visible [of _ up st] by blast
  have get: "carries ?rid (fst (get_object ops up ext gw get_input st))"
    by (rule tagged_carries [OF legal get_object_tagged])
  have head: "carries ?rid (fst (head_object ops up ext gw head_input st))"
    by (rule tagged_carries [OF legal head_object_tagged])
  have list: "case list_objects_v2 ops up ext gw list_input st of Some (r, st') \<Rightarrow> carries ?rid r | None \<Rightarrow> True"
    using tagged_carries [OF legal list_objects_v2_tagged [of ops up ext gw list_input st]] by (auto split: option.split)
  have buckets: "carries ?rid (fst (head_bucket up ext gw b st))" "carries ?rid (fst (list_buckets up ext gw st))"
    unfolding head_bucket_def list_buckets_def request_log_new_split by (simp_all add: tagged_carries [OF legal])
  have probe: "carries ?rid (fst (probe_operation up ext probe st))"
    unfolding probe_operation_def request_log_new_split
    by (cases probe) (simp_all add: tagged_carries [OF legal])
  have denied: "case fst (write_operation up ext op st) of
       Inl e \<Rightarrow> code e = AccessDenied \<and> carries ?rid (Inl e :: s3_error + unit s3_response)
     | Inr _ \<Rightarrow> False"
    unfolding write_operation_def request_log_new_split
    by (simp add: finish_def tagged_carries [OF legal])
       (simp add: attach_def attach_error_request_id_def write_denied_def with_message_def s3_error_new_def)
  show ?thesis unfolding rid Let_def by (intro conjI) (fact get head list buckets probe denied)+
qed

text \<open>
  Request ids are unique within a process.  Two requests that drew different counter
  values have different ids, whatever the wall clock said.
\<close>

lemma request_ids_unique:
  "request_id_of up st = request_id_of up' st' \<longleftrightarrow>
     gs_seq st = gs_seq st' \<and> wall_nanos up (gs_world st) div 1000 = wall_nanos up' (gs_world st') div 1000"
proof
  assume "request_id_of up st = request_id_of up' st'"
  then have "fmt_hex (wall_nanos up (gs_world st) div 1000) = fmt_hex (wall_nanos up' (gs_world st') div 1000) \<and>
      fmt_hex (unat (gs_seq st)) = fmt_hex (unat (gs_seq st'))"
    using append_Cons_unique [OF fmt_hex_no_dash fmt_hex_no_dash] by (simp add: new_request_id_def)
  then show "gs_seq st = gs_seq st' \<and> wall_nanos up (gs_world st) div 1000 = wall_nanos up' (gs_world st') div 1000"
    using digits_radix_inj [of 16] by (simp add: word_eq_iff_unsigned [where ?'a = nat])
qed (simp add: new_request_id_def)

text \<open>
  The gateway is read-only.  Every write-shaped operation is refused with \<open>AccessDenied\<close>
  and its request id, and changes nothing but the request counter: no cache and no upstream call.
\<close>

lemma writes_denied:
  "\<exists>e. write_operation up ext op st = (Inl e, st\<lparr>gs_seq := gs_seq st + 1\<rparr>) \<and>
       code e = AccessDenied \<and> message e = message write_denied \<and> request_id e = Some (request_id_of up st)"
  unfolding write_operation_def request_log_new_split
  by (simp add: finish_def attach_def attach_error_request_id_def write_denied_def with_message_def s3_error_new_def)

text \<open>
  Claim C21: a \<^verbatim>\<open>GetObject\<close> trusts the cached identity.  When the metadata of the object is cached, the
  cluster is not asked for it again: the answer carries the cached time and ETag, and the bytes of whatever
  the cached block map, filed under that identity, or a newly opened reader gives.  So a file that was
  replaced within the metadata TTL is served from its old block map, or its new bytes are sent
  under the old ETag.
\<close>

theorem cached_identity_trusted:
  assumes "in_bucket input = bucket (gw_mapper gw)" "key_to_hdfs_path (gw_mapper gw) (in_key input) = Some p"
    and "ttl_get (metadata_ops ops) (clock up (gs_world st)) (metadata (gs_caches st)) p = (Some meta, mc)"
    and "ttl_get (blocks_ops ops) (clock up (gs_world st)) (blocks_cache (gs_caches st)) p = (hit, bc)"
    and "case hit of
           Some v \<Rightarrow> cr_length v = fm_length meta \<and> cr_mtime v = fm_mtime meta \<and> (reader, w) = (cr_reader v, gs_world st)
         | None \<Rightarrow> read_file up (gs_world st) p = (Inr reader, w)"
    and "get_plan ext (object_log up ''GetObject'' p st) input p meta = Inr (a, b, len, cr)" "b \<le> file_length up reader"
  shows "\<exists>resp st'. get_object ops up ext gw input st = (Inr resp, st') \<and> gs_world st' = w \<and>
    e_tag (resp_output resp) = Strong (fallback_etag (fm_length meta) (fm_mtime meta)) \<and>
    last_modified (resp_output resp) = millis_to_timestamp (fm_mtime meta) \<and>
    body (resp_output resp) = bytes_stream (read_range_stream up w reader a (b - a)) (unat (b - a)) (unat (b - a))"
proof -
  let ?st = "st\<lparr>gs_seq := gs_seq st + 1\<rparr>" and ?log = "object_log up ''GetObject'' p st"
  let ?st1 = "?st\<lparr>gs_caches := (gs_caches st)\<lparr>metadata := mc\<rparr>\<rparr>"
  have meta: "file_meta_of ops up ext gw ?log p ?st = (Inr meta, ?st1)"
    using assms(3) by (simp add: file_meta_of_def)
  obtain st' where reader: "open_reader ops up ext gw ?log p meta ?st1 = (Inr reader, st')" "gs_world st' = w"
    using assms(4,5) by (cases hit) (auto simp: open_reader_def Let_def)
  have "get_object ops up ext gw input st = (Inr (get_reply up ext ?log p meta (a, b, len, cr) reader w), st')"
    using assms(1,2,6,7) meta reader by (auto simp: get_object_def request_log_new_split Let_def not_less)
  moreover have out: "resp_output (fst (with_request_id ext (s3_response_new x) l)) = x" for x :: object_get and l
    by (simp add: with_request_id_def s3_response_new_def split: option.split)
  moreover have "etag (from_hdfs p n dir t None) = fallback_etag n t" for n dir t by (simp add: from_hdfs_def etag_def)
  ultimately show ?thesis using reader(2) by (simp add: get_reply_def Let_def out)
qed

section \<open>Instances\<close>

text \<open>The small cluster with one file that can be read, and is cut short by its data node.\<close>

definition test_bytes :: "unit \<Rightarrow> string" where
  "test_bytes r = ''0123456''"

definition test_file_up :: "(unit, unit) upstream" where
  "test_file_up = test_up\<lparr>
     get_file_info := (\<lambda>w p. (if p = ''/data/b.txt'' then Inr (test_status p False) else Inl (FileNotFound p), w)),
     read_file := (\<lambda>w p. (Inr (), w)), file_length := (\<lambda>r. 7),
     read_range_stream := (\<lambda>w r a n. [Inr (take (min 3 (unat n)) (drop (unat a) (test_bytes r)))])\<rparr>"

definition test_get_input :: get_object_input where
  "test_get_input =
     \<lparr>in_bucket = bucket (path_mapper_new data_config), in_key = ''b.txt'', if_match = None,
      if_unmodified_since = None, if_none_match = None, if_modified_since = None,
      in_range = Some (RangeInt 2 None)\<rparr>"

definition test_small_state ::
  "(unit, nat \<times> (string \<times> file_meta entry) list, nat \<times> (string \<times> unit entry) list,
    nat \<times> (string \<times> unit cached_reader entry) list, nat \<times> (string \<times> dir_listing entry) list) gw_state" where
  "test_small_state = \<lparr>gs_caches =
     \<lparr>metadata = ttl_new list_lru 4 5 4, negative = ttl_new list_lru 4 5 4,
      blocks_cache = ttl_new list_lru 4 5 4, dirs_cache = ttl_new list_lru 4 5 4,
      max_dir_entries = 4\<rparr>, gs_world = (), gs_seq = 0\<rparr>"

lemma test_reader: "faithful_reader test_file_up test_bytes"
proof -
  have "prefix (take (min k n) xs) (take n xs)" for k n and xs :: string
    by (metis take_is_prefix take_take)
  then show ?thesis by (simp add: faithful_reader_def test_file_up_def test_bytes_def)
qed

theorem get_object_body_witness:
  "\<exists>resp st'. get_object test_ops test_file_up test_externs (gateway_new data_config) test_get_input test_small_state = (Inr resp, st') \<and>
     body_length (resp_output resp) = 5 \<and> body (resp_output resp) = [Inr ''234'', Inl (ShortRead 5 3)] \<and>
     (\<exists>reader (s :: u64) (e :: u64). prefix ''234'' (take (unat e - unat s) (drop (unat s) (test_bytes reader))))"
proof -
  let ?r = "get_object test_ops test_file_up test_externs (gateway_new data_config) test_get_input test_small_state"
  have run: "(case fst ?r of
      Inr resp \<Rightarrow> body_length (resp_output resp) = 5 \<and> body (resp_output resp) = [Inr ''234'', Inl (ShortRead 5 3)]
    | Inl e \<Rightarrow> False)" by code_simp
  then obtain resp where resp: "fst ?r = Inr resp" "body_length (resp_output resp) = 5"
    "body (resp_output resp) = [Inr ''234'', Inl (ShortRead 5 3)]" by (auto split: sum.splits)
  then have get: "?r = (Inr resp, snd ?r)" by (metis prod.collapse)
  from get_object_body [OF get test_reader] resp(3)
  have "\<exists>reader (s :: u64) (e :: u64). prefix ''234'' (take (unat e - unat s) (drop (unat s) (test_bytes reader)))"
    unfolding Let_def by auto
  with get resp show ?thesis by metis
qed

theorem errors_carry_request_id_witness:
  "carries ''0-0'' (fst (get_object test_ops test_file_up test_externs (gateway_new data_config) test_get_input test_small_state)) \<and>
   (\<exists>e. fst (write_operation test_file_up test_externs DeleteObject test_small_state) = Inl e \<and>
      code e = AccessDenied \<and> carries ''0-0'' (Inl e :: s3_error + unit s3_response))"
proof -
  have id: "fmt_hex (wall_nanos test_file_up (gs_world test_small_state) div 1000) @ ''-'' @ fmt_hex (unat (gs_seq test_small_state)) =
      ''0-0''" by code_simp
  have ok: "\<forall>s. (\<forall>c \<in> set s. 32 \<le> (of_char c :: nat) \<and> (of_char c :: nat) < 127) \<longrightarrow> header_value test_externs s = Some s"
    by (simp add: test_externs_def)
  note answers = errors_carry_request_id [OF ok, where st = test_small_state and up = test_file_up and ops = test_ops
      and gw = "gateway_new data_config" and get_input = test_get_input and op = DeleteObject, unfolded id Let_def]
  have "case fst (write_operation test_file_up test_externs DeleteObject test_small_state) of
       Inl e \<Rightarrow> code e = AccessDenied \<and> carries ''0-0'' (Inl e :: s3_error + unit s3_response)
     | Inr _ \<Rightarrow> False"
    by (rule answers [THEN conjunct2, THEN conjunct2, THEN conjunct2, THEN conjunct2, THEN conjunct2, THEN conjunct2])
  with answers [THEN conjunct1] show ?thesis by (auto split: sum.splits)
qed

text \<open>A file that is replaced (the world turns \<open>True\<close>) after its metadata has been cached.\<close>

definition swap_status :: "bool \<Rightarrow> string \<Rightarrow> file_status" where
  "swap_status new p = (test_status p False)\<lparr>fs_mtime := if new then 99 else 42\<rparr>"

definition swap_up :: "(bool, bool) upstream" where
  "swap_up =
     \<lparr>get_file_info = (\<lambda>w p. (Inr (swap_status w p), w)), list_status = (\<lambda>w d r. (test_ns d, w)),
      read_file = (\<lambda>w p. (Inr w, w)), file_length = (\<lambda>r. 7),
      read_range_stream = (\<lambda>w r a n. [Inr (take (unat n) (drop (unat a) (if r then ''newdata'' else ''olddata'')))]),
      clock = (\<lambda>w. 0), wall_nanos = (\<lambda>w. 0)\<rparr>"

definition swap_state ::
  "(bool, nat \<times> (string \<times> file_meta entry) list, nat \<times> (string \<times> unit entry) list,
    nat \<times> (string \<times> bool cached_reader entry) list, nat \<times> (string \<times> dir_listing entry) list) gw_state" where
  "swap_state = \<lparr>gs_caches =
     \<lparr>metadata = ttl_new list_lru 4 5 4, negative = ttl_new list_lru 4 5 4,
      blocks_cache = ttl_new list_lru 4 5 4, dirs_cache = ttl_new list_lru 4 5 4,
      max_dir_entries = 4\<rparr>, gs_world = False, gs_seq = 0\<rparr>"

definition swap_ops ::
  "(bool, nat \<times> (string \<times> file_meta entry) list, nat \<times> (string \<times> unit entry) list,
    nat \<times> (string \<times> bool cached_reader entry) list, nat \<times> (string \<times> dir_listing entry) list) cache_ops" where
  "swap_ops = test_ops"

definition swap_meta where
  "swap_meta = \<lparr>fm_length = 7, fm_isdir = False, fm_mtime = 42\<rparr>"

definition swapped_state where
  "swapped_state = (snd (file_meta_of swap_ops swap_up test_externs (gateway_new data_config)
     (fst (request_log_new swap_up ''HeadObject'' swap_state)) ''/data/b.txt'' swap_state))\<lparr>gs_world := True\<rparr>"

theorem cached_identity_trusted_witness:
  "\<exists>resp st'. get_object swap_ops swap_up test_externs (gateway_new data_config) test_get_input swapped_state = (Inr resp, st') \<and>
     body (resp_output resp) = [Inr ''wdata''] \<and> e_tag (resp_output resp) = Strong (fallback_etag 7 42) \<and>
     get_file_info swap_up (gs_world swapped_state) ''/data/b.txt'' = (Inr (swap_status True ''/data/b.txt''), True)"
proof -
  have b: "in_bucket test_get_input = bucket (gw_mapper (gateway_new data_config))" by code_simp
  have p: "key_to_hdfs_path (gw_mapper (gateway_new data_config)) (in_key test_get_input) = Some ''/data/b.txt''" by code_simp
  have m: "fst (ttl_get (metadata_ops swap_ops) (clock swap_up (gs_world swapped_state)) (metadata (gs_caches swapped_state)) ''/data/b.txt'') =
      Some swap_meta" by code_simp
  have r: "fst (ttl_get (blocks_ops swap_ops) (clock swap_up (gs_world swapped_state)) (blocks_cache (gs_caches swapped_state)) ''/data/b.txt'') =
      None" by code_simp
  have rd: "case None :: bool cached_reader option of
      Some v \<Rightarrow> cr_length v = fm_length swap_meta \<and> cr_mtime v = fm_mtime swap_meta \<and> (True, True) = (cr_reader v, gs_world swapped_state)
    | None \<Rightarrow> read_file swap_up (gs_world swapped_state) ''/data/b.txt'' = (Inr True, True)" by code_simp
  have plan: "get_plan test_externs (object_log swap_up ''GetObject'' ''/data/b.txt'' swapped_state) test_get_input ''/data/b.txt'' swap_meta =
      Inr (2, 7, 5, Some ''bytes 2-6/7'')" by code_simp
  have len: "(7 :: usize) \<le> file_length swap_up True" by code_simp
  have body: "bytes_stream (read_range_stream swap_up True True 2 (7 - 2)) (unat (7 - 2 :: usize)) (unat (7 - 2 :: usize)) = [Inr ''wdata'']"
    by code_simp
  have meta: "fm_length swap_meta = 7" "fm_mtime swap_meta = 42" by (simp_all add: swap_meta_def)
  have now: "get_file_info swap_up (gs_world swapped_state) ''/data/b.txt'' = (Inr (swap_status True ''/data/b.txt''), True)"
    by (simp add: swapped_state_def swap_up_def)
  obtain mc bc where "ttl_get (metadata_ops swap_ops) (clock swap_up (gs_world swapped_state)) (metadata (gs_caches swapped_state)) ''/data/b.txt'' =
      (Some swap_meta, mc)"
    "ttl_get (blocks_ops swap_ops) (clock swap_up (gs_world swapped_state)) (blocks_cache (gs_caches swapped_state)) ''/data/b.txt'' = (None, bc)"
    using m r by (metis prod.collapse)
  from cached_identity_trusted [OF b p this rd plan len]
  show ?thesis unfolding body meta using now by blast
qed

end
