(* ===== verification/Gateway_System.thy ===== *)
theory Gateway_System
  imports Gateway_Objects
begin

text \<open>
  The running gateway: requests of every kind, the consumption of response bodies and changes of
  the world outside, one after the other.  What its caches hold was answered by upstream no longer
  ago than their time to live, and so is what it tells its clients.
\<close>

section \<open>The steps of the process\<close>

datatype request =
    GetReq get_object_input
  | HeadReq object_input
  | ListReq list_input
  | HeadBucketReq string
  | ListBucketsReq
  | WriteReq write_op
  | ProbeReq probe_op

text \<open>The state a request leaves; \<open>None\<close> if it does not return.\<close>

fun serve ::
  "('r, 'lm, 'ln, 'lb, 'ld) cache_ops \<Rightarrow> ('r, 'w) upstream \<Rightarrow> externs \<Rightarrow> gateway \<Rightarrow> request
     \<Rightarrow> ('w, 'lm, 'ln, 'lb, 'ld) gw_state \<Rightarrow> ('w, 'lm, 'ln, 'lb, 'ld) gw_state option" where
  "serve ops up ext gw (GetReq input) st = Some (snd (get_object ops up ext gw input st))"
| "serve ops up ext gw (HeadReq input) st = Some (snd (head_object ops up ext gw input st))"
| "serve ops up ext gw (ListReq input) st = map_option snd (list_objects_v2 ops up ext gw input st)"
| "serve ops up ext gw (HeadBucketReq b) st = Some (snd (head_bucket up ext gw b st))"
| "serve ops up ext gw ListBucketsReq st = Some (snd (list_buckets up ext gw st))"
| "serve ops up ext gw (WriteReq op) st = Some (snd (write_operation up ext op st))"
| "serve ops up ext gw (ProbeReq op) st = Some (snd (probe_operation up ext op st))"

text \<open>\<open>env\<close> is what may happen outside the process between two of its actions.\<close>

inductive gw_step ::
  "('r, 'lm, 'ln, 'lb, 'ld) cache_ops \<Rightarrow> ('r, 'w) upstream \<Rightarrow> externs \<Rightarrow> gateway \<Rightarrow> ('w \<Rightarrow> 'w \<Rightarrow> bool)
     \<Rightarrow> ('w, 'lm, 'ln, 'lb, 'ld) gw_state \<Rightarrow> ('w, 'lm, 'ln, 'lb, 'ld) gw_state \<Rightarrow> bool"
  for ops up ext gw env where
  served: "serve ops up ext gw req st = Some st' \<Longrightarrow> gw_step ops up ext gw env st st'"
| consumed: "gw_step ops up ext gw env st (consume_body ops p stream n st)"
| elapsed: "env (gs_world st) w \<Longrightarrow> gw_step ops up ext gw env st (st\<lparr>gs_world := w\<rparr>)"

section \<open>What upstream has answered\<close>

text \<open>
  \<open>seen w\<close> is the history of \<^verbatim>\<open>get_file_info\<close>: when upstream answered what for which path.
\<close>

type_synonym history = "(nat \<times> string \<times> (hdfs_error + file_status)) set"

definition later :: "('r, 'w) upstream \<Rightarrow> ('w \<Rightarrow> 'h set) \<Rightarrow> 'w \<Rightarrow> 'w \<Rightarrow> bool" where
  "later up seen w w' \<longleftrightarrow> seen w \<subseteq> seen w' \<and> clock up w \<le> clock up w'"

definition observed :: "('r, 'w) upstream \<Rightarrow> ('w \<Rightarrow> 'w \<Rightarrow> bool) \<Rightarrow> ('w \<Rightarrow> history) \<Rightarrow> bool" where
  "observed up env seen \<longleftrightarrow>
     (\<forall>w p. later up seen w (snd (get_file_info up w p)) \<and>
            (clock up (snd (get_file_info up w p)), p, fst (get_file_info up w p)) \<in> seen (snd (get_file_info up w p))) \<and>
     (\<forall>w p. later up seen w (snd (read_file up w p))) \<and>
     (\<forall>w p r. later up seen w (snd (list_status up w p r))) \<and>
     (\<forall>w w'. env w w' \<longrightarrow> later up seen w w') \<and>
     (\<forall>w t p a. (t, p, a) \<in> seen w \<longrightarrow> t \<le> clock up w)"

lemma later_refl [simp]: "later up seen w w"
  by (simp add: later_def)

lemma later_trans: "later up seen w w' \<Longrightarrow> later up seen w' w'' \<Longrightarrow> later up seen w w''"
  by (auto simp: later_def)

text \<open>An answer that says \<open>good\<close>, no older than \<open>T\<close>, or given just now.\<close>

definition answered :: "('r, 'w) upstream \<Rightarrow> ('w \<Rightarrow> history) \<Rightarrow> nat \<Rightarrow> 'w \<Rightarrow> string \<Rightarrow> (hdfs_error + file_status \<Rightarrow> bool) \<Rightarrow> bool" where
  "answered up seen T w p good \<longleftrightarrow>
     (\<exists>t a. (t, p, a) \<in> seen w \<and> good a \<and> t \<le> clock up w \<and> (clock up w - t < T \<or> t = clock up w))"

lemma answered_mono:
  "answered up seen T w p good \<Longrightarrow> (\<And>a. good a \<Longrightarrow> good' a) \<Longrightarrow> answered up seen T w p good'"
  unfolding answered_def by blast

section \<open>Caches of recent answers\<close>

definition recent :: "(nat \<times> 'k \<times> 'a) set \<Rightarrow> nat \<Rightarrow> ('a \<Rightarrow> 'v \<Rightarrow> bool) \<Rightarrow> nat \<Rightarrow> 'k \<Rightarrow> 'v \<Rightarrow> bool" where
  "recent S T good now k v \<longleftrightarrow> (\<exists>t a. (t, k, a) \<in> S \<and> good a v \<and> now - t < T)"

definition cache_recent where
  "cache_recent ops valid cap items S good c \<longleftrightarrow>
     ttl_lru ops valid cap items \<and>
     ttl_store.sound (live items) (cache_inv valid items) (recent S (ttl c) good) c"

lemma cache_recent_get:
  assumes "cache_recent ops valid cap items S good c"
  shows "cache_recent ops valid cap items S good (snd (ttl_get ops now c k))"
    and "ttl (snd (ttl_get ops now c k)) = ttl c"
    and "fst (ttl_get ops now c k) = Some v \<Longrightarrow> recent S (ttl c) good now k v"
proof -
  from assms have L: "ttl_lru ops valid cap items"
    and S: "ttl_store.sound (live items) (cache_inv valid items) (recent S (ttl c) good) c"
    by (simp_all add: cache_recent_def)
  note store = ttl_lru.is_store [OF L]
  show ttl: "ttl (snd (ttl_get ops now c k)) = ttl c"
    using ttl_store.get_law [OF store] S unfolding ttl_store.sound_def [OF store] by blast
  show "cache_recent ops valid cap items S good (snd (ttl_get ops now c k))"
    unfolding cache_recent_def ttl using L ttl_store.sound_get [OF store S] by blast
  show "fst (ttl_get ops now c k) = Some v \<Longrightarrow> recent S (ttl c) good now k v"
    by (rule ttl_store.sound_get_result [OF store S])
qed

lemma cache_recent_insert:
  assumes "cache_recent ops valid cap items S good c" "(now, k, a) \<in> S" "good a v"
  shows "cache_recent ops valid cap items S good (ttl_insert ops now c k v n)"
    and "ttl (ttl_insert ops now c k v n) = ttl c"
proof -
  from assms have L: "ttl_lru ops valid cap items"
    and S: "ttl_store.sound (live items) (cache_inv valid items) (recent S (ttl c) good) c"
    by (simp_all add: cache_recent_def)
  note store = ttl_lru.is_store [OF L]
  show ttl: "ttl (ttl_insert ops now c k v n) = ttl c"
    using ttl_store.ins_law [OF store] S unfolding ttl_store.sound_def [OF store] by blast
  have "recent S (ttl c) good t k v" if "t - now < ttl c" for t
    using that assms(2,3) by (auto simp: recent_def)
  from ttl_store.sound_ins [OF store S this]
  show "cache_recent ops valid cap items S good (ttl_insert ops now c k v n)"
    unfolding cache_recent_def ttl using L by blast
qed

lemma cache_recent_remove:
  assumes "cache_recent ops valid cap items S good c"
  shows "cache_recent ops valid cap items S good (ttl_remove ops c k)" "ttl (ttl_remove ops c k) = ttl c"
proof -
  from assms have L: "ttl_lru ops valid cap items"
    and S: "ttl_store.sound (live items) (cache_inv valid items) (recent S (ttl c) good) c"
    by (simp_all add: cache_recent_def)
  note store = ttl_lru.is_store [OF L]
  show ttl: "ttl (ttl_remove ops c k) = ttl c"
    using ttl_store.rem_law [OF store] S unfolding ttl_store.sound_def [OF store] by blast
  show "cache_recent ops valid cap items S good (ttl_remove ops c k)"
    unfolding cache_recent_def ttl using L ttl_store.sound_rem [OF store S] by blast
qed

lemma cache_recent_mono:
  "cache_recent ops valid cap items S good c \<Longrightarrow> S \<subseteq> S' \<Longrightarrow> cache_recent ops valid cap items S' good c"
  unfolding cache_recent_def recent_def
  by (blast intro: ttl_store.sound_mono [OF ttl_lru.is_store])

lemma cache_recent_new:
  assumes "ttl_lru ops valid cap items" "0 < n" "2 * unat mw < 2 ^ 64"
  shows "cache_recent ops valid cap items S good (ttl_new ops n t mw)"
  using assms ttl_lru.sound_new [OF assms] by (simp add: cache_recent_def)

section \<open>The invariant\<close>

definition meta_of :: "file_status \<Rightarrow> file_meta" where
  "meta_of s = \<lparr>fm_length = fs_length s, fm_isdir = fs_isdir s, fm_mtime = fs_mtime s\<rparr>"

definition says_meta :: "hdfs_error + file_status \<Rightarrow> file_meta \<Rightarrow> bool" where
  "says_meta a v = (case a of Inr s \<Rightarrow> v = meta_of s | Inl e \<Rightarrow> False)"

definition says_missing :: "hdfs_error + file_status \<Rightarrow> unit \<Rightarrow> bool" where
  "says_missing a v = (case a of Inr s \<Rightarrow> False | Inl e \<Rightarrow> is_file_not_found e)"

text \<open>The contracts of the two LRU maps involved.\<close>

record ('lm, 'ln) lru_views =
  vm :: "'lm \<Rightarrow> bool"
  cm :: "'lm \<Rightarrow> nat"
  im :: "'lm \<Rightarrow> (string \<times> file_meta entry) list"
  vn :: "'ln \<Rightarrow> bool"
  cn :: "'ln \<Rightarrow> nat"
  inn :: "'ln \<Rightarrow> (string \<times> unit entry) list"

definition fresh_inv ::
  "('r, 'lm, 'ln, 'lb, 'ld) cache_ops \<Rightarrow> ('r, 'w) upstream \<Rightarrow> ('w \<Rightarrow> 'w \<Rightarrow> bool) \<Rightarrow> ('w \<Rightarrow> history)
     \<Rightarrow> ('lm, 'ln) lru_views \<Rightarrow> ('w, 'lm, 'ln, 'lb, 'ld) gw_state \<Rightarrow> bool" where
  "fresh_inv ops up env seen views st \<longleftrightarrow>
     observed up env seen \<and>
     cache_recent (metadata_ops ops) (vm views) (cm views) (im views) (seen (gs_world st)) says_meta
       (metadata (gs_caches st)) \<and>
     cache_recent (negative_ops ops) (vn views) (cn views) (inn views) (seen (gs_world st)) says_missing
       (negative (gs_caches st))"

text \<open>An action that keeps the invariant and the times to live, and does not undo history.\<close>

definition fresh_to where
  "fresh_to ops up env seen views st st' \<longleftrightarrow>
     (fresh_inv ops up env seen views st \<longrightarrow>
        fresh_inv ops up env seen views st' \<and> later up seen (gs_world st) (gs_world st') \<and>
        ttl (metadata (gs_caches st')) = ttl (metadata (gs_caches st)) \<and>
        ttl (negative (gs_caches st')) = ttl (negative (gs_caches st)))"

lemma fresh_to_refl [simp]: "fresh_to ops up env seen views st st"
  by (simp add: fresh_to_def)

lemma fresh_to_trans:
  "fresh_to ops up env seen views st st' \<Longrightarrow> fresh_to ops up env seen views st' st'' \<Longrightarrow>
   fresh_to ops up env seen views st st''"
  by (auto simp: fresh_to_def intro: later_trans)

lemma fresh_to_world:
  assumes "observed up env seen \<Longrightarrow> later up seen (gs_world st) (gs_world st')"
    and "metadata (gs_caches st') = metadata (gs_caches st)" "negative (gs_caches st') = negative (gs_caches st)"
  shows "fresh_to ops up env seen views st st'"
  using assms by (auto simp: fresh_to_def fresh_inv_def later_def intro: cache_recent_mono)

interpretation frame: lister_frame "hdfs_list_dir ops up m" "fresh_to ops up env seen views"
  for ops :: "('r, 'lm, 'ln, 'lb, 'ld) cache_ops" and up :: "('r, 'w) upstream" and m env seen views
proof
  fix s :: "('w, 'lm, 'ln, 'lb, 'ld) gw_state" and d
  show "fresh_to ops up env seen views s (snd (hdfs_list_dir ops up m s d))"
  proof (rule fresh_to_world)
    obtain r w where call: "list_status up (gs_world s) d False = (r, w)" by fastforce
    assume "observed up env seen"
    then have "later up seen (gs_world s) w" using call unfolding observed_def by (metis snd_conv)
    then show "later up seen (gs_world s) (gs_world (snd (hdfs_list_dir ops up m s d)))"
      using call by (auto simp: hdfs_list_dir_def Let_def split: prod.split option.split sum.split)
  qed (auto simp: hdfs_list_dir_def Let_def split: prod.split option.split sum.split)
qed (auto intro: fresh_to_trans)

lemma list_page_fresh:
  assumes "list_page (hdfs_list_dir ops up m) m' pre delimiter after n st = Some (r, st')"
  shows "fresh_to ops up env seen views st st'"
proof -
  have call: "hdfs_list_dir ops up m st d = (x, st'') \<Longrightarrow> fresh_to ops up env seen views st st''" for d x st''
    by (rule frame.frame_answer)
  have page: "collect_page (hdfs_list_dir ops up m) k sl st = Some (x, sl', st'') \<Longrightarrow> fresh_to ops up env seen views st st''"
    for k sl x sl' st'' by (rule frame.collect_page_frame)
  from assms show ?thesis
    by (auto simp: list_page_def Let_def dest: call page split: if_splits option.splits sum.splits prod.splits)
qed

section \<open>Metadata\<close>

text \<open>The two lookups before upstream is asked.\<close>

lemma fresh_lookup:
  assumes inv: "fresh_inv ops up env seen views st"
    and get: "ttl_get (metadata_ops ops) now (metadata (gs_caches st)) p = (hit, mc)"
    and neg: "ttl_get (negative_ops ops) now (negative (gs_caches st)) p = (miss, nc)"
  shows "fresh_to ops up env seen views st (st\<lparr>gs_caches := (gs_caches st)\<lparr>metadata := mc\<rparr>\<rparr>)"
    and "fresh_to ops up env seen views st (st\<lparr>gs_caches := (gs_caches st)\<lparr>metadata := mc, negative := nc\<rparr>\<rparr>)"
    and "hit = Some v \<Longrightarrow> recent (seen (gs_world st)) (ttl (metadata (gs_caches st))) says_meta now p v"
    and "miss = Some u \<Longrightarrow> recent (seen (gs_world st)) (ttl (negative (gs_caches st))) says_missing now p u"
proof -
  from inv have M: "cache_recent (metadata_ops ops) (vm views) (cm views) (im views) (seen (gs_world st)) says_meta
       (metadata (gs_caches st))"
    and N: "cache_recent (negative_ops ops) (vn views) (cn views) (inn views) (seen (gs_world st)) says_missing
       (negative (gs_caches st))"
    by (simp_all add: fresh_inv_def)
  note M' = cache_recent_get [OF M, of now p, unfolded get fst_conv snd_conv]
  note N' = cache_recent_get [OF N, of now p, unfolded neg fst_conv snd_conv]
  show "fresh_to ops up env seen views st (st\<lparr>gs_caches := (gs_caches st)\<lparr>metadata := mc\<rparr>\<rparr>)"
    "fresh_to ops up env seen views st (st\<lparr>gs_caches := (gs_caches st)\<lparr>metadata := mc, negative := nc\<rparr>\<rparr>)"
    using M'(1,2) N'(1,2) by (simp_all add: fresh_to_def fresh_inv_def)
  show "hit = Some v \<Longrightarrow> recent (seen (gs_world st)) (ttl (metadata (gs_caches st))) says_meta now p v"
    "miss = Some u \<Longrightarrow> recent (seen (gs_world st)) (ttl (negative (gs_caches st))) says_missing now p u"
    by (fact M'(3), fact N'(3))
qed

lemma fresh_insert:
  shows "(now, p, a) \<in> seen (gs_world st) \<Longrightarrow> says_meta a v \<Longrightarrow>
      fresh_to ops up env seen views st (st\<lparr>gs_caches := (gs_caches st)\<lparr>metadata :=
        ttl_insert (metadata_ops ops) now (metadata (gs_caches st)) p v n\<rparr>\<rparr>)"
    and "(now, p, a) \<in> seen (gs_world st) \<Longrightarrow> says_missing a u \<Longrightarrow>
      fresh_to ops up env seen views st (st\<lparr>gs_caches := (gs_caches st)\<lparr>negative :=
        ttl_insert (negative_ops ops) now (negative (gs_caches st)) p u n\<rparr>\<rparr>)"
  by (auto simp: fresh_to_def fresh_inv_def intro: cache_recent_insert)

lemma recent_answered:
  assumes "recent (seen w) T good (clock up w) p v" "observed up env seen" "\<And>a. good a v \<Longrightarrow> good' a"
  shows "answered up seen T w p good'"
  using assms unfolding recent_def answered_def observed_def by blast

text \<open>What the answer of a metadata lookup rests on.\<close>

definition meta_answer where
  "meta_answer up ext seen st w p r \<longleftrightarrow>
     (case r of
        Inr meta \<Rightarrow> answered up seen (ttl (metadata (gs_caches st))) w p (\<lambda>a. says_meta a meta)
      | Inl e \<Rightarrow> code e = NoSuchKey \<longrightarrow>
          answered up seen (ttl (negative (gs_caches st))) w p
            (\<lambda>a. case a of Inr s \<Rightarrow> False | Inl x \<Rightarrow> code (map_hdfs_error (err_to_string ext) x True) = NoSuchKey))"

lemma code_attach [simp]: "code (attach ext log e) = code e"
  by (simp add: attach_def attach_error_request_id_def)

lemma not_found_code: "is_file_not_found e \<Longrightarrow> code (map_hdfs_error f e b) = NoSuchKey"
  by (cases e) (simp_all add: code_map_hdfs_error)

lemma code_expose: "code (map_hdfs_error f e (expose_upstream_errors c)) = code (map_hdfs_error f e True)"
  by (simp add: code_map_hdfs_error)

lemma file_meta_of_cached:
  assumes inv: "fresh_inv ops up env seen views st"
    and get: "ttl_get (metadata_ops ops) (clock up (gs_world st)) (metadata (gs_caches st)) p = (hit, mc)"
    and neg: "ttl_get (negative_ops ops) (clock up (gs_world st)) (negative (gs_caches st)) p = (miss, nc)"
    and known: "hit \<noteq> None \<or> miss \<noteq> None"
    and run: "file_meta_of ops up ext gw log p st = (r, st')"
  shows "fresh_to ops up env seen views st st' \<and> meta_answer up ext seen st (gs_world st') p r"
proof (cases hit)
  case (Some meta)
  note look = fresh_lookup [OF inv get neg]
  from Some run get have "r = Inr meta" "st' = st\<lparr>gs_caches := (gs_caches st)\<lparr>metadata := mc\<rparr>\<rparr>"
    by (simp_all add: file_meta_of_def)
  with look(1) look(3) [OF Some] inv show ?thesis
    by (auto simp: meta_answer_def fresh_inv_def intro: recent_answered)
next
  case None
  note look = fresh_lookup [OF inv get neg]
  from None known obtain u where miss: "miss = Some u" by auto
  from None miss run get neg have st': "st' = st\<lparr>gs_caches := (gs_caches st)\<lparr>metadata := mc, negative := nc\<rparr>\<rparr>"
    "r = err_resp ext log NoSuchKey" by (simp_all add: file_meta_of_def Let_def)
  have "observed up env seen" using inv by (simp add: fresh_inv_def)
  with look(4) [OF miss] have "answered up seen (ttl (negative (gs_caches st))) (gs_world st) p
      (\<lambda>a. case a of Inr s \<Rightarrow> False | Inl x \<Rightarrow> code (map_hdfs_error (err_to_string ext) x True) = NoSuchKey)"
    by (rule recent_answered) (auto simp: says_missing_def not_found_code split: sum.splits)
  with st' look(2) show ?thesis by (simp add: meta_answer_def)
qed

lemma file_meta_of_asked:
  assumes inv: "fresh_inv ops up env seen views st"
    and get: "ttl_get (metadata_ops ops) (clock up (gs_world st)) (metadata (gs_caches st)) p = (None, mc)"
    and neg: "ttl_get (negative_ops ops) (clock up (gs_world st)) (negative (gs_caches st)) p = (None, nc)"
    and run: "file_meta_of ops up ext gw log p st = (r, st')"
  shows "fresh_to ops up env seen views st st' \<and> meta_answer up ext seen st (gs_world st') p r"
proof -
  obtain a w where call: "get_file_info up (gs_world st) p = (a, w)" by fastforce
  let ?st2 = "st\<lparr>gs_caches := (gs_caches st)\<lparr>metadata := mc, negative := nc\<rparr>, gs_world := w\<rparr>"
  have w: "later up seen (gs_world st) w" "(clock up w, p, a) \<in> seen w"
    using inv call unfolding fresh_inv_def observed_def by (metis fst_conv snd_conv)+
  have now: "answered up seen T w p good" if "good a" for T good
    using that w(2) by (auto simp: answered_def)
  have st2: "fresh_to ops up env seen views st ?st2"
    by (rule fresh_to_trans [OF fresh_lookup(2) [OF inv get neg] fresh_to_world]) (simp_all add: w)
  show ?thesis
  proof (cases a)
    case (Inr s)
    with run get neg call have st': "st' = ?st2\<lparr>gs_caches := (gs_caches ?st2)\<lparr>metadata :=
        ttl_insert (metadata_ops ops) (clock up w) (metadata (gs_caches ?st2)) p (meta_of s) 1\<rparr>\<rparr>" "r = Inr (meta_of s)"
      by (simp_all add: file_meta_of_def Let_def meta_of_def)
    have "fresh_to ops up env seen views ?st2 st'"
      unfolding st' using w(2) Inr by (intro fresh_insert(1) [where a = a]) (simp_all add: says_meta_def)
    with st' st2 now Inr show ?thesis by (auto simp: meta_answer_def says_meta_def intro: fresh_to_trans)
  next
    case (Inl e)
    have "meta_answer up ext seen st w p r"
      using run get neg call Inl now
      by (auto simp: meta_answer_def file_meta_of_def Let_def not_found_code code_expose split: if_splits)
    moreover have "fresh_to ops up env seen views ?st2 st'"
    proof (cases "is_file_not_found e")
      case True
      with run get neg call Inl have st': "st' = ?st2\<lparr>gs_caches := (gs_caches ?st2)\<lparr>negative :=
          ttl_insert (negative_ops ops) (clock up w) (negative (gs_caches ?st2)) p () 1\<rparr>\<rparr>"
        by (simp add: file_meta_of_def Let_def)
      show ?thesis
        unfolding st' using w(2) Inl True by (intro fresh_insert(2) [where a = a]) (simp_all add: says_missing_def)
    next
      case False
      with run get neg call Inl have "st' = ?st2" by (simp add: file_meta_of_def Let_def)
      then show ?thesis by simp
    qed
    moreover have "gs_world st' = w"
      using run get neg call Inl by (auto simp: file_meta_of_def Let_def split: if_splits)
    ultimately show ?thesis using st2 by (auto intro: fresh_to_trans)
  qed
qed

lemma file_meta_of_fresh:
  assumes inv: "fresh_inv ops up env seen views st"
    and run: "file_meta_of ops up ext gw log p st = (r, st')"
  shows "fresh_to ops up env seen views st st' \<and> meta_answer up ext seen st (gs_world st') p r"
proof -
  obtain hit mc where get: "ttl_get (metadata_ops ops) (clock up (gs_world st)) (metadata (gs_caches st)) p = (hit, mc)"
    by fastforce
  obtain miss nc where neg: "ttl_get (negative_ops ops) (clock up (gs_world st)) (negative (gs_caches st)) p = (miss, nc)"
    by fastforce
  show ?thesis
    using file_meta_of_cached [OF inv get neg _ run] file_meta_of_asked [OF inv _ _ run] get neg
    by (cases "hit = None \<and> miss = None") auto
qed

section \<open>Every step keeps the invariant\<close>

lemma fresh_to_drop:
  assumes "observed up env seen \<Longrightarrow> later up seen (gs_world st) (gs_world st')"
    and "metadata (gs_caches st') = metadata (gs_caches st) \<or>
         metadata (gs_caches st') = ttl_remove (metadata_ops ops) (metadata (gs_caches st)) p"
    and "negative (gs_caches st') = negative (gs_caches st)"
  shows "fresh_to ops up env seen views st st'"
  using assms(1,3) assms(2)
  by (auto simp: fresh_to_def fresh_inv_def later_def cache_recent_remove intro: cache_recent_mono
      cache_recent_mono [OF cache_recent_remove(1)])

lemma open_reader_fresh:
  assumes "open_reader ops up ext gw log p meta st = (r, st')"
  shows "fresh_to ops up env seen views st st'"
proof (rule fresh_to_drop [where p = p])
  obtain a w where call: "read_file up (gs_world st) p = (a, w)" by fastforce
  assume "observed up env seen"
  then have "later up seen (gs_world st) w" using call unfolding observed_def by (metis snd_conv)
  then show "later up seen (gs_world st) (gs_world st')"
    using assms call by (auto simp: open_reader_def Let_def split: if_splits prod.splits option.splits sum.splits)
qed (use assms in \<open>auto simp: open_reader_def Let_def split: if_splits prod.splits option.splits sum.splits\<close>)

lemma forget_object_fresh: "fresh_to ops up env seen views st (forget_object ops p st)"
  by (rule fresh_to_drop [where p = p]) (simp_all add: forget_object_def)

lemma consume_body_fresh: "fresh_to ops up env seen views st (consume_body ops p stream n st)"
proof -
  have "fresh_to ops up env seen views st
      (fold (\<lambda>pull st. case pull of Inl e \<Rightarrow> forget_object ops p st | Inr bytes \<Rightarrow> st) pulls st)" for pulls
    by (induction pulls arbitrary: st)
       (auto intro: fresh_to_trans [OF forget_object_fresh] split: sum.split)
  then show ?thesis by (simp add: consume_body_def)
qed

lemma fresh_to_seq [simp]: "fresh_to ops up env seen views st (st\<lparr>gs_seq := k\<rparr>)"
  by (rule fresh_to_world) simp_all

lemma file_meta_of_fresh_to:
  "file_meta_of ops up ext gw log p st = (r, st') \<Longrightarrow> fresh_to ops up env seen views st st'"
  using file_meta_of_fresh [of ops up env seen views st] by (auto simp: fresh_to_def)

lemma head_object_fresh: "fresh_to ops up env seen views st (snd (head_object ops up ext gw input st))"
  unfolding head_object_def head_reply_def request_log_new_split Let_def
  by (auto intro: fresh_to_trans [OF fresh_to_seq] dest: file_meta_of_fresh_to split: option.split prod.split sum.split)

lemma get_object_preserves:
  assumes "Q (st\<lparr>gs_seq := gs_seq st + 1\<rparr>)"
    and meta: "\<And>log p r s s'. file_meta_of ops up ext gw log p s = (r, s') \<Longrightarrow> Q s \<Longrightarrow> Q s'"
    and reader: "\<And>log p meta r s s'. open_reader ops up ext gw log p meta s = (r, s') \<Longrightarrow> Q s \<Longrightarrow> Q s'"
    and forget: "\<And>p s. Q s \<Longrightarrow> Q (forget_object ops p s)"
  shows "Q (snd (get_object ops up ext gw input st))"
  unfolding get_object_def get_plan_def get_reply_def request_log_new_split Let_def usize_try_from_def
  by (auto intro: assms(1) intro!: forget dest!: meta [OF _ assms(1)] dest: reader split: option.split prod.split sum.split)

lemma get_object_fresh: "fresh_to ops up env seen views st (snd (get_object ops up ext gw input st))"
  by (rule get_object_preserves)
     (auto intro: fresh_to_trans file_meta_of_fresh_to open_reader_fresh forget_object_fresh)

lemma list_objects_v2_fresh:
  assumes "list_objects_v2 ops up ext gw input st = Some (r, st')"
  shows "fresh_to ops up env seen views st st'"
proof -
  have "st' = st\<lparr>gs_seq := gs_seq st + 1\<rparr> \<or>
      (\<exists>m pre delimiter after n r. list_page (hdfs_list_dir ops up m) m pre delimiter after n (st\<lparr>gs_seq := gs_seq st + 1\<rparr>) = Some (r, st'))"
    using assms unfolding list_objects_v2_def list_resume_def request_log_new_split Let_def
    by (fastforce split: if_splits option.splits sum.splits prod.splits)
  then show ?thesis using fresh_to_trans [OF fresh_to_seq list_page_fresh] by fastforce
qed

lemma serve_fresh: "serve ops up ext gw req st = Some st' \<Longrightarrow> fresh_to ops up env seen views st st'"
proof (cases req)
  case (ListReq input)
  then show "serve ops up ext gw req st = Some st' \<Longrightarrow> fresh_to ops up env seen views st st'"
    by (auto intro: list_objects_v2_fresh)
qed (auto intro: get_object_fresh head_object_fresh
      simp: head_bucket_def list_buckets_def write_operation_def probe_operation_def request_log_new_split)

lemma gw_step_fresh: "gw_step ops up ext gw env st st' \<Longrightarrow> fresh_to ops up env seen views st st'"
proof (induction rule: gw_step.induct)
  case (elapsed st w)
  then show ?case by (intro fresh_to_world) (auto simp: observed_def)
qed (auto intro: serve_fresh consume_body_fresh)

lemma run_fresh: "(gw_step ops up ext gw env)\<^sup>*\<^sup>* st st' \<Longrightarrow> fresh_to ops up env seen views st st'"
  by (induction rule: rtranclp_induct) (auto intro: fresh_to_trans gw_step_fresh)

lemma fresh_inv_new:
  assumes "ttl_lru (metadata_ops ops) (vm views) (cm views) (im views)"
    and "ttl_lru (negative_ops ops) (vn views) (cn views) (inn views)"
    and "observed up env seen" "2 * unat (metadata_capacity config) < 2 ^ 64"
  shows "fresh_inv ops up env seen views \<lparr>gs_caches = caches_new ops config, gs_world = w, gs_seq = n\<rparr>"
  using assms(3)
  by (simp add: fresh_inv_def caches_new_def cache_recent_new [OF assms(1) capacity_pos assms(4)]
      cache_recent_new [OF assms(2) capacity_pos assms(4)])

lemma head_object_cases:
  assumes "in_bucket input = bucket (gw_mapper gw)" "key_to_hdfs_path (gw_mapper gw) (in_key input) = Some p"
    and "file_meta_of ops up ext gw (object_log up ''HeadObject'' p st) p (st\<lparr>gs_seq := gs_seq st + 1\<rparr>) = (r, st')"
  shows "snd (head_object ops up ext gw input st) = st' \<and>
    (case (fst (head_object ops up ext gw input st), r) of
       (Inr resp, Inr meta) \<Rightarrow> \<not> fm_isdir meta \<and> content_length (resp_output resp) = sint (fm_length meta) \<and>
         last_modified (resp_output resp) = millis_to_timestamp (fm_mtime meta) \<and>
         e_tag (resp_output resp) = Strong (fallback_etag (fm_length meta) (fm_mtime meta))
     | (Inl e, Inr meta) \<Rightarrow> code e = NoSuchKey \<longleftrightarrow> fm_isdir meta
     | (Inl e, Inl e') \<Rightarrow> e = e'
     | (Inr resp, Inl e') \<Rightarrow> False)"
  unfolding head_object_def head_reply_def request_log_new_split Let_def using assms
  by (auto simp: with_request_id_def s3_response_new_def s3_error_new_def etag_def from_hdfs_def check_conditions_def
      split: sum.splits option.splits if_splits etag_condition.splits)

section \<open>Properties\<close>

text \<open>
  What \<^verbatim>\<open>HeadObject\<close> tells a client is at most one time to live old.  After any sequence
  of requests, bodies and outside events since the start, a success reports the length, modification time
  and ETag of an answer upstream gave for that very path no longer than the metadata TTL ago (or
  just now); \<open>NoSuchKey\<close> for a key with a path rests on an answer that the path is missing,
  no older than the negative TTL, or that it is a directory, no older than the metadata TTL.
\<close>

lemma head_object_recent:
  fixes views :: "('lm, 'ln) lru_views"
  assumes "(gw_step ops up ext gw env)\<^sup>*\<^sup>* \<lparr>gs_caches = caches_new ops config, gs_world = w, gs_seq = n\<rparr> st"
    and "ttl_lru (metadata_ops ops) (vm views) (cm views) (im views)"
    and "ttl_lru (negative_ops ops) (vn views) (cn views) (inn views)"
    and "observed up env seen" "2 * unat (metadata_capacity config) < 2 ^ 64"
    and "in_bucket input = bucket (gw_mapper gw)" "key_to_hdfs_path (gw_mapper gw) (in_key input) = Some p"
  shows "case head_object ops up ext gw input st of
      (Inr resp, st') \<Rightarrow>
        (\<exists>meta. \<not> fm_isdir meta \<and> content_length (resp_output resp) = sint (fm_length meta) \<and>
           last_modified (resp_output resp) = millis_to_timestamp (fm_mtime meta) \<and>
           e_tag (resp_output resp) = Strong (fallback_etag (fm_length meta) (fm_mtime meta)) \<and>
           answered up seen (ttl_of config (metadata_ttl_ms config)) (gs_world st') p (\<lambda>a. says_meta a meta))
    | (Inl e, st') \<Rightarrow> code e = NoSuchKey \<longrightarrow>
        answered up seen (ttl_of config (negative_ttl_ms config)) (gs_world st') p
          (\<lambda>a. case a of Inr s \<Rightarrow> False | Inl x \<Rightarrow> code (map_hdfs_error (err_to_string ext) x True) = NoSuchKey) \<or>
        answered up seen (ttl_of config (metadata_ttl_ms config)) (gs_world st') p
          (\<lambda>a. case a of Inr s \<Rightarrow> fs_isdir s | Inl x \<Rightarrow> False)"
proof -
  let ?init = "\<lparr>gs_caches = caches_new ops config, gs_world = w, gs_seq = n\<rparr>"
  let ?st = "st\<lparr>gs_seq := gs_seq st + 1\<rparr>"
  have "fresh_to ops up env seen views ?init ?st"
    using run_fresh [OF assms(1)] fresh_to_seq by (rule fresh_to_trans)
  then have inv: "fresh_inv ops up env seen views ?st"
    and ttl: "ttl (metadata (gs_caches ?st)) = ttl_of config (metadata_ttl_ms config)"
      "ttl (negative (gs_caches ?st)) = ttl_of config (negative_ttl_ms config)"
    using fresh_inv_new [OF assms(2-5), of w n] by (simp_all add: fresh_to_def caches_new_def ttl_new_def)
  obtain r st' where meta: "file_meta_of ops up ext gw (object_log up ''HeadObject'' p st) p ?st = (r, st')"
    by fastforce
  from file_meta_of_fresh [OF inv meta] have ans: "meta_answer up ext seen ?st (gs_world st') p r" by blast
  have dir: "answered up seen T w' p (\<lambda>a. case a of Inr s \<Rightarrow> fs_isdir s | Inl x \<Rightarrow> False)"
    if "answered up seen T w' p (\<lambda>a. says_meta a m)" "fm_isdir m" for T w' m
    using that(1) by (rule answered_mono) (use that(2) in \<open>auto simp: says_meta_def meta_of_def split: sum.splits\<close>)
  obtain h sth where call: "head_object ops up ext gw input st = (h, sth)" by fastforce
  from head_object_cases [OF assms(6,7) meta] ans dir show ?thesis
    unfolding call by (auto simp: meta_answer_def ttl [simplified] split: sum.splits)
qed

section \<open>Instances\<close>

text \<open>A cluster whose world is its history and the time.\<close>

definition hist_answer :: "string \<Rightarrow> hdfs_error + file_status" where
  "hist_answer p = (if p = ''/data/b.txt'' then Inr (test_status p False) else Inl (FileNotFound p))"

definition hist_up :: "(unit, history \<times> nat) upstream" where
  "hist_up =
     \<lparr>get_file_info = (\<lambda>(h, t) p. (hist_answer p, (insert (t, p, hist_answer p) h, t))),
      list_status = (\<lambda>w d r. (test_ns d, w)), read_file = (\<lambda>w p. (Inr (), w)), file_length = (\<lambda>r. 7),
      read_range_stream = (\<lambda>w r a n. []), clock = snd, wall_nanos = snd\<rparr>"

definition hist_seen :: "history \<times> nat \<Rightarrow> history" where
  "hist_seen w = {x \<in> fst w. fst x \<le> snd w}"

definition hist_env :: "history \<times> nat \<Rightarrow> history \<times> nat \<Rightarrow> bool" where
  "hist_env w w' \<longleftrightarrow> fst w' = fst w \<and> snd w \<le> snd w'"

lemma hist_observed: "observed hist_up hist_env hist_seen"
  by (auto simp: observed_def later_def hist_up_def hist_seen_def hist_env_def)

definition test_views where
  "test_views = \<lparr>vm = list_lru_valid, cm = fst, im = snd, vn = list_lru_valid, cn = fst, inn = snd\<rparr>"

definition hist_state where
  "hist_state = \<lparr>gs_caches = caches_new test_ops (cache_config_default\<lparr>enabled := True\<rparr>), gs_world = ({}, 0), gs_seq = 0\<rparr>"

definition test_head_input :: object_input where
  "test_head_input =
     \<lparr>in_bucket = bucket (path_mapper_new data_config), in_key = ''b.txt'', if_match = None,
      if_unmodified_since = None, if_none_match = None, if_modified_since = None\<rparr>"

text \<open>A second request, three nanoseconds after a first one.\<close>

lemma head_object_recent_witness:
  "\<exists>st. (gw_step test_ops hist_up test_externs (gateway_new data_config) hist_env)\<^sup>*\<^sup>* hist_state st \<and>
     3 \<le> clock hist_up (gs_world st) \<and>
     (case head_object test_ops hist_up test_externs (gateway_new data_config) test_head_input st of
        (Inr resp, st') \<Rightarrow> (\<exists>meta. content_length (resp_output resp) = sint (fm_length meta) \<and>
          answered hist_up hist_seen (ttl_of (cache_config_default\<lparr>enabled := True\<rparr>) (metadata_ttl_ms cache_config_default))
            (gs_world st') ''/data/b.txt'' (\<lambda>a. says_meta a meta))
      | (Inl e, st') \<Rightarrow> True)"
proof -
  let ?gw = "gateway_new data_config"
  let ?st = "snd (head_object test_ops hist_up test_externs ?gw test_head_input hist_state)"
  let ?w = "(fst (gs_world ?st), snd (gs_world ?st) + 3)"
  have "gw_step test_ops hist_up test_externs ?gw hist_env hist_state ?st"
    by (rule gw_step.served [where req = "HeadReq test_head_input"]) simp
  moreover have "gw_step test_ops hist_up test_externs ?gw hist_env ?st (?st\<lparr>gs_world := ?w\<rparr>)"
    by (rule gw_step.elapsed) (simp add: hist_env_def)
  ultimately have run: "(gw_step test_ops hist_up test_externs ?gw hist_env)\<^sup>*\<^sup>* hist_state (?st\<lparr>gs_world := ?w\<rparr>)"
    by simp
  have lru: "ttl_lru (metadata_ops test_ops) (vm test_views) (cm test_views) (im test_views)"
    "ttl_lru (negative_ops test_ops) (vn test_views) (cn test_views) (inn test_views)"
    by (simp_all add: test_ops_def test_views_def list_ttl.ttl_lru_axioms)
  have cap: "2 * unat (metadata_capacity (cache_config_default\<lparr>enabled := True\<rparr>)) < 2 ^ 64"
    by (simp add: cache_config_default_def)
  have b: "in_bucket test_head_input = bucket (gw_mapper ?gw)"
    by (simp add: test_head_input_def gateway_new_def)
  have p: "key_to_hdfs_path (gw_mapper ?gw) (in_key test_head_input) = Some ''/data/b.txt''" by code_simp
  from head_object_recent [OF run [unfolded hist_state_def] lru hist_observed cap b p] run
  show ?thesis by (intro exI [of _ "?st\<lparr>gs_world := ?w\<rparr>"]) (auto simp: hist_state_def hist_up_def split: prod.splits sum.splits)
qed

end
