(* ===== verification/Async_Tasks.thy ===== *)
theory Async_Tasks
  imports Main
begin

text \<open>
  Requests that run at the same time.

  An \<^verbatim>\<open>async fn\<close> runs without interruption from one \<^verbatim>\<open>await\<close> to the next.  A task is therefore a
  result, or a call to wait for together with what runs when its answer is there; between the two
  any other task may run.  A future that is dropped (the client went away) never continues.
\<close>

section \<open>Tasks\<close>

datatype ('c, 'a, 's, 'x) task =
    Done 'x
  | Await 'c "'a \<Rightarrow> 's \<Rightarrow> ('c, 'a, 's, 'x) task \<times> 's"

type_synonym ('c, 'a, 's, 'x) async = "'s \<Rightarrow> ('c, 'a, 's, 'x) task \<times> 's"

text \<open>What follows an \<^verbatim>\<open>await\<close> of another asynchronous function.\<close>

primrec task_then ::
  "('x \<Rightarrow> ('c, 'a, 's, 'y) async) \<Rightarrow> ('c, 'a, 's, 'x) task \<Rightarrow> ('c, 'a, 's, 'y) async" where
  "task_then f (Done x) = f x"
| "task_then f (Await c k) =
     (\<lambda>s. (Await c (\<lambda>a s'. (\<lambda>(g, s''). g s'') (map_prod (task_then f) id (k a s'))), s))"

definition async_then ::
  "('c, 'a, 's, 'x) async \<Rightarrow> ('x \<Rightarrow> ('c, 'a, 's, 'y) async) \<Rightarrow> ('c, 'a, 's, 'y) async" where
  "async_then m f s = (case m s of (t, s') \<Rightarrow> task_then f t s')"

text \<open>A task that nothing else interrupts; \<open>ask\<close> is the answer to a call and what it does to the state.\<close>

primrec run_task :: "('c \<Rightarrow> 's \<Rightarrow> 'a \<times> 's) \<Rightarrow> ('c, 'a, 's, 'x) task \<Rightarrow> 's \<Rightarrow> 'x \<times> 's" where
  "run_task ask (Done x) = (\<lambda>s. (x, s))"
| "run_task ask (Await c k) =
     (\<lambda>s. case ask c s of (a, s') \<Rightarrow> (\<lambda>(g, s''). g s'') (map_prod (run_task ask) id (k a s')))"

definition run_async :: "('c \<Rightarrow> 's \<Rightarrow> 'a \<times> 's) \<Rightarrow> ('c, 'a, 's, 'x) async \<Rightarrow> 's \<Rightarrow> 'x \<times> 's" where
  "run_async ask m s = (case m s of (t, s') \<Rightarrow> run_task ask t s')"

lemma task_then_Await: "task_then f (Await c k) s = (Await c (\<lambda>a. async_then (k a) f), s)"
  by (auto simp: async_then_def fun_eq_iff split: prod.split)

lemma run_task_Await:
  "run_task ask (Await c k) s = (case ask c s of (a, s') \<Rightarrow> run_async ask (k a) s')"
  by (auto simp: run_async_def split: prod.split)

lemmas task_simps [simp] = task_then_Await run_task_Await
declare task_then.simps(2) [simp del] run_task.simps(2) [simp del]

lemma task_induct:
  assumes "\<And>x. P (Done x)" and "\<And>c k. (\<And>a s. P (fst (k a s))) \<Longrightarrow> P (Await c k)"
  shows "P t"
proof (induction t)
  case (Await c k)
  have "P (fst (k a s))" for a s
    by (rule Await [of "k a" "k a s"]) (auto simp: prod_set_defs)
  then show ?case by (rule assms(2))
qed (rule assms(1))

lemma run_task_then:
  "(case task_then f t s of (t', s') \<Rightarrow> run_task ask t' s') =
   (case run_task ask t s of (x, s') \<Rightarrow> run_async ask (f x) s')"
proof (induction t arbitrary: s rule: task_induct)
  case (2 c k)
  obtain a s1 where a: "ask c s = (a, s1)" by fastforce
  show ?case using 2 [of a s1 "snd (k a s1)"] a
    by (auto simp: run_async_def async_then_def split: prod.splits)
qed (simp add: run_async_def)

text \<open>Running one asynchronous function after the other.\<close>

lemma run_async_then:
  "run_async ask (async_then m f) s = (case run_async ask m s of (x, s') \<Rightarrow> run_async ask (f x) s')"
  using run_task_then [where f = f and t = "fst (m s)" and s = "snd (m s)" and ask = ask]
  by (simp add: run_async_def async_then_def case_prod_beta)

text \<open>At most \<open>n\<close> calls, whatever their answers and whatever happens in between.\<close>

primrec awaits_le :: "('c, 'a, 's, 'x) task \<Rightarrow> nat \<Rightarrow> bool" where
  "awaits_le (Done x) = (\<lambda>n. True)"
| "awaits_le (Await c k) = (\<lambda>n. 0 < n \<and> (\<forall>a s. fst (map_prod awaits_le id (k a s)) (n - 1)))"

lemma awaits_le_Await: "awaits_le (Await c k) n \<longleftrightarrow> 0 < n \<and> (\<forall>a s. awaits_le (fst (k a s)) (n - 1))"
  by simp

declare awaits_le.simps(2) [simp del] awaits_le_Await [simp]

lemma awaits_le_mono: "awaits_le t n \<Longrightarrow> n \<le> n' \<Longrightarrow> awaits_le t n'"
proof (induction t arbitrary: n n' rule: task_induct)
  case (2 c k)
  have "awaits_le (fst (k a s)) (n' - 1)" for a s
    by (rule 2(1) [of a s "n - 1"]) (use 2(2,3) in auto)
  with 2(2,3) show ?case by simp
qed simp

lemma awaits_le_task_then:
  assumes "awaits_le t n" "\<And>x s. awaits_le (fst (f x s)) n'"
  shows "awaits_le (fst (task_then f t s)) (n + n')"
  using assms(1)
proof (induction t arbitrary: n s rule: task_induct)
  case (1 x)
  show ?case using awaits_le_mono [OF assms(2)] by simp
next
  case (2 c k)
  then have "awaits_le (fst (async_then (k a) f s)) (n + n' - 1)" for a s
    using 2(1) [of a s "n - 1"] by (auto simp: async_then_def split: prod.split)
  with 2(2) show ?case by simp
qed

lemma awaits_le_then:
  "awaits_le (fst (m s)) n \<Longrightarrow> (\<And>x s. awaits_le (fst (f x s)) n') \<Longrightarrow> awaits_le (fst (async_then m f s)) (n + n')"
  using awaits_le_task_then [of "fst (m s)" n f n' "snd (m s)"] by (simp add: async_then_def case_prod_beta)

section \<open>Requests in flight\<close>

text \<open>
  The state all requests share, the suspended requests, and the results so far; with each request the
  state at its arrival.
\<close>

record ('q, 'c, 'a, 's, 'x) conc =
  shared :: 's
  pending :: "('q \<times> 's \<times> ('c, 'a, 's, 'x) task) list"
  finished :: "('q \<times> 's \<times> 'x) list"

definition conc_new :: "'s \<Rightarrow> ('q, 'c, 'a, 's, 'x) conc" where
  "conc_new s = \<lparr>shared = s, pending = [], finished = []\<rparr>"

definition park :: "'q \<Rightarrow> 's \<Rightarrow> ('c, 'a, 's, 'x) task \<Rightarrow> ('q, 'c, 'a, 's, 'x) conc \<Rightarrow> ('q, 'c, 'a, 's, 'x) conc" where
  "park q s0 t st =
     (case t of
        Done x \<Rightarrow> st\<lparr>finished := (q, s0, x) # finished st\<rparr>
      | Await c k \<Rightarrow> st\<lparr>pending := pending st @ [(q, s0, t)]\<rparr>)"

text \<open>
  A request arrives and runs to its first \<^verbatim>\<open>await\<close>; an answer comes and its request runs on; a
  suspended request is dropped; something else changes the state.
\<close>

inductive conc_step ::
  "('c \<Rightarrow> 's \<Rightarrow> 'a \<times> 's) \<Rightarrow> ('q \<Rightarrow> ('c, 'a, 's, 'x) async) \<Rightarrow> ('s \<Rightarrow> 's \<Rightarrow> bool)
     \<Rightarrow> ('q, 'c, 'a, 's, 'x) conc \<Rightarrow> ('q, 'c, 'a, 's, 'x) conc \<Rightarrow> bool"
  for ask start other where
  arrived: "start q (shared st) = (t, s) \<Longrightarrow>
    conc_step ask start other st (park q (shared st) t (st\<lparr>shared := s\<rparr>))"
| resumed: "pending st = xs @ (q, s0, Await c k) # ys \<Longrightarrow> ask c (shared st) = (a, s1) \<Longrightarrow> k a s1 = (t, s2) \<Longrightarrow>
    conc_step ask start other st (park q s0 t (st\<lparr>shared := s2, pending := xs @ ys\<rparr>))"
| dropped: "pending st = xs @ x # ys \<Longrightarrow> conc_step ask start other st (st\<lparr>pending := xs @ ys\<rparr>)"
| elapsed: "other (shared st) s \<Longrightarrow> conc_step ask start other st (st\<lparr>shared := s\<rparr>)"

text \<open>A schedule, which can be run: arrivals, and answers to or the loss of the \<open>i\<close>-th suspended request.\<close>

datatype 'q action = Arrive 'q | Resume nat | Lose nat

fun conc_act ::
  "('c \<Rightarrow> 's \<Rightarrow> 'a \<times> 's) \<Rightarrow> ('q \<Rightarrow> ('c, 'a, 's, 'x) async) \<Rightarrow> 'q action
     \<Rightarrow> ('q, 'c, 'a, 's, 'x) conc \<Rightarrow> ('q, 'c, 'a, 's, 'x) conc" where
  "conc_act ask start (Arrive q) st =
     (case start q (shared st) of (t, s) \<Rightarrow> park q (shared st) t (st\<lparr>shared := s\<rparr>))"
| "conc_act ask start (Resume i) st =
     (if i < length (pending st)
      then case pending st ! i of
             (q, s0, Await c k) \<Rightarrow>
               (case ask c (shared st) of (a, s1) \<Rightarrow>
                case k a s1 of (t, s2) \<Rightarrow>
                  park q s0 t (st\<lparr>shared := s2, pending := take i (pending st) @ drop (Suc i) (pending st)\<rparr>))
           | (q, s0, Done x) \<Rightarrow> st
      else st)"
| "conc_act ask start (Lose i) st =
     (if i < length (pending st)
      then st\<lparr>pending := take i (pending st) @ drop (Suc i) (pending st)\<rparr> else st)"

lemma conc_act_step: "(conc_step ask start other)\<^sup>*\<^sup>* st (conc_act ask start x st)"
proof (cases x)
  case (Arrive q)
  obtain t s where start: "start q (shared st) = (t, s)" by fastforce
  from conc_step.arrived [of start q st t s ask other] show ?thesis unfolding Arrive using start by auto
next
  case (Resume i)
  show ?thesis
  proof (cases "i < length (pending st)")
    case True
    note at = id_take_nth_drop [OF True]
    obtain q s0 t where p: "pending st ! i = (q, s0, t)" by (cases "pending st ! i")
    show ?thesis
    proof (cases t)
      case (Await c k)
      obtain a s1 where a: "ask c (shared st) = (a, s1)" by fastforce
      obtain t' s2 where k: "k a s1 = (t', s2)" by fastforce
      have "conc_step ask start other st
          (park q s0 t' (st\<lparr>shared := s2, pending := take i (pending st) @ drop (Suc i) (pending st)\<rparr>))"
        using at [unfolded p Await] a k by (rule conc_step.resumed)
      then show ?thesis unfolding Resume using True p Await a k by auto
    qed (simp add: Resume True p)
  qed (simp add: Resume)
next
  case (Lose i)
  show ?thesis
  proof (cases "i < length (pending st)")
    case True
    from conc_step.dropped [OF id_take_nth_drop [OF True]] show ?thesis unfolding Lose using True by auto
  qed (simp add: Lose)
qed

lemma conc_schedule: "(conc_step ask start other)\<^sup>*\<^sup>* st (fold (conc_act ask start) xs st)"
  by (induction xs arbitrary: st) (auto intro: conc_act_step [THEN rtranclp_trans])

text \<open>
  A task that is run to its end among other requests: before each of its answers the schedule \<open>f\<close>
  decides what the others do, the one with number \<open>n\<close> before the next answer.
\<close>

primrec run_among ::
  "('c \<Rightarrow> 's \<Rightarrow> 'a \<times> 's) \<Rightarrow> (nat \<Rightarrow> ('q, 'c, 'a, 's, 'x) conc \<Rightarrow> ('q, 'c, 'a, 's, 'x) conc)
     \<Rightarrow> ('c, 'a, 's, 'y) task \<Rightarrow> ('q, 'c, 'a, 's, 'x) conc \<Rightarrow> nat \<Rightarrow> 'y \<times> ('q, 'c, 'a, 's, 'x) conc \<times> nat" where
  "run_among ask f (Done y) = (\<lambda>st n. (y, st, n))"
| "run_among ask f (Await c k) =
     (\<lambda>st n. let st1 = f n st in
        case ask c (shared st1) of (a, s1) \<Rightarrow>
          (\<lambda>(g, s2). g (st1\<lparr>shared := s2\<rparr>) (Suc n)) (map_prod (run_among ask f) id (k a s1)))"

definition async_among where
  "async_among ask f m st n =
     (let st1 = f n st in
      case m (shared st1) of (t, s) \<Rightarrow> run_among ask f t (st1\<lparr>shared := s\<rparr>) (Suc n))"

lemma run_among_Await:
  "run_among ask f (Await c k) st n =
     (case ask c (shared (f n st)) of (a, s1) \<Rightarrow>
      case k a s1 of (t, s2) \<Rightarrow> run_among ask f t ((f n st)\<lparr>shared := s2\<rparr>) (Suc n))"
  by (auto simp: Let_def split: prod.split)

declare run_among.simps(2) [simp del] run_among_Await [simp]

section \<open>Safety under interleaving\<close>

text \<open>
  \<open>ok\<close> is an invariant of the shared state and \<open>le\<close> how it may develop.  A suspended task is safe if,
  whenever its answer comes in any later state with the invariant, it keeps the invariant and what is
  left of it is safe; a finished one if its result satisfies \<open>Q\<close>.
\<close>

primrec safe ::
  "('c \<Rightarrow> 's \<Rightarrow> 'a \<times> 's) \<Rightarrow> ('s \<Rightarrow> bool) \<Rightarrow> ('s \<Rightarrow> 's \<Rightarrow> bool) \<Rightarrow> ('x \<Rightarrow> 's \<Rightarrow> bool)
     \<Rightarrow> ('c, 'a, 's, 'x) task \<Rightarrow> 's \<Rightarrow> bool" where
  "safe ask ok le Q (Done x) = Q x"
| "safe ask ok le Q (Await c k) =
     (\<lambda>s. \<forall>s' a s1. le s s' \<longrightarrow> ok s' \<longrightarrow> ask c s' = (a, s1) \<longrightarrow>
        (\<lambda>(P, s2). ok s2 \<and> le s1 s2 \<and> P s2) (map_prod (safe ask ok le Q) id (k a s1)))"

definition safe_async where
  "safe_async ask ok le Q m s \<longleftrightarrow>
     (case m s of (t, s') \<Rightarrow> ok s' \<and> le s s' \<and> safe ask ok le Q t s')"

lemma safe_Await:
  "safe ask ok le Q (Await c k) s \<longleftrightarrow>
     (\<forall>s' a s1. le s s' \<longrightarrow> ok s' \<longrightarrow> ask c s' = (a, s1) \<longrightarrow> safe_async ask ok le Q (k a) s1)"
  by (auto simp: safe_async_def map_prod_def split: prod.splits)

declare safe.simps(2) [simp del]

locale async_contract =
  fixes ask :: "'c \<Rightarrow> 's \<Rightarrow> 'a \<times> 's" and ok :: "'s \<Rightarrow> bool" and le :: "'s \<Rightarrow> 's \<Rightarrow> bool"
  assumes le_refl: "le s s"
    and le_trans: "le s s' \<Longrightarrow> le s' s'' \<Longrightarrow> le s s''"
    and ask_law: "ok s \<Longrightarrow> ask c s = (a, s') \<Longrightarrow> ok s' \<and> le s s'"
begin

lemma safe_later:
  assumes "safe ask ok le Q t s" "le s s'" "\<And>x s s'. Q x s \<Longrightarrow> le s s' \<Longrightarrow> Q x s'"
  shows "safe ask ok le Q t s'"
  using assms by (cases t) (auto simp: safe_Await intro: le_trans)

lemma safe_then:
  assumes "safe ask ok le Q t s" "ok s"
    and "\<And>x s'. Q x s' \<Longrightarrow> ok s' \<Longrightarrow> le s s' \<Longrightarrow> safe_async ask ok le R (f x) s'"
  shows "safe_async ask ok le R (task_then f t) s"
  using assms
proof (induction t arbitrary: s rule: task_induct)
  case (2 c k)
  have "safe_async ask ok le R (async_then (k a) f) s1"
    if s: "le s s'" "ok s'" "ask c s' = (a, s1)" for s' a s1
  proof -
    from 2(2) s have "safe_async ask ok le Q (k a) s1" unfolding safe_Await by blast
    then obtain t s2 where k: "k a s1 = (t, s2)" and s2: "ok s2" "le s1 s2" "safe ask ok le Q t s2"
      by (auto simp: safe_async_def split: prod.splits)
    have "le s s2" using s s2(2) ask_law [OF s(2,3)] le_trans by blast
    then have "safe_async ask ok le R (task_then f t) s2"
      using 2(1) [of a s1 s2] k s2 2(4) le_trans by simp
    then show ?thesis
      using k s2(2) by (auto simp: safe_async_def async_then_def intro: le_trans split: prod.splits)
  qed
  with 2(3) le_refl show ?case by (simp add: safe_async_def safe_Await)
qed (use le_refl in auto)

lemma safe_async_then:
  assumes "safe_async ask ok le Q m s"
    and "\<And>x s'. Q x s' \<Longrightarrow> ok s' \<Longrightarrow> le s s' \<Longrightarrow> safe_async ask ok le R (f x) s'"
  shows "safe_async ask ok le R (async_then m f) s"
proof -
  obtain t s1 where m: "m s = (t, s1)" by fastforce
  with assms(1) have s1: "safe ask ok le Q t s1" "ok s1" "le s s1" by (simp_all add: safe_async_def)
  then have "safe_async ask ok le R (task_then f t) s1"
    by (intro safe_then [where Q = Q] assms(2)) (auto intro: le_trans)
  with m s1(3) show ?thesis by (auto simp: safe_async_def async_then_def intro: le_trans split: prod.splits)
qed

lemma safe_async_at:
  "safe_async ask ok le Q m' s' \<Longrightarrow> m s = m' s' \<Longrightarrow> le s s' \<Longrightarrow> safe_async ask ok le Q m s"
  by (auto simp: safe_async_def intro: le_trans split: prod.splits)

end

locale async_server = async_contract ask ok le
  for ask :: "'c \<Rightarrow> 's \<Rightarrow> 'a \<times> 's" and ok le +
  fixes start :: "'q \<Rightarrow> ('c, 'a, 's, 'x) async" and other :: "'s \<Rightarrow> 's \<Rightarrow> bool"
    and Q :: "'q \<Rightarrow> 's \<Rightarrow> 'x \<Rightarrow> 's \<Rightarrow> bool"
  assumes start_safe: "ok s \<Longrightarrow> safe_async ask ok le (Q q s) (start q) s"
    and other_law: "ok s \<Longrightarrow> other s s' \<Longrightarrow> ok s' \<and> le s s'"
    and Q_later: "Q q s0 x s \<Longrightarrow> le s s' \<Longrightarrow> Q q s0 x s'"
begin

definition conc_inv :: "'s \<Rightarrow> ('q, 'c, 'a, 's, 'x) conc \<Rightarrow> bool" where
  "conc_inv s st \<longleftrightarrow> ok (shared st) \<and> le s (shared st) \<and>
     (\<forall>(q, s0, t) \<in> set (pending st). safe ask ok le (Q q s0) t (shared st)) \<and>
     (\<forall>(q, s0, x) \<in> set (finished st). Q q s0 x (shared st))"

lemma conc_inv_shared:
  assumes "conc_inv s st" "ok s'" "le (shared st) s'"
  shows "conc_inv s (st\<lparr>shared := s'\<rparr>)"
  using assms unfolding conc_inv_def
  by (auto intro: le_trans Q_later safe_later [OF _ assms(3) Q_later])

lemma conc_inv_park:
  "conc_inv s st \<Longrightarrow> safe ask ok le (Q q s0) t (shared st) \<Longrightarrow> conc_inv s (park q s0 t st)"
  by (cases t) (auto simp: conc_inv_def park_def)

lemma conc_inv_drop:
  "conc_inv s st \<Longrightarrow> pending st = xs @ x # ys \<Longrightarrow> conc_inv s (st\<lparr>pending := xs @ ys\<rparr>)"
  by (simp add: conc_inv_def)

lemma conc_step_inv:
  assumes "conc_step ask start other st st'" "conc_inv s st"
  shows "conc_inv s st'"
  using assms
proof (induction rule: conc_step.induct)
  case (arrived q st t s1)
  then have "safe_async ask ok le (Q q (shared st)) (start q) (shared st)"
    by (intro start_safe) (simp add: conc_inv_def)
  with arrived have "ok s1" "le (shared st) s1" "safe ask ok le (Q q (shared st)) t s1"
    by (auto simp: safe_async_def)
  with arrived conc_inv_shared show ?case by (intro conc_inv_park) auto
next
  case (resumed st xs q s0 c k ys a s1 t s2)
  then have sf: "safe ask ok le (Q q s0) (Await c k) (shared st)" and i: "ok (shared st)"
    by (auto simp: conc_inv_def)
  then have "safe_async ask ok le (Q q s0) (k a) s1" using le_refl resumed(2) by (auto simp: safe_Await)
  with resumed(3) have s2: "ok s2" "le s1 s2" "safe ask ok le (Q q s0) t s2" by (simp_all add: safe_async_def)
  have "le (shared st) s2" using ask_law [OF i resumed(2)] s2(2) le_trans by blast
  with resumed(4) s2(1) have "conc_inv s (st\<lparr>shared := s2\<rparr>)" by (intro conc_inv_shared)
  with resumed(1) have "conc_inv s (st\<lparr>shared := s2, pending := xs @ ys\<rparr>)"
    using conc_inv_drop [of s "st\<lparr>shared := s2\<rparr>"] by simp
  with s2(3) show ?case by (intro conc_inv_park) simp_all
next
  case (elapsed st s1)
  then show ?case using other_law by (intro conc_inv_shared) (auto simp: conc_inv_def)
qed (rule conc_inv_drop)

lemma conc_steps_inv:
  assumes "(conc_step ask start other)\<^sup>*\<^sup>* st st'" "conc_inv s st"
  shows "conc_inv s st'"
  using assms by (induction rule: rtranclp_induct) (auto intro: conc_step_inv)

lemma conc_inv_new: "ok s \<Longrightarrow> conc_inv s (conc_new s)"
  using le_refl by (simp add: conc_inv_def conc_new_def)

lemma conc_run_inv:
  assumes "(conc_step ask start other)\<^sup>*\<^sup>* (conc_new s) st" "ok s"
  shows "conc_inv s st"
  using conc_steps_inv [OF assms(1)] conc_inv_new [OF assms(2)] .

lemma conc_inv_ok: "conc_inv s st \<Longrightarrow> ok (shared st)"
  by (simp add: conc_inv_def)

lemma others_run:
  assumes "(conc_step ask start other)\<^sup>*\<^sup>* st st'" "conc_inv s st"
  shows "conc_inv s st'" "le (shared st) (shared st')"
proof -
  have "conc_inv (shared st) st" using assms(2) le_refl by (simp add: conc_inv_def)
  from conc_steps_inv [OF assms(1) this] show "le (shared st) (shared st')" by (simp add: conc_inv_def)
qed (rule conc_steps_inv [OF assms])

text \<open>A safe task keeps its promise among other requests, whatever the schedule.\<close>

lemma run_among_safe:
  assumes "safe ask ok le P t (shared st)" "conc_inv s st" "\<And>n st. (conc_step ask start other)\<^sup>*\<^sup>* st (f n st)"
  shows "case run_among ask f t st n of (y, st', n') \<Rightarrow> P y (shared st') \<and> conc_inv s st'"
  using assms(1,2)
proof (induction t arbitrary: st n rule: task_induct)
  case (2 c k)
  let ?st = "f n st"
  note f = others_run [OF assms(3) 2(3), of n]
  obtain a s1 where a: "ask c (shared ?st) = (a, s1)" by fastforce
  obtain t s2 where k: "k a s1 = (t, s2)" by fastforce
  have "safe_async ask ok le P (k a) s1"
    using 2(2) f(2) conc_inv_ok [OF f(1)] a unfolding safe_Await by blast
  then have s2: "ok s2" "le s1 s2" "safe ask ok le P t s2" using k by (simp_all add: safe_async_def)
  have "le (shared ?st) s2" using ask_law [OF conc_inv_ok [OF f(1)] a] s2(2) le_trans by blast
  with f(1) s2(1) have "conc_inv s (?st\<lparr>shared := s2\<rparr>)" by (intro conc_inv_shared)
  with 2(1) [of a s1 "?st\<lparr>shared := s2\<rparr>" "Suc n"] s2(3) a k show ?case by simp
qed simp

lemma async_among_safe:
  assumes "\<And>s. ok s \<Longrightarrow> safe_async ask ok le P m s" "conc_inv s st" "\<And>n st. (conc_step ask start other)\<^sup>*\<^sup>* st (f n st)"
  shows "case async_among ask f m st n of (y, st', n') \<Rightarrow> P y (shared st') \<and> conc_inv s st'"
proof -
  let ?st = "f n st"
  note f = others_run [OF assms(3) assms(2), of n]
  obtain t s1 where m: "m (shared ?st) = (t, s1)" by fastforce
  with assms(1) [OF conc_inv_ok [OF f(1)]] have s1: "ok s1" "le (shared ?st) s1" "safe ask ok le P t s1"
    by (simp_all add: safe_async_def)
  from run_among_safe [of P t "?st\<lparr>shared := s1\<rparr>" s f "Suc n"] s1(3) conc_inv_shared [OF f(1) s1(1,2)] assms(3) m
  show ?thesis by (simp add: async_among_def)
qed

end

end
