(* ===== verification/Gateway_Async.thy ===== *)
theory Gateway_Async
  imports Gateway_System Async_Tasks
begin

text \<open>
  The handlers of \<^verbatim>\<open>src/s3/mod.rs\<close> and the lister of \<^verbatim>\<open>src/s3/sorted_listing.rs\<close> as the asynchronous functions
  they are: each waits for upstream at its \<^verbatim>\<open>await\<close>, and other requests may run meanwhile.  A request
  that runs alone does what the functions of \<open>Gateway\<close> do, and asks upstream a bounded number of
  times.
\<close>

section \<open>Calls to upstream\<close>

datatype call = AskInfo string | AskOpen string | AskList string

datatype 'r answer =
    Info "hdfs_error + file_status"
  | Opened "hdfs_error + 'r"
  | Listed "hdfs_error + file_status list"

fun ask_upstream :: "('r, 'w) upstream \<Rightarrow> call \<Rightarrow> 'w \<Rightarrow> 'r answer \<times> 'w" where
  "ask_upstream up (AskInfo p) w = map_prod Info id (get_file_info up w p)"
| "ask_upstream up (AskOpen p) w = map_prod Opened id (read_file up w p)"
| "ask_upstream up (AskList d) w = map_prod Listed id (list_status up w d False)"

definition gw_ask ::
  "('r, 'w) upstream \<Rightarrow> call \<Rightarrow> ('w, 'lm, 'ln, 'lb, 'ld) gw_state
     \<Rightarrow> 'r answer \<times> ('w, 'lm, 'ln, 'lb, 'ld) gw_state" where
  "gw_ask up c st = (case ask_upstream up c (gs_world st) of (a, w) \<Rightarrow> (a, st\<lparr>gs_world := w\<rparr>))"

abbreviation ret :: "'x \<Rightarrow> ('c, 'a, 's, 'x) async" where
  "ret x \<equiv> \<lambda>s. (Done x, s)"

section \<open>The asynchronous functions\<close>

text \<open>
  Each function up to its \<^verbatim>\<open>await\<close> and, as \<open>_answer\<close>, after it.  An answer has the kind of its call: the
  last case of each continuation does not arise.
\<close>

definition file_meta_answer ::
  "('r, 'lm, 'ln, 'lb, 'ld) cache_ops \<Rightarrow> ('r, 'w) upstream \<Rightarrow> externs \<Rightarrow> gateway \<Rightarrow> request_log \<Rightarrow> string \<Rightarrow> 'r answer
     \<Rightarrow> (call, 'r answer, ('w, 'lm, 'ln, 'lb, 'ld) gw_state, s3_error + file_meta) async" where
  "file_meta_answer ops up ext gw log hdfs_path a st =
     (case a of
        Info (Inr status) \<Rightarrow>
          let meta = \<lparr>fm_length = fs_length status, fm_isdir = fs_isdir status, fm_mtime = fs_mtime status\<rparr>
          in (Done (Inr meta),
              st\<lparr>gs_caches := (gs_caches st)\<lparr>metadata :=
                ttl_insert (metadata_ops ops) (clock up (gs_world st)) (metadata (gs_caches st)) hdfs_path meta 1\<rparr>\<rparr>)
      | Info (Inl e) \<Rightarrow>
          if is_file_not_found e
          then (Done (err_resp ext log NoSuchKey),
                st\<lparr>gs_caches := (gs_caches st)\<lparr>negative :=
                  ttl_insert (negative_ops ops) (clock up (gs_world st)) (negative (gs_caches st)) hdfs_path () 1\<rparr>\<rparr>)
          else (Done (upstream_err ext gw log e), st)
      | _ \<Rightarrow> (Done (err_resp ext log InternalError), st))"

definition file_meta_async ::
  "('r, 'lm, 'ln, 'lb, 'ld) cache_ops \<Rightarrow> ('r, 'w) upstream \<Rightarrow> externs \<Rightarrow> gateway \<Rightarrow> request_log \<Rightarrow> string
     \<Rightarrow> (call, 'r answer, ('w, 'lm, 'ln, 'lb, 'ld) gw_state, s3_error + file_meta) async" where
  "file_meta_async ops up ext gw log hdfs_path st =
     (case ttl_get (metadata_ops ops) (clock up (gs_world st)) (metadata (gs_caches st)) hdfs_path of
        (hit, mc) \<Rightarrow>
        let st1 = st\<lparr>gs_caches := (gs_caches st)\<lparr>metadata := mc\<rparr>\<rparr> in
        case hit of
          Some meta \<Rightarrow> (Done (Inr meta), st1)
        | None \<Rightarrow>
            (case ttl_get (negative_ops ops) (clock up (gs_world st1)) (negative (gs_caches st1)) hdfs_path of
               (neg, nc) \<Rightarrow>
               let st2 = st1\<lparr>gs_caches := (gs_caches st1)\<lparr>negative := nc\<rparr>\<rparr> in
               if neg \<noteq> None then (Done (err_resp ext log NoSuchKey), st2)
               else (Await (AskInfo hdfs_path) (file_meta_answer ops up ext gw log hdfs_path), st2)))"

definition open_reader_answer ::
  "('r, 'lm, 'ln, 'lb, 'ld) cache_ops \<Rightarrow> ('r, 'w) upstream \<Rightarrow> externs \<Rightarrow> gateway \<Rightarrow> request_log \<Rightarrow> string
     \<Rightarrow> file_meta \<Rightarrow> 'r answer \<Rightarrow> (call, 'r answer, ('w, 'lm, 'ln, 'lb, 'ld) gw_state, s3_error + 'r) async" where
  "open_reader_answer ops up ext gw log hdfs_path meta a st =
     (case a of
        Opened (Inr reader) \<Rightarrow>
          (Done (Inr reader),
           st\<lparr>gs_caches := (gs_caches st)\<lparr>blocks_cache :=
             ttl_insert (blocks_ops ops) (clock up (gs_world st)) (blocks_cache (gs_caches st)) hdfs_path
               \<lparr>cr_reader = reader, cr_length = fm_length meta, cr_mtime = fm_mtime meta\<rparr> 1\<rparr>\<rparr>)
      | Opened (Inl e) \<Rightarrow>
          (Done (upstream_err ext gw log e),
           st\<lparr>gs_caches := (gs_caches st)\<lparr>metadata :=
             ttl_remove (metadata_ops ops) (metadata (gs_caches st)) hdfs_path\<rparr>\<rparr>)
      | _ \<Rightarrow> (Done (err_resp ext log InternalError), st))"

definition open_reader_async ::
  "('r, 'lm, 'ln, 'lb, 'ld) cache_ops \<Rightarrow> ('r, 'w) upstream \<Rightarrow> externs \<Rightarrow> gateway \<Rightarrow> request_log \<Rightarrow> string
     \<Rightarrow> file_meta \<Rightarrow> (call, 'r answer, ('w, 'lm, 'ln, 'lb, 'ld) gw_state, s3_error + 'r) async" where
  "open_reader_async ops up ext gw log hdfs_path meta st =
     (case ttl_get (blocks_ops ops) (clock up (gs_world st)) (blocks_cache (gs_caches st)) hdfs_path of
        (hit, bc) \<Rightarrow>
        let st1 = st\<lparr>gs_caches := (gs_caches st)\<lparr>blocks_cache := bc\<rparr>\<rparr>;
            usable = (case hit of
                        Some cached \<Rightarrow> cr_length cached = fm_length meta \<and> cr_mtime cached = fm_mtime meta
                      | None \<Rightarrow> False)
        in if usable then (Done (Inr (cr_reader (the hit))), st1)
           else
             let st2 = (if hit \<noteq> None
                        then st1\<lparr>gs_caches := (gs_caches st1)\<lparr>blocks_cache :=
                               ttl_remove (blocks_ops ops) (blocks_cache (gs_caches st1)) hdfs_path\<rparr>\<rparr>
                        else st1)
             in (Await (AskOpen hdfs_path) (open_reader_answer ops up ext gw log hdfs_path meta), st2))"

definition list_dir_answer ::
  "('r, 'lm, 'ln, 'lb, 'ld) cache_ops \<Rightarrow> ('r, 'w) upstream \<Rightarrow> path_mapper \<Rightarrow> string \<Rightarrow> 'r answer
     \<Rightarrow> (call, 'r answer, ('w, 'lm, 'ln, 'lb, 'ld) gw_state, hdfs_error + dir_listing) async" where
  "list_dir_answer ops up m d a st =
     (case a of
        Listed (Inr statuses) \<Rightarrow>
          let listing = listing_from_statuses statuses m;
              weight = of_nat (length (files listing) + length (dirs listing))
          in (Done (Inr listing),
              if weight \<le> max_dir_entries (gs_caches st)
              then st\<lparr>gs_caches := (gs_caches st)\<lparr>dirs_cache :=
                     ttl_insert (dirs_ops ops) (clock up (gs_world st)) (dirs_cache (gs_caches st)) d listing weight\<rparr>\<rparr>
              else st)
      | Listed (Inl e) \<Rightarrow> (Done (Inl e), st)
      | _ \<Rightarrow> (Done (Inl (Other_Error [])), st))"

definition list_dir_async ::
  "('r, 'lm, 'ln, 'lb, 'ld) cache_ops \<Rightarrow> ('r, 'w) upstream \<Rightarrow> path_mapper \<Rightarrow> string
     \<Rightarrow> (call, 'r answer, ('w, 'lm, 'ln, 'lb, 'ld) gw_state, hdfs_error + dir_listing) async" where
  "list_dir_async ops up m d st =
     (case ttl_get (dirs_ops ops) (clock up (gs_world st)) (dirs_cache (gs_caches st)) d of
        (hit, c1) \<Rightarrow>
          let st1 = st\<lparr>gs_caches := (gs_caches st)\<lparr>dirs_cache := c1\<rparr>\<rparr> in
          case hit of
            Some listing \<Rightarrow> (Done (Inr listing), st1)
          | None \<Rightarrow> (Await (AskList d) (list_dir_answer ops up m d), st1))"

definition head_object_async where
  "head_object_async ops up ext gw input st0 =
     (case request_log_new up ''HeadObject'' st0 of (log, st) \<Rightarrow>
      if in_bucket input \<noteq> bucket (gw_mapper gw) then (Done (err_resp ext log NoSuchBucket), st)
      else case key_to_hdfs_path (gw_mapper gw) (in_key input) of
        None \<Rightarrow> (Done (err_resp ext log NoSuchKey), st)
      | Some hdfs_path \<Rightarrow>
          let log = log\<lparr>rl_hdfs_path := Some hdfs_path\<rparr> in
          async_then (file_meta_async ops up ext gw log hdfs_path)
            (\<lambda>r. ret (case r of Inl e \<Rightarrow> Inl e | Inr status \<Rightarrow> head_reply ext log input hdfs_path status)) st)"

text \<open>\<^verbatim>\<open>get_object\<close> after the metadata.\<close>

definition get_object_resume ::
  "('r, 'lm, 'ln, 'lb, 'ld) cache_ops \<Rightarrow> ('r, 'w) upstream \<Rightarrow> externs \<Rightarrow> gateway \<Rightarrow> get_object_input \<Rightarrow> request_log
     \<Rightarrow> string \<Rightarrow> s3_error + file_meta
     \<Rightarrow> (call, 'r answer, ('w, 'lm, 'ln, 'lb, 'ld) gw_state, s3_error + object_get s3_response) async" where
  "get_object_resume ops up ext gw input log hdfs_path r =
     (case r of
        Inl e \<Rightarrow> ret (Inl e)
      | Inr status \<Rightarrow>
          (case get_plan ext log input hdfs_path status of
             Inl e \<Rightarrow> ret (Inl e)
           | Inr (window_start, window_end, len, cr) \<Rightarrow>
               async_then (open_reader_async ops up ext gw log hdfs_path status)
                 (\<lambda>r st. case r of
                    Inl e \<Rightarrow> (Done (Inl e), st)
                  | Inr reader \<Rightarrow>
                      if window_end > file_length up reader
                      then (Done (err_resp ext log InternalError), forget_object ops hdfs_path st)
                      else (Done (Inr (get_reply up ext log hdfs_path status
                              (window_start, window_end, len, cr) reader (gs_world st))), st))))"

definition get_object_async where
  "get_object_async ops up ext gw input st0 =
     (case request_log_new up ''GetObject'' st0 of (log, st) \<Rightarrow>
      if in_bucket input \<noteq> bucket (gw_mapper gw) then (Done (err_resp ext log NoSuchBucket), st)
      else case key_to_hdfs_path (gw_mapper gw) (in_key input) of
        None \<Rightarrow> (Done (err_resp ext log NoSuchKey), st)
      | Some hdfs_path \<Rightarrow>
          let log = log\<lparr>rl_hdfs_path := Some hdfs_path\<rparr> in
          async_then (file_meta_async ops up ext gw log hdfs_path) (get_object_resume ops up ext gw input log hdfs_path) st)"

section \<open>Alone they are the handlers\<close>

lemma run_file_meta [simp]:
  "run_async (gw_ask up) (file_meta_async ops up ext gw log p) st = file_meta_of ops up ext gw log p st"
  by (auto simp: run_async_def file_meta_async_def file_meta_answer_def file_meta_of_def gw_ask_def Let_def split: prod.splits option.splits sum.splits)

lemma run_open_reader [simp]:
  "run_async (gw_ask up) (open_reader_async ops up ext gw log p meta) st = open_reader ops up ext gw log p meta st"
  by (auto simp: run_async_def open_reader_async_def open_reader_answer_def open_reader_def gw_ask_def Let_def split: prod.splits option.splits sum.splits)

lemma run_list_dir [simp]:
  "run_async (gw_ask up) (list_dir_async ops up m d) st = hdfs_list_dir ops up m st d"
  by (auto simp: run_async_def list_dir_async_def list_dir_answer_def hdfs_list_dir_def gw_ask_def Let_def split: prod.splits option.splits sum.splits)

lemma run_ret [simp]: "run_async ask (ret x) s = (x, s)"
  by (simp add: run_async_def)

lemma run_local:
  "(case async_then m f s of (t, s') \<Rightarrow> run_task ask t s') = (case run_async ask m s of (x, s') \<Rightarrow> run_async ask (f x) s')"
  using run_async_then [of ask m f s] by (simp add: run_async_def)

lemma run_head_object:
  "run_async (gw_ask up) (head_object_async ops up ext gw input) st = head_object ops up ext gw input st"
  unfolding run_async_def head_object_async_def head_object_def request_log_new_split Let_def
  by (simp add: run_local split: option.split prod.split sum.split)

lemma run_get_object:
  "run_async (gw_ask up) (get_object_async ops up ext gw input) st = get_object ops up ext gw input st"
proof -
  have tail: "run_async (gw_ask up) (\<lambda>st. case r of Inl e \<Rightarrow> (Done (Inl e), st) | Inr reader \<Rightarrow>
      if b reader then (Done x, f st) else (Done (g reader st), st)) s =
     (case r of Inl e \<Rightarrow> (Inl e, s) | Inr reader \<Rightarrow> if b reader then (x, f s) else (g reader s, s))" for r b x f g s
    by (simp add: run_async_def split: sum.split)
  show ?thesis
    unfolding run_async_def get_object_async_def get_object_resume_def get_object_def request_log_new_split Let_def
    by (auto simp: run_local run_async_then tail split: option.split prod.split sum.split)
qed

section \<open>The number of calls\<close>

lemma awaits_file_meta: "awaits_le (fst (file_meta_async ops up ext gw log p st)) 1"
  by (auto simp: file_meta_async_def file_meta_answer_def Let_def split: prod.split option.split answer.split sum.split)

lemma awaits_open_reader: "awaits_le (fst (open_reader_async ops up ext gw log p meta st)) 1"
  by (auto simp: open_reader_async_def open_reader_answer_def Let_def split: prod.split option.split answer.split sum.split)

lemma awaits_list_dir: "awaits_le (fst (list_dir_async ops up m d st)) 1"
  by (auto simp: list_dir_async_def list_dir_answer_def Let_def split: prod.split option.split answer.split sum.split)

lemma awaits_resume: "awaits_le (fst (get_object_resume ops up ext gw input log p r st)) 1"
proof -
  have "awaits_le (fst (async_then (open_reader_async ops up ext gw log p status) f st)) (1 + 0)"
    if "\<And>x s. awaits_le (fst (f x s)) 0" for status and f :: "_ \<Rightarrow> (_, _, _, s3_error + object_get s3_response) async"
    using awaits_open_reader that by (rule awaits_le_then)
  then show ?thesis by (auto simp: get_object_resume_def split: sum.split)
qed

section \<open>Properties\<close>

text \<open>
  The asynchronous functions implement the handlers.  A \<^verbatim>\<open>HeadObject\<close>, \<^verbatim>\<open>GetObject\<close> or
  directory listing during which no other request runs gives the result and the state of \<open>head_object\<close>,
  \<open>get_object\<close> and \<open>hdfs_list_dir\<close>.
\<close>

lemma handlers_alone:
  "run_async (gw_ask up) (head_object_async ops up ext gw input) st = head_object ops up ext gw input st \<and>
   run_async (gw_ask up) (get_object_async ops up ext gw input') st = get_object ops up ext gw input' st \<and>
   run_async (gw_ask up) (list_dir_async ops up m d) st = hdfs_list_dir ops up m st d"
  by (simp add: run_head_object run_get_object)

text \<open>
  Claim C19: requests end after few calls.  Whatever upstream answers and whatever other requests do in
  between, a \<^verbatim>\<open>HeadObject\<close> waits for upstream at most once, a \<^verbatim>\<open>GetObject\<close> at most twice and the listing of a
  directory at most once.
\<close>

theorem upstream_calls_bounded:
  "awaits_le (fst (head_object_async ops up ext gw input st)) 1 \<and>
   awaits_le (fst (get_object_async ops up ext gw input' st)) 2 \<and>
   awaits_le (fst (list_dir_async ops up m d st)) 1"
proof -
  have "awaits_le (fst (async_then (file_meta_async ops up ext gw log p) (\<lambda>r. ret (f r)) s)) 1" for log p s and f :: "_ \<Rightarrow> 'z"
    using awaits_le_then [OF awaits_file_meta, of "\<lambda>r. ret (f r)" 0] by simp
  moreover have "awaits_le (fst (async_then (file_meta_async ops up ext gw log p) (get_object_resume ops up ext gw input' log p) s)) 2"
    for log p s
    using awaits_le_then [OF awaits_file_meta awaits_resume] by (simp add: numeral_2_eq_2)
  ultimately show ?thesis
    unfolding head_object_async_def get_object_async_def request_log_new_split Let_def
    using awaits_list_dir by (auto split: option.split)
qed

end
