(* ===== verification/Gateway_Concurrent.thy ===== *)
theory Gateway_Concurrent
  imports Gateway_Async
begin

text \<open>
  Many requests at once on the shared caches: whatever their interleaving, the caches stay bounded and hold
  only recent answers of upstream, and so do the replies.  The generic argument is in
  \<open>Async_Tasks\<close>; this theory shows that every asynchronous function keeps the invariant at every step.
\<close>

section \<open>What a cache holds\<close>

text \<open>The view of an LRU map: its validity, capacity and entries.\<close>

type_synonym ('l, 'v) view = "('l \<Rightarrow> bool) \<times> ('l \<Rightarrow> nat) \<times> ('l \<Rightarrow> (string \<times> 'v entry) list)"

text \<open>
  A cache with \<open>N\<close> slots, time to live \<open>T\<close> and weight budget \<open>W\<close> whose values all come from \<open>S\<close>: each
  is served at a time less than \<open>T\<close> after it was there.
\<close>

definition cache_holds ::
  "(string, 'v entry, 'l) lru_ops \<Rightarrow> ('l, 'v) view \<Rightarrow> nat \<times> nat \<times> usize \<Rightarrow> (nat \<times> string \<times> 'v) set \<Rightarrow> 'l ttl_cache \<Rightarrow> bool" where
  "cache_holds ops view limits S c \<longleftrightarrow>
     (case (view, limits) of ((valid, cap, items), (N, T, W)) \<Rightarrow>
        ttl_lru ops valid cap items \<and>
        ttl_store.sound (live items) (cache_inv valid items) (\<lambda>t k v. \<exists>t0. (t0, k, v) \<in> S \<and> t - t0 < T) c \<and>
        ttl c = T \<and> max_weight c = W \<and> cap (entries c) = N)"

lemma cache_holds_step:
  assumes "cache_holds ops (valid, cap, items) (N, T, W) S c"
    and "case x of Insert now k v w \<Rightarrow> (now, k, v) \<in> S | _ \<Rightarrow> True"
  shows "cache_holds ops (valid, cap, items) (N, T, W) S (cache_step ops x c)"
proof -
  let ?P = "\<lambda>t k v. \<exists>t0. (t0, k, v) \<in> S \<and> t - t0 < T"
  from assms(1) have L: "ttl_lru ops valid cap items"
    and S: "ttl_store.sound (live items) (cache_inv valid items) ?P c"
    and c: "ttl c = T" "max_weight c = W" "cap (entries c) = N"
    by (simp_all add: cache_holds_def)
  note store = ttl_lru.is_store [OF L]
  have inv: "cache_inv valid items c" using S unfolding ttl_store.sound_def [OF store] by blast
  have "ttl_store.sound (live items) (cache_inv valid items) ?P (cache_step ops x c)"
    using S assms(2) c(1) ttl_store.sound_get [OF store] ttl_store.sound_rem [OF store]
    by (cases x) (auto intro!: ttl_store.sound_ins [OF store])
  with L c ttl_lru.step_inv [OF L inv, of x] show ?thesis by (simp add: cache_holds_def)
qed

lemma cache_holds_get:
  assumes "cache_holds ops view (N, T, W) S c" "ttl_get ops now c k = (hit, c')"
  shows "cache_holds ops view (N, T, W) S c'"
    and "hit = Some v \<Longrightarrow> \<exists>t0. (t0, k, v) \<in> S \<and> now - t0 < T"
proof -
  obtain valid cap items where view: "view = (valid, cap, items)" by (cases view)
  show "cache_holds ops view (N, T, W) S c'"
    using cache_holds_step [OF assms(1) [unfolded view], of "Get now k"] assms(2) view by simp
  from assms(1) have L: "ttl_lru ops valid cap items"
    and S: "ttl_store.sound (live items) (cache_inv valid items) (\<lambda>t k v. \<exists>t0. (t0, k, v) \<in> S \<and> t - t0 < T) c"
    by (simp_all add: cache_holds_def view)
  show "hit = Some v \<Longrightarrow> \<exists>t0. (t0, k, v) \<in> S \<and> now - t0 < T"
    using ttl_store.sound_get_result [OF ttl_lru.is_store [OF L] S, of now k v] assms(2) by simp
qed

lemma cache_holds_update:
  assumes "cache_holds ops view (N, T, W) S c"
  shows "(now, k, v) \<in> S \<Longrightarrow> cache_holds ops view (N, T, W) S (ttl_insert ops now c k v n)"
    and "cache_holds ops view (N, T, W) S (ttl_remove ops c k)"
  using cache_holds_step [of ops "fst view" "fst (snd view)" "snd (snd view)" N T W S c "Insert now k v n"]
    cache_holds_step [of ops "fst view" "fst (snd view)" "snd (snd view)" N T W S c "Remove k"] assms by simp_all

lemma cache_holds_mono:
  assumes "cache_holds ops view (N, T, W) S c" "S \<subseteq> S'"
  shows "cache_holds ops view (N, T, W) S' c"
proof -
  obtain valid cap items where view: "view = (valid, cap, items)" by (cases view)
  from assms(1) have L: "ttl_lru ops valid cap items" by (simp add: cache_holds_def view)
  from assms show ?thesis unfolding cache_holds_def view
    by (auto elim!: ttl_store.sound_mono [OF ttl_lru.is_store [OF L]])
qed

lemma cache_holds_new:
  assumes "ttl_lru ops valid cap items" "0 < N" "2 * unat W < 2 ^ 64"
  shows "cache_holds ops (valid, cap, items) (N, T, W) S (ttl_new ops N T W)"
  using ttl_lru.sound_new [OF assms] lru_contract.new_law [OF ttl_lru.axioms(1) [OF assms(1)] assms(2)] assms(1)
  by (simp add: cache_holds_def ttl_new_def)

lemma cache_holds_bound:
  assumes "cache_holds ops view (N, T, W) S c"
  shows "ttl_len ops c \<le> N \<and> unat (weight c) \<le> unat W"
proof -
  obtain valid cap items where view: "view = (valid, cap, items)" by (cases view)
  from assms have L: "ttl_lru ops valid cap items"
    and S: "ttl_store.sound (live items) (cache_inv valid items) (\<lambda>t k v. \<exists>t0. (t0, k, v) \<in> S \<and> t - t0 < T) c"
    and c: "max_weight c = W" "cap (entries c) = N" by (simp_all add: cache_holds_def view)
  note lru = ttl_lru.axioms(1) [OF L]
  have inv: "cache_inv valid items c" using S unfolding ttl_store.sound_def [OF ttl_lru.is_store [OF L]] by blast
  then have "valid (entries c)" "unat (weight c) \<le> unat W" using c by (simp_all add: cache_inv_def)
  with lru_contract.valid_law [OF lru, of "entries c"] lru_contract.len_law [OF lru, of "entries c"] c show ?thesis by (simp add: ttl_len_def)
qed

section \<open>What upstream has answered\<close>

text \<open>\<open>seen w\<close>: which answer to which call reached the gateway when.\<close>

type_synonym 'r answers = "(nat \<times> call \<times> 'r answer) set"

definition witnessed :: "('r, 'w) upstream \<Rightarrow> ('w \<Rightarrow> 'w \<Rightarrow> bool) \<Rightarrow> ('w \<Rightarrow> 'r answers) \<Rightarrow> bool" where
  "witnessed up env seen \<longleftrightarrow>
     (\<forall>w c. case ask_upstream up c w of (a, w') \<Rightarrow> later up seen w w' \<and> (clock up w', c, a) \<in> seen w') \<and>
     (\<forall>w w'. env w w' \<longrightarrow> later up seen w w') \<and>
     (\<forall>w t c a. (t, c, a) \<in> seen w \<longrightarrow> t \<le> clock up w)"

text \<open>What the answers say: metadata, missing paths, readers (opened after the file was known to have
  the length and the modification time they are filed under), listings.\<close>

definition metas :: "'r answers \<Rightarrow> (nat \<times> string \<times> file_meta) set" where
  "metas H = {(t, p, meta_of s) | t p s. (t, AskInfo p, Info (Inr s)) \<in> H}"

definition missing :: "'r answers \<Rightarrow> (nat \<times> string \<times> unit) set" where
  "missing H = {(t, p, ()) | t p e. (t, AskInfo p, Info (Inl e)) \<in> H \<and> code (map_hdfs_error (\<lambda>_. []) e False) = NoSuchKey}"

definition readers :: "'r answers \<Rightarrow> (nat \<times> string \<times> 'r cached_reader) set" where
  "readers H = {(t, p, v) | t p v. (t, AskOpen p, Opened (Inr (cr_reader v))) \<in> H \<and>
     (\<exists>t1 m. t1 \<le> t \<and> (t1, p, m) \<in> metas H \<and> fm_length m = cr_length v \<and> fm_mtime m = cr_mtime v)}"

definition listings :: "path_mapper \<Rightarrow> 'r answers \<Rightarrow> (nat \<times> string \<times> dir_listing) set" where
  "listings m H = {(t, d, listing_from_statuses sts m) | t d sts. (t, AskList d, Listed (Inr sts)) \<in> H}"

lemma metas_mono: "H \<subseteq> H' \<Longrightarrow> metas H \<subseteq> metas H'"
  by (auto simp: metas_def)

lemma answers_mono:
  assumes "H \<subseteq> H'"
  shows "metas H \<subseteq> metas H'" "missing H \<subseteq> missing H'" "readers H \<subseteq> readers H'" "listings m H \<subseteq> listings m H'"
proof -
  show "readers H \<subseteq> readers H'" unfolding readers_def using assms metas_mono [OF assms] by blast
qed (use assms in \<open>auto simp: metas_def missing_def listings_def\<close>)

text \<open>No older than \<open>T\<close> at the arrival of the request, or given since.\<close>

definition since :: "('r, 'w) upstream \<Rightarrow> 'w \<Rightarrow> nat \<Rightarrow> nat \<Rightarrow> bool" where
  "since up w0 T t \<longleftrightarrow> clock up w0 < t + T \<or> clock up w0 \<le> t"

lemma since_recent: "clock up w0 \<le> now \<Longrightarrow> now - t < T \<Longrightarrow> since up w0 T t"
  by (auto simp: since_def)

section \<open>The invariant of the shared state\<close>

record ('r, 'lm, 'ln, 'lb, 'ld) views =
  view_metadata :: "('lm, file_meta) view"
  view_negative :: "('ln, unit) view"
  view_blocks :: "('lb, 'r cached_reader) view"
  view_dirs :: "('ld, dir_listing) view"

abbreviation metadata_limits where
  "metadata_limits config \<equiv> (capacity (metadata_capacity config), ttl_of config (metadata_ttl_ms config), metadata_capacity config)"

abbreviation negative_limits where
  "negative_limits config \<equiv> (capacity (metadata_capacity config), ttl_of config (negative_ttl_ms config), metadata_capacity config)"

abbreviation blocks_limits where
  "blocks_limits config \<equiv> (capacity (blocks_capacity config), ttl_of config (blocks_ttl_ms config), blocks_capacity config)"

abbreviation dirs_limits where
  "dirs_limits config \<equiv>
     (capacity (listing_capacity_entries config), ttl_of config (listing_ttl_ms config), listing_capacity_entries config)"

definition conc_ok ::
  "('r, 'lm, 'ln, 'lb, 'ld) cache_ops \<Rightarrow> ('r, 'w) upstream \<Rightarrow> ('w \<Rightarrow> 'w \<Rightarrow> bool) \<Rightarrow> ('w \<Rightarrow> 'r answers)
     \<Rightarrow> ('r, 'lm, 'ln, 'lb, 'ld) views \<Rightarrow> cache_config \<Rightarrow> path_mapper \<Rightarrow> ('w, 'lm, 'ln, 'lb, 'ld) gw_state \<Rightarrow> bool" where
  "conc_ok ops up env seen V config m st \<longleftrightarrow>
     witnessed up env seen \<and>
     cache_holds (metadata_ops ops) (view_metadata V) (metadata_limits config) (metas (seen (gs_world st))) (metadata (gs_caches st)) \<and>
     cache_holds (negative_ops ops) (view_negative V) (negative_limits config) (missing (seen (gs_world st))) (negative (gs_caches st)) \<and>
     cache_holds (blocks_ops ops) (view_blocks V) (blocks_limits config) (readers (seen (gs_world st))) (blocks_cache (gs_caches st)) \<and>
     cache_holds (dirs_ops ops) (view_dirs V) (dirs_limits config) (listings m (seen (gs_world st))) (dirs_cache (gs_caches st))"

definition grows :: "('r, 'w) upstream \<Rightarrow> ('w \<Rightarrow> 'r answers) \<Rightarrow> ('w, 'lm, 'ln, 'lb, 'ld) gw_state
     \<Rightarrow> ('w, 'lm, 'ln, 'lb, 'ld) gw_state \<Rightarrow> bool" where
  "grows up seen st st' \<longleftrightarrow> later up seen (gs_world st) (gs_world st')"

lemma conc_ok_world:
  assumes "conc_ok ops up env seen V config m st" "later up seen (gs_world st) w"
  shows "conc_ok ops up env seen V config m (st\<lparr>gs_world := w\<rparr>)"
  using assms answers_mono(1-3) [of "seen (gs_world st)" "seen w"] answers_mono(4) [of "seen (gs_world st)" "seen w" m]
  by (auto simp: conc_ok_def later_def intro: cache_holds_mono)

lemma conc_ok_seq [simp]:
  "conc_ok ops up env seen V config m (st\<lparr>gs_seq := n\<rparr>) = conc_ok ops up env seen V config m st"
  by (simp add: conc_ok_def)

lemma conc_ok_ask:
  assumes "conc_ok ops up env seen V config m st" "gw_ask up c st = (a, st')"
  shows "conc_ok ops up env seen V config m st'" "grows up seen st st'"
    and "(clock up (gs_world st'), c, a) \<in> seen (gs_world st')"
    and "gs_caches st' = gs_caches st"
proof -
  obtain w where w: "ask_upstream up c (gs_world st) = (a, w)" "st' = st\<lparr>gs_world := w\<rparr>"
    using assms(2) by (auto simp: gw_ask_def split: prod.splits)
  have "later up seen (gs_world st) w" "(clock up w, c, a) \<in> seen w"
    using assms(1) w(1) by (auto simp: conc_ok_def witnessed_def split: prod.splits)
  with w conc_ok_world [OF assms(1)] show
    "conc_ok ops up env seen V config m st'" "grows up seen st st'"
    "(clock up (gs_world st'), c, a) \<in> seen (gs_world st')" "gs_caches st' = gs_caches st"
    by (simp_all add: grows_def)
qed

text \<open>Updates of single caches.\<close>

lemma conc_ok_caches:
  assumes "conc_ok ops up env seen V config m st"
  shows "ttl_get (metadata_ops ops) now (metadata (gs_caches st)) p = (hm, mc) \<Longrightarrow>
      conc_ok ops up env seen V config m (st\<lparr>gs_caches := (gs_caches st)\<lparr>metadata := mc\<rparr>\<rparr>)"
    and "ttl_get (negative_ops ops) now (negative (gs_caches st)) p = (hn, nc) \<Longrightarrow>
      conc_ok ops up env seen V config m (st\<lparr>gs_caches := (gs_caches st)\<lparr>negative := nc\<rparr>\<rparr>)"
    and "ttl_get (blocks_ops ops) now (blocks_cache (gs_caches st)) p = (hb, bc) \<Longrightarrow>
      conc_ok ops up env seen V config m (st\<lparr>gs_caches := (gs_caches st)\<lparr>blocks_cache := bc\<rparr>\<rparr>)"
    and "ttl_get (dirs_ops ops) now (dirs_cache (gs_caches st)) p = (hl, dc) \<Longrightarrow>
      conc_ok ops up env seen V config m (st\<lparr>gs_caches := (gs_caches st)\<lparr>dirs_cache := dc\<rparr>\<rparr>)"
    and "conc_ok ops up env seen V config m
      (st\<lparr>gs_caches := (gs_caches st)\<lparr>metadata := ttl_remove (metadata_ops ops) (metadata (gs_caches st)) p\<rparr>\<rparr>)"
    and "conc_ok ops up env seen V config m
      (st\<lparr>gs_caches := (gs_caches st)\<lparr>blocks_cache := ttl_remove (blocks_ops ops) (blocks_cache (gs_caches st)) p\<rparr>\<rparr>)"
  using assms by (auto simp: conc_ok_def intro: cache_holds_get(1) cache_holds_update(2))

lemma conc_ok_insert:
  assumes "conc_ok ops up env seen V config m st"
  shows "(now, p, v) \<in> metas (seen (gs_world st)) \<Longrightarrow> conc_ok ops up env seen V config m
      (st\<lparr>gs_caches := (gs_caches st)\<lparr>metadata := ttl_insert (metadata_ops ops) now (metadata (gs_caches st)) p v n\<rparr>\<rparr>)"
    and "(now, p, u) \<in> missing (seen (gs_world st)) \<Longrightarrow> conc_ok ops up env seen V config m
      (st\<lparr>gs_caches := (gs_caches st)\<lparr>negative := ttl_insert (negative_ops ops) now (negative (gs_caches st)) p u n\<rparr>\<rparr>)"
    and "(now, p, r) \<in> readers (seen (gs_world st)) \<Longrightarrow> conc_ok ops up env seen V config m
      (st\<lparr>gs_caches := (gs_caches st)\<lparr>blocks_cache := ttl_insert (blocks_ops ops) now (blocks_cache (gs_caches st)) p r n\<rparr>\<rparr>)"
    and "(now, p, l) \<in> listings m (seen (gs_world st)) \<Longrightarrow> conc_ok ops up env seen V config m
      (st\<lparr>gs_caches := (gs_caches st)\<lparr>dirs_cache := ttl_insert (dirs_ops ops) now (dirs_cache (gs_caches st)) p l n\<rparr>\<rparr>)"
  using assms by (auto simp: conc_ok_def intro: cache_holds_update(1))

lemma conc_ok_forget: "conc_ok ops up env seen V config m st \<Longrightarrow> conc_ok ops up env seen V config m (forget_object ops p st)"
  by (auto simp: conc_ok_def forget_object_def intro: cache_holds_update(2))

interpretation gw_tasks: async_contract "gw_ask up" "conc_ok ops up env seen V config m" "grows up seen"
  for ops :: "('r, 'lm, 'ln, 'lb, 'ld) cache_ops" and up :: "('r, 'w) upstream" and env seen V config m
  by unfold_locales (auto simp: grows_def intro: later_trans dest: conc_ok_ask(1,2))

section \<open>Every asynchronous function is safe\<close>

text \<open>The invariant and the growth of the history, for the rest of a task.\<close>

abbreviation conc_safe where
  "conc_safe ops up env seen V config m \<equiv> safe_async (gw_ask up) (conc_ok ops up env seen V config m) (grows up seen)"

lemma conc_ok_await:
  fixes ops :: "('r, 'lm, 'ln, 'lb, 'ld) cache_ops" and st :: "('w, 'lm, 'ln, 'lb, 'ld) gw_state"
  assumes "f st = (Await c k, st1)" "conc_ok ops up env seen V config m st1" "gs_world st1 = gs_world st"
    and "\<And>a s. conc_ok ops up env seen V config m s \<Longrightarrow> grows up seen st s \<Longrightarrow>
      (clock up (gs_world s), c, a) \<in> seen (gs_world s) \<Longrightarrow> (\<exists>w w'. ask_upstream up c w = (a, w')) \<Longrightarrow>
      conc_safe ops up env seen V config m Q (k a) s"
  shows "conc_safe ops up env seen V config m Q f st"
proof -
  have "conc_safe ops up env seen V config m Q (k a) s1"
    if s: "grows up seen st1 s" "conc_ok ops up env seen V config m s" "gw_ask up c s = (a, s1)" for s a s1
  proof (rule assms(4))
    show "conc_ok ops up env seen V config m s1" "(clock up (gs_world s1), c, a) \<in> seen (gs_world s1)"
      using conc_ok_ask [OF s(2,3)] by simp_all
    show "grows up seen st s1"
      using s(1) conc_ok_ask(2) [OF s(2,3)] assms(3) by (auto simp: grows_def intro: later_trans)
    show "\<exists>w w'. ask_upstream up c w = (a, w')" using s(3) by (auto simp: gw_ask_def split: prod.splits)
  qed
  then show ?thesis using assms(1-3) by (simp add: safe_async_def safe_Await grows_def)
qed

lemma ask_kind:
  "ask_upstream up (AskInfo p) w = (a, w') \<Longrightarrow> \<exists>r. a = Info r"
  "ask_upstream up (AskOpen p) w = (a, w') \<Longrightarrow> \<exists>r. a = Opened r"
  "ask_upstream up (AskList p) w = (a, w') \<Longrightarrow> \<exists>r. a = Listed r"
  by (auto simp: map_prod_def split: prod.splits)

declare ask_upstream.simps [simp del]

text \<open>What a metadata lookup for a request that arrived in \<open>w0\<close> rests on.\<close>

definition meta_since ::
  "('r, 'w) upstream \<Rightarrow> ('w \<Rightarrow> 'r answers) \<Rightarrow> cache_config \<Rightarrow> 'w \<Rightarrow> string \<Rightarrow> s3_error + file_meta
     \<Rightarrow> ('w, 'lm, 'ln, 'lb, 'ld) gw_state \<Rightarrow> bool" where
  "meta_since up seen config w0 p r st \<longleftrightarrow>
     (case r of
        Inr meta \<Rightarrow> \<exists>t. (t, p, meta) \<in> metas (seen (gs_world st)) \<and> since up w0 (ttl_of config (metadata_ttl_ms config)) t
      | Inl e \<Rightarrow> code e = NoSuchKey \<longrightarrow>
          (\<exists>t. (t, p, ()) \<in> missing (seen (gs_world st)) \<and> since up w0 (ttl_of config (negative_ttl_ms config)) t))"

lemma cached_since:
  assumes "cache_holds ops view (N, T, W) S c" "ttl_get ops (clock up w) c k = (Some v, c')" "clock up w0 \<le> clock up w"
  shows "\<exists>t. (t, k, v) \<in> S \<and> since up w0 T t"
  using cache_holds_get(2) [OF assms(1,2) refl] since_recent [OF assms(3)] by blast

lemma conc_okD:
  assumes "conc_ok ops up env seen V config m st"
  shows "witnessed up env seen"
    and "cache_holds (metadata_ops ops) (view_metadata V) (metadata_limits config) (metas (seen (gs_world st))) (metadata (gs_caches st))"
    and "cache_holds (negative_ops ops) (view_negative V) (negative_limits config) (missing (seen (gs_world st))) (negative (gs_caches st))"
    and "cache_holds (blocks_ops ops) (view_blocks V) (blocks_limits config) (readers (seen (gs_world st))) (blocks_cache (gs_caches st))"
    and "cache_holds (dirs_ops ops) (view_dirs V) (dirs_limits config) (listings m (seen (gs_world st))) (dirs_cache (gs_caches st))"
  using assms by (simp_all add: conc_ok_def)

lemma meta_since_cached:
  assumes "conc_ok ops up env seen V config m st" "clock up w0 \<le> clock up (gs_world st)"
  shows "ttl_get (metadata_ops ops) (clock up (gs_world st)) (metadata (gs_caches st)) p = (Some meta, mc) \<Longrightarrow>
      meta_since up seen config w0 p (Inr meta) (st\<lparr>gs_caches := cs\<rparr>)"
    and "ttl_get (negative_ops ops) (clock up (gs_world st)) (negative (gs_caches st)) p = (Some u, nc) \<Longrightarrow>
      meta_since up seen config w0 p (Inl e) (st\<lparr>gs_caches := cs\<rparr>)"
  using cached_since [OF conc_okD(2) [OF assms(1)] _ assms(2)] cached_since [OF conc_okD(3) [OF assms(1)] _ assms(2)]
  by (simp_all add: meta_since_def)

lemma since_now: "clock up w0 \<le> t \<Longrightarrow> since up w0 T t"
  by (simp add: since_def)

lemma file_meta_answer_safe:
  assumes "conc_ok ops up env seen V config m st" "clock up w0 \<le> clock up (gs_world st)"
    and "(clock up (gs_world st), AskInfo p, Info r) \<in> seen (gs_world st)"
  shows "conc_safe ops up env seen V config m (meta_since up seen config w0 p) (file_meta_answer ops up ext gw log p (Info r)) st"
proof (cases r)
  case (Inr s)
  then have mem: "(clock up (gs_world st), p, meta_of s) \<in> metas (seen (gs_world st))"
    using assms(3) by (auto simp: metas_def)
  then have "meta_since up seen config w0 p (Inr (meta_of s)) (st\<lparr>gs_caches := cs\<rparr>)" for cs
    using since_now [OF assms(2)] by (auto simp: meta_since_def)
  with Inr conc_ok_insert(1) [OF assms(1) mem] show ?thesis
    by (simp add: safe_async_def file_meta_answer_def Let_def grows_def meta_of_def [symmetric])
next
  case (Inl e)
  have miss: "meta_since up seen config w0 p (Inl x) (st\<lparr>gs_caches := cs\<rparr>)"
      "meta_since up seen config w0 p (Inl x) st" "(clock up (gs_world st), p, ()) \<in> missing (seen (gs_world st))"
    if "code (map_hdfs_error f e b) = NoSuchKey" for f b cs x
    using assms(3) Inl that since_now [OF assms(2)] by (auto simp: meta_since_def missing_def code_map_hdfs_error)
  have other: "meta_since up seen config w0 p (Inl x) st" if "code x \<noteq> NoSuchKey" for x
    using that by (simp add: meta_since_def)
  show ?thesis
  proof (cases "is_file_not_found e")
    case True
    with Inl miss [OF not_found_code] conc_ok_insert(2) [OF assms(1)] show ?thesis
      by (simp add: safe_async_def file_meta_answer_def grows_def)
  next
    case False
    have "meta_since up seen config w0 p (upstream_err ext gw log e) st"
      using miss(2) other by (metis code_attach)
    with Inl False assms(1) show ?thesis
      by (simp add: safe_async_def file_meta_answer_def grows_def)
  qed
qed

lemma file_meta_safe:
  assumes "conc_ok ops up env seen V config m st" "clock up w0 \<le> clock up (gs_world st)"
  shows "conc_safe ops up env seen V config m (meta_since up seen config w0 p) (file_meta_async ops up ext gw log p) st"
proof -
  obtain hit mc where get: "ttl_get (metadata_ops ops) (clock up (gs_world st)) (metadata (gs_caches st)) p = (hit, mc)"
    by fastforce
  let ?st1 = "st\<lparr>gs_caches := (gs_caches st)\<lparr>metadata := mc\<rparr>\<rparr>"
  obtain neg nc where neg: "ttl_get (negative_ops ops) (clock up (gs_world st)) (negative (gs_caches st)) p = (neg, nc)"
    by fastforce
  let ?st2 = "?st1\<lparr>gs_caches := (gs_caches ?st1)\<lparr>negative := nc\<rparr>\<rparr>"
  have st1: "conc_ok ops up env seen V config m ?st1" by (rule conc_ok_caches(1) [OF assms(1) get])
  have st2: "conc_ok ops up env seen V config m ?st2"
    by (rule conc_ok_caches(2) [OF st1]) (use neg in simp)
  show ?thesis
  proof (cases "hit = None \<and> neg = None")
    case False
    with get neg st1 st2 meta_since_cached [OF assms] show ?thesis
      by (cases hit) (auto simp: safe_async_def file_meta_async_def grows_def)
  next
    case True
    show ?thesis
    proof (rule conc_ok_await [OF _ st2])
      show "file_meta_async ops up ext gw log p st = (Await (AskInfo p) (file_meta_answer ops up ext gw log p), ?st2)"
        using True get neg by (simp add: file_meta_async_def)
    qed (use assms(2) in \<open>auto simp: grows_def later_def dest!: ask_kind intro!: file_meta_answer_safe\<close>)
  qed
qed

lemma grows_answers:
  assumes "grows up seen st s"
  shows "metas (seen (gs_world st)) \<subseteq> metas (seen (gs_world s))" "missing (seen (gs_world st)) \<subseteq> missing (seen (gs_world s))"
    and "readers (seen (gs_world st)) \<subseteq> readers (seen (gs_world s))" "listings m (seen (gs_world st)) \<subseteq> listings m (seen (gs_world s))"
  using assms by (auto simp: grows_def later_def intro: answers_mono [THEN subsetD])

lemma meta_since_grows:
  "meta_since up seen config w0 p r st \<Longrightarrow> grows up seen st s \<Longrightarrow> meta_since up seen config w0 p r s"
  using grows_answers(1,2) [of up seen st s] by (fastforce simp: meta_since_def split: sum.splits)

abbreviation reader_for :: "'r \<Rightarrow> file_meta \<Rightarrow> 'r cached_reader" where
  "reader_for reader meta \<equiv> \<lparr>cr_reader = reader, cr_length = fm_length meta, cr_mtime = fm_mtime meta\<rparr>"

text \<open>What an open reader for metadata \<open>meta\<close> rests on.\<close>

definition reader_since ::
  "('r, 'w) upstream \<Rightarrow> ('w \<Rightarrow> 'r answers) \<Rightarrow> cache_config \<Rightarrow> 'w \<Rightarrow> string \<Rightarrow> file_meta \<Rightarrow> s3_error + 'r
     \<Rightarrow> ('w, 'lm, 'ln, 'lb, 'ld) gw_state \<Rightarrow> bool" where
  "reader_since up seen config w0 p meta r st \<longleftrightarrow>
     meta_since up seen config w0 p (Inr meta) st \<and>
     (case r of
        Inr reader \<Rightarrow> \<exists>t. (t, p, reader_for reader meta) \<in> readers (seen (gs_world st)) \<and>
          since up w0 (ttl_of config (blocks_ttl_ms config)) t
      | Inl e \<Rightarrow> True)"

lemma reader_since_caches [simp]:
  "reader_since up seen config w0 p meta r (st\<lparr>gs_caches := cs\<rparr>) = reader_since up seen config w0 p meta r st"
  "meta_since up seen config w0 p r' (st\<lparr>gs_caches := cs\<rparr>) = meta_since up seen config w0 p r' st"
  by (simp_all add: reader_since_def meta_since_def split: sum.split)

lemma open_reader_answer_safe:
  assumes "conc_ok ops up env seen V config m st" "clock up w0 \<le> clock up (gs_world st)"
    and "meta_since up seen config w0 p (Inr meta) st"
    and "(clock up (gs_world st), AskOpen p, Opened r) \<in> seen (gs_world st)"
  shows "conc_safe ops up env seen V config m (reader_since up seen config w0 p meta)
    (open_reader_answer ops up ext gw log p meta (Opened r)) st"
proof (cases r)
  case (Inr reader)
  from assms(3) obtain t where "(t, p, meta) \<in> metas (seen (gs_world st))" by (auto simp: meta_since_def)
  moreover from this have "t \<le> clock up (gs_world st)"
    using conc_okD(1) [OF assms(1)] unfolding metas_def witnessed_def by blast
  ultimately have mem: "(clock up (gs_world st), p, reader_for reader meta) \<in> readers (seen (gs_world st))"
    using assms(4) Inr by (auto simp: readers_def)
  then have "reader_since up seen config w0 p meta (Inr reader) st"
    using assms(3) since_now [OF assms(2)] by (auto simp: reader_since_def)
  with Inr conc_ok_insert(3) [OF assms(1) mem] show ?thesis
    by (simp add: safe_async_def open_reader_answer_def grows_def)
next
  case (Inl e)
  have "reader_since up seen config w0 p meta (Inl x) st" for x
    using assms(3) by (simp add: reader_since_def)
  with Inl conc_ok_caches(5) [OF assms(1)] show ?thesis
    by (simp add: safe_async_def open_reader_answer_def grows_def)
qed

lemma open_reader_safe:
  assumes "conc_ok ops up env seen V config m st" "clock up w0 \<le> clock up (gs_world st)"
    and "meta_since up seen config w0 p (Inr meta) st"
  shows "conc_safe ops up env seen V config m (reader_since up seen config w0 p meta)
    (open_reader_async ops up ext gw log p meta) st"
proof -
  obtain hit bc where get: "ttl_get (blocks_ops ops) (clock up (gs_world st)) (blocks_cache (gs_caches st)) p = (hit, bc)"
    by fastforce
  let ?st1 = "st\<lparr>gs_caches := (gs_caches st)\<lparr>blocks_cache := bc\<rparr>\<rparr>"
  let ?st2 = "if hit \<noteq> None then ?st1\<lparr>gs_caches := (gs_caches ?st1)\<lparr>blocks_cache :=
      ttl_remove (blocks_ops ops) (blocks_cache (gs_caches ?st1)) p\<rparr>\<rparr> else ?st1"
  have st1: "conc_ok ops up env seen V config m ?st1" by (rule conc_ok_caches(3) [OF assms(1) get])
  then have st2: "conc_ok ops up env seen V config m ?st2" using conc_ok_caches(6) [OF st1] by simp
  show ?thesis
  proof (cases "\<exists>v. hit = Some v \<and> cr_length v = fm_length meta \<and> cr_mtime v = fm_mtime meta")
    case True
    then obtain v where v: "hit = Some v" "v = reader_for (cr_reader v) meta" by (metis cached_reader.surjective unit.exhaust)
    from cached_since [OF conc_okD(4) [OF assms(1)] get [unfolded v(1)] assms(2)]
    have "reader_since up seen config w0 p meta (Inr (cr_reader v)) st"
      using v(2) assms(3) by (auto simp: reader_since_def)
    with st1 get True v show ?thesis
      by (auto simp: safe_async_def open_reader_async_def grows_def)
  next
    case False
    show ?thesis
    proof (rule conc_ok_await [OF _ st2])
      show "open_reader_async ops up ext gw log p meta st = (Await (AskOpen p) (open_reader_answer ops up ext gw log p meta), ?st2)"
        using False get by (auto simp: open_reader_async_def Let_def split: option.splits)
    next
      fix a s assume s: "conc_ok ops up env seen V config m s" "grows up seen st s"
        "(clock up (gs_world s), AskOpen p, a) \<in> seen (gs_world s)" "\<exists>w w'. ask_upstream up (AskOpen p) w = (a, w')"
      from s(4) obtain r where "a = Opened r" by (auto dest: ask_kind(2))
      with s assms(2) meta_since_grows [OF assms(3) s(2)]
      show "conc_safe ops up env seen V config m (reader_since up seen config w0 p meta)
          (open_reader_answer ops up ext gw log p meta a) s"
        by (auto intro!: open_reader_answer_safe simp: grows_def later_def)
    qed simp
  qed
qed

text \<open>What a directory listing rests on.\<close>

definition listing_since ::
  "('r, 'w) upstream \<Rightarrow> ('w \<Rightarrow> 'r answers) \<Rightarrow> cache_config \<Rightarrow> path_mapper \<Rightarrow> 'w \<Rightarrow> string \<Rightarrow> hdfs_error + dir_listing
     \<Rightarrow> ('w, 'lm, 'ln, 'lb, 'ld) gw_state \<Rightarrow> bool" where
  "listing_since up seen config m w0 d r st \<longleftrightarrow>
     (case r of
        Inr listing \<Rightarrow> \<exists>t. (t, d, listing) \<in> listings m (seen (gs_world st)) \<and>
          since up w0 (ttl_of config (listing_ttl_ms config)) t
      | Inl e \<Rightarrow> True)"

lemma list_dir_answer_safe:
  assumes "conc_ok ops up env seen V config m st" "clock up w0 \<le> clock up (gs_world st)"
    and "(clock up (gs_world st), AskList d, Listed r) \<in> seen (gs_world st)"
  shows "conc_safe ops up env seen V config m (listing_since up seen config m w0 d) (list_dir_answer ops up m d (Listed r)) st"
proof (cases r)
  case (Inr sts)
  then have mem: "(clock up (gs_world st), d, listing_from_statuses sts m) \<in> listings m (seen (gs_world st))"
    using assms(3) by (auto simp: listings_def)
  then have "listing_since up seen config m w0 d (Inr (listing_from_statuses sts m)) (st\<lparr>gs_caches := cs\<rparr>)"
      "listing_since up seen config m w0 d (Inr (listing_from_statuses sts m)) st" for cs
    using since_now [OF assms(2)] by (auto simp: listing_since_def)
  with Inr conc_ok_insert(4) [OF assms(1) mem] assms(1) show ?thesis
    by (simp add: safe_async_def list_dir_answer_def Let_def grows_def)
qed (use assms(1) in \<open>simp add: safe_async_def list_dir_answer_def listing_since_def grows_def\<close>)

lemma list_dir_safe:
  assumes "conc_ok ops up env seen V config m st" "clock up w0 \<le> clock up (gs_world st)"
  shows "conc_safe ops up env seen V config m (listing_since up seen config m w0 d) (list_dir_async ops up m d) st"
proof -
  obtain hit dc where get: "ttl_get (dirs_ops ops) (clock up (gs_world st)) (dirs_cache (gs_caches st)) d = (hit, dc)"
    by fastforce
  let ?st1 = "st\<lparr>gs_caches := (gs_caches st)\<lparr>dirs_cache := dc\<rparr>\<rparr>"
  have st1: "conc_ok ops up env seen V config m ?st1" by (rule conc_ok_caches(4) [OF assms(1) get])
  show ?thesis
  proof (cases hit)
    case (Some l)
    with get st1 cached_since [OF conc_okD(5) [OF assms(1)] get [unfolded Some] assms(2)] show ?thesis
      by (simp add: safe_async_def list_dir_async_def listing_since_def grows_def)
  next
    case None
    show ?thesis
    proof (rule conc_ok_await [OF _ st1])
      show "list_dir_async ops up m d st = (Await (AskList d) (list_dir_answer ops up m d), ?st1)"
        using None get by (simp add: list_dir_async_def)
    qed (use assms(2) in \<open>auto simp: grows_def later_def dest!: ask_kind intro!: list_dir_answer_safe\<close>)
  qed
qed

section \<open>Requests and replies\<close>

text \<open>A flat listing calls its lister one directory after the other; every such call is a request here.\<close>

datatype conc_request = HeadCall object_input | GetCall get_object_input | ListDirCall string

datatype reply =
    HeadReply "s3_error + object_head s3_response"
  | GetReply "s3_error + object_get s3_response"
  | DirReply "hdfs_error + dir_listing"

fun gw_start ::
  "('r, 'lm, 'ln, 'lb, 'ld) cache_ops \<Rightarrow> ('r, 'w) upstream \<Rightarrow> externs \<Rightarrow> gateway \<Rightarrow> conc_request
     \<Rightarrow> (call, 'r answer, ('w, 'lm, 'ln, 'lb, 'ld) gw_state, reply) async" where
  "gw_start ops up ext gw (HeadCall input) = async_then (head_object_async ops up ext gw input) (\<lambda>x. ret (HeadReply x))"
| "gw_start ops up ext gw (GetCall input) = async_then (get_object_async ops up ext gw input) (\<lambda>x. ret (GetReply x))"
| "gw_start ops up ext gw (ListDirCall d) = async_then (list_dir_async ops up (gw_mapper gw) d) (\<lambda>x. ret (DirReply x))"

text \<open>
  What else happens to the state: the world moves on, a pull of a response body fails, an operation
  without upstream calls takes a request id.
\<close>

inductive gw_event ::
  "('r, 'lm, 'ln, 'lb, 'ld) cache_ops \<Rightarrow> ('w \<Rightarrow> 'w \<Rightarrow> bool) \<Rightarrow> ('w, 'lm, 'ln, 'lb, 'ld) gw_state
     \<Rightarrow> ('w, 'lm, 'ln, 'lb, 'ld) gw_state \<Rightarrow> bool" for ops env where
  outside: "env (gs_world st) w \<Longrightarrow> gw_event ops env st (st\<lparr>gs_world := w\<rparr>)"
| body_failed: "gw_event ops env st (forget_object ops p st)"
| counted: "gw_event ops env st (st\<lparr>gs_seq := gs_seq st + 1\<rparr>)"

section \<open>What a reply rests on\<close>

definition object_since ::
  "('r, 'w) upstream \<Rightarrow> 'r answers \<Rightarrow> cache_config \<Rightarrow> 'w \<Rightarrow> string \<Rightarrow> file_meta \<Rightarrow> bool" where
  "object_since up H config w0 p meta \<longleftrightarrow>
     (\<exists>t. (t, p, meta) \<in> metas H \<and> since up w0 (ttl_of config (metadata_ttl_ms config)) t)"

definition missing_since :: "('r, 'w) upstream \<Rightarrow> 'r answers \<Rightarrow> cache_config \<Rightarrow> 'w \<Rightarrow> string \<Rightarrow> bool" where
  "missing_since up H config w0 p \<longleftrightarrow>
     (\<exists>t. (t, p, ()) \<in> missing H \<and> since up w0 (ttl_of config (negative_ttl_ms config)) t)"

definition describes :: "'z object_head_scheme \<Rightarrow> file_meta \<Rightarrow> bool" where
  "describes out meta \<longleftrightarrow> \<not> fm_isdir meta \<and> last_modified out = millis_to_timestamp (fm_mtime meta) \<and>
     e_tag out = Strong (fallback_etag (fm_length meta) (fm_mtime meta))"

definition head_since ::
  "('r, 'w) upstream \<Rightarrow> 'r answers \<Rightarrow> cache_config \<Rightarrow> path_mapper \<Rightarrow> 'w \<Rightarrow> object_input
     \<Rightarrow> s3_error + object_head s3_response \<Rightarrow> bool" where
  "head_since up H config m w0 input r \<longleftrightarrow>
     (case r of
        Inr resp \<Rightarrow> \<exists>p meta. key_to_hdfs_path m (in_key input) = Some p \<and> object_since up H config w0 p meta \<and>
          describes (resp_output resp) meta \<and> content_length (resp_output resp) = sint (fm_length meta)
      | Inl e \<Rightarrow> code e = NoSuchKey \<longrightarrow>
          (case key_to_hdfs_path m (in_key input) of
             None \<Rightarrow> True
           | Some p \<Rightarrow> missing_since up H config w0 p \<or>
               (\<exists>meta. object_since up H config w0 p meta \<and> fm_isdir meta)))"

text \<open>A stream of a reader that was opened when the file was known to have the identity of \<open>meta\<close>.\<close>

definition streams_since ::
  "('r, 'w) upstream \<Rightarrow> 'r answers \<Rightarrow> cache_config \<Rightarrow> 'w \<Rightarrow> string \<Rightarrow> file_meta \<Rightarrow> (string + string) list \<Rightarrow> bool" where
  "streams_since up H config w0 p meta stream \<longleftrightarrow>
     (\<exists>reader t w start n. (t, p, reader_for reader meta) \<in> readers H \<and>
        since up w0 (ttl_of config (blocks_ttl_ms config)) t \<and> stream = read_range_stream up w reader start n)"

definition get_since ::
  "('r, 'w) upstream \<Rightarrow> 'r answers \<Rightarrow> cache_config \<Rightarrow> path_mapper \<Rightarrow> 'w \<Rightarrow> get_object_input
     \<Rightarrow> s3_error + object_get s3_response \<Rightarrow> bool" where
  "get_since up H config m w0 input r \<longleftrightarrow>
     (case r of
        Inr resp \<Rightarrow> \<exists>p meta. key_to_hdfs_path m (in_key input) = Some p \<and> object_since up H config w0 p meta \<and>
          describes (resp_output resp) meta \<and> streams_since up H config w0 p meta (upstream_stream (resp_output resp))
      | Inl e \<Rightarrow> True)"

fun reply_since ::
  "('r, 'w) upstream \<Rightarrow> ('w \<Rightarrow> 'r answers) \<Rightarrow> cache_config \<Rightarrow> path_mapper \<Rightarrow> conc_request
     \<Rightarrow> ('w, 'lm, 'ln, 'lb, 'ld) gw_state \<Rightarrow> reply \<Rightarrow> ('w, 'lm, 'ln, 'lb, 'ld) gw_state \<Rightarrow> bool" where
  "reply_since up seen config m (HeadCall input) st0 (HeadReply r) st =
     head_since up (seen (gs_world st)) config m (gs_world st0) input r"
| "reply_since up seen config m (GetCall input) st0 (GetReply r) st =
     get_since up (seen (gs_world st)) config m (gs_world st0) input r"
| "reply_since up seen config m (ListDirCall d) st0 (DirReply r) st =
     listing_since up seen config m (gs_world st0) d r st"
| "reply_since up seen config m _ st0 _ st = False"

lemma since_mono:
  assumes "H \<subseteq> H'"
  shows "object_since up H config w0 p meta \<Longrightarrow> object_since up H' config w0 p meta"
    and "missing_since up H config w0 p \<Longrightarrow> missing_since up H' config w0 p"
    and "streams_since up H config w0 p meta stream \<Longrightarrow> streams_since up H' config w0 p meta stream"
  using answers_mono(1,2,3) [OF assms] unfolding object_since_def missing_since_def streams_since_def by blast+

lemma head_since_mono:
  assumes "H \<subseteq> H'" "head_since up H config m w0 input r"
  shows "head_since up H' config m w0 input r"
  using assms(2) unfolding head_since_def
  by (cases r; cases "key_to_hdfs_path m (in_key input)"; simp) (blast intro: since_mono [OF assms(1)])+

lemma get_since_mono:
  assumes "H \<subseteq> H'" "get_since up H config m w0 input r"
  shows "get_since up H' config m w0 input r"
  using assms(2) unfolding get_since_def
  by (cases r; simp) (blast intro: since_mono [OF assms(1)])

lemma listing_since_grows:
  assumes "grows up seen st st'" "listing_since up seen config m w0 d r st"
  shows "listing_since up seen config m w0 d r st'"
  using assms(2) unfolding listing_since_def
  by (cases r; simp) (blast intro: grows_answers(4) [OF assms(1), THEN subsetD])

lemma reply_since_grows:
  assumes "reply_since up seen config m q st0 x st" "grows up seen st st'"
  shows "reply_since up seen config m q st0 x st'"
proof -
  have H: "seen (gs_world st) \<subseteq> seen (gs_world st')" using assms(2) by (simp add: grows_def later_def)
  show ?thesis
    using assms(1) head_since_mono [OF H] get_since_mono [OF H] listing_since_grows [OF assms(2)]
    by (cases "(up, seen, config, m, q, st0, x, st)" rule: reply_since.cases) auto
qed

lemma forget_object_world [simp]: "gs_world (forget_object ops p st) = gs_world st"
  by (simp add: forget_object_def)

lemma head_reply_Inr:
  "head_reply ext log input p meta = Inr resp \<Longrightarrow>
     describes (resp_output resp) meta \<and> content_length (resp_output resp) = sint (fm_length meta)"
  by (auto simp: head_reply_def describes_def Let_def with_request_id_def s3_response_new_def etag_def from_hdfs_def
      split: if_splits option.splits)

lemma head_reply_Inl: "head_reply ext log input p meta = Inl e \<Longrightarrow> code e = NoSuchKey \<Longrightarrow> fm_isdir meta"
  by (auto simp: head_reply_def check_conditions_def Let_def s3_error_new_def split: if_splits option.splits etag_condition.splits)

lemma head_since_error:
  "key_to_hdfs_path m (in_key input) = None \<or> code e \<noteq> NoSuchKey \<Longrightarrow> head_since up H config m w0 input (Inl e)"
  by (auto simp: head_since_def)

lemma head_since_reply:
  assumes "key_to_hdfs_path m (in_key input) = Some p" "meta_since up seen config w0 p r st"
  shows "head_since up (seen (gs_world st)) config m w0 input
    (case r of Inl e \<Rightarrow> Inl e | Inr status \<Rightarrow> head_reply ext log input p status)"
proof (cases r)
  case (Inr meta)
  then have "object_since up (seen (gs_world st)) config w0 p meta"
    using assms(2) by (simp add: meta_since_def object_since_def)
  with Inr assms(1) head_reply_Inr [of ext log input p meta] head_reply_Inl [of ext log input p meta] show ?thesis
    by (cases "head_reply ext log input p meta") (auto simp: head_since_def)
qed (use assms in \<open>auto simp: head_since_def meta_since_def missing_since_def\<close>)

lemma head_object_safe:
  assumes "conc_ok ops up env seen V config m st"
  shows "conc_safe ops up env seen V config m
    (\<lambda>r s. head_since up (seen (gs_world s)) config (gw_mapper gw) (gs_world st) input r) (head_object_async ops up ext gw input) st"
proof (cases "in_bucket input = bucket (gw_mapper gw) \<and> key_to_hdfs_path (gw_mapper gw) (in_key input) \<noteq> None")
  case False
  with assms show ?thesis
    by (auto simp: safe_async_def head_object_async_def request_log_new_split grows_def s3_error_new_def
        intro!: head_since_error)
next
  case True
  then obtain p where p: "key_to_hdfs_path (gw_mapper gw) (in_key input) = Some p" by auto
  let ?log = "object_log up ''HeadObject'' p st" and ?st = "st\<lparr>gs_seq := gs_seq st + 1\<rparr>"
  show ?thesis
  proof (rule gw_tasks.safe_async_at [OF gw_tasks.safe_async_then])
    show "conc_safe ops up env seen V config m (meta_since up seen config (gs_world st) p) (file_meta_async ops up ext gw ?log p) ?st"
      using assms by (intro file_meta_safe) simp_all
    show "head_object_async ops up ext gw input st = async_then (file_meta_async ops up ext gw ?log p)
        (\<lambda>r. ret (case r of Inl e \<Rightarrow> Inl e | Inr status \<Rightarrow> head_reply ext ?log input p status)) ?st"
      using True p by (simp add: head_object_async_def request_log_new_split Let_def)
  qed (simp_all add: safe_async_def grows_def head_since_reply [OF p])
qed

lemma get_reply_describes:
  "\<not> fm_isdir meta \<Longrightarrow> describes (resp_output (get_reply up ext log p meta (a, b, len, cr) reader w)) meta"
  "upstream_stream (resp_output (get_reply up ext log p meta (a, b, len, cr) reader w)) = read_range_stream up w reader a (b - a)"
  by (auto simp: get_reply_def describes_def Let_def with_request_id_def s3_response_new_def etag_def from_hdfs_def
      split: option.split)

lemma get_plan_file: "get_plan ext log input p meta = Inr window \<Longrightarrow> \<not> fm_isdir meta"
  by (auto simp: get_plan_def split: if_splits)

lemma get_since_reply:
  assumes "key_to_hdfs_path m (in_key input) = Some p" "reader_since up seen config w0 p meta (Inr reader) st" "\<not> fm_isdir meta"
  shows "get_since up (seen (gs_world st)) config m w0 input (Inr (get_reply up ext log p meta (a, b, len, cr) reader w))"
proof -
  from assms(2) have "object_since up (seen (gs_world st)) config w0 p meta"
    by (simp add: reader_since_def meta_since_def object_since_def)
  moreover from assms(2) have "streams_since up (seen (gs_world st)) config w0 p meta (read_range_stream up w reader a (b - a))"
    unfolding streams_since_def reader_since_def sum.case by blast
  ultimately show ?thesis
    using assms(1) get_reply_describes(1) [OF assms(3)] by (simp add: get_since_def get_reply_describes(2)) (intro exI [of _ meta] conjI)
qed

lemma get_object_resume_safe:
  assumes "conc_ok ops up env seen V config m st" "clock up w0 \<le> clock up (gs_world st)"
    and "key_to_hdfs_path (gw_mapper gw) (in_key input) = Some p" "meta_since up seen config w0 p r st"
  shows "conc_safe ops up env seen V config m (\<lambda>r s. get_since up (seen (gs_world s)) config (gw_mapper gw) w0 input r)
    (get_object_resume ops up ext gw input log p r) st"
proof -
  have err: "get_since up H config (gw_mapper gw) w0 input (Inl e)" for H e by (simp add: get_since_def)
  show ?thesis
  proof (cases "\<exists>status window. r = Inr status \<and> get_plan ext log input p status = Inr window")
    case False
    with assms(1) err show ?thesis by (auto simp: get_object_resume_def safe_async_def grows_def split: sum.splits)
  next
    case True
    then obtain status a b len cr where r: "r = Inr status" and plan: "get_plan ext log input p status = Inr (a, b, len, cr)"
      by auto
    show ?thesis unfolding get_object_resume_def r plan sum.case prod.case
      by (rule gw_tasks.safe_async_then [OF open_reader_safe [OF assms(1,2) assms(4) [unfolded r]]])
         (auto simp: safe_async_def grows_def err conc_ok_forget get_since_reply [OF assms(3) _ get_plan_file [OF plan]]
           split: sum.splits)
  qed
qed

lemma get_object_safe:
  assumes "conc_ok ops up env seen V config m st"
  shows "conc_safe ops up env seen V config m
    (\<lambda>r s. get_since up (seen (gs_world s)) config (gw_mapper gw) (gs_world st) input r) (get_object_async ops up ext gw input) st"
proof (cases "in_bucket input = bucket (gw_mapper gw) \<and> key_to_hdfs_path (gw_mapper gw) (in_key input) \<noteq> None")
  case False
  with assms show ?thesis
    by (auto simp: safe_async_def get_object_async_def request_log_new_split grows_def get_since_def)
next
  case True
  then obtain p where p: "key_to_hdfs_path (gw_mapper gw) (in_key input) = Some p" by auto
  let ?log = "object_log up ''GetObject'' p st" and ?st = "st\<lparr>gs_seq := gs_seq st + 1\<rparr>"
  show ?thesis
  proof (rule gw_tasks.safe_async_at [OF gw_tasks.safe_async_then])
    show "conc_safe ops up env seen V config m (meta_since up seen config (gs_world st) p) (file_meta_async ops up ext gw ?log p) ?st"
      using assms by (intro file_meta_safe) simp_all
    show "get_object_async ops up ext gw input st =
        async_then (file_meta_async ops up ext gw ?log p) (get_object_resume ops up ext gw input ?log p) ?st"
      using True p by (simp add: get_object_async_def request_log_new_split Let_def)
  qed (auto simp: grows_def later_def intro!: get_object_resume_safe [OF _ _ p])
qed

lemma gw_start_safe:
  assumes "conc_ok ops up env seen V config (gw_mapper gw) st"
  shows "conc_safe ops up env seen V config (gw_mapper gw) (reply_since up seen config (gw_mapper gw) q st) (gw_start ops up ext gw q) st"
proof (cases q)
  case (HeadCall input)
  show ?thesis unfolding HeadCall gw_start.simps
    by (rule gw_tasks.safe_async_then [OF head_object_safe [OF assms]]) (simp add: safe_async_def grows_def)
next
  case (GetCall input)
  show ?thesis unfolding GetCall gw_start.simps
    by (rule gw_tasks.safe_async_then [OF get_object_safe [OF assms]]) (simp add: safe_async_def grows_def)
next
  case (ListDirCall d)
  show ?thesis unfolding ListDirCall gw_start.simps
    by (rule gw_tasks.safe_async_then [OF list_dir_safe [OF assms order_refl]]) (simp add: safe_async_def grows_def)
qed

lemma gw_event_ok:
  assumes "gw_event ops env st st'" "conc_ok ops up env seen V config m st"
  shows "conc_ok ops up env seen V config m st' \<and> grows up seen st st'"
  using assms
proof (induction rule: gw_event.induct)
  case (outside st w)
  then have "later up seen (gs_world st) w" using conc_okD(1) unfolding witnessed_def by blast
  then show ?case using conc_ok_world outside(2) by (simp add: grows_def)
qed (simp_all add: conc_ok_forget grows_def)

interpretation gw_server: async_server "gw_ask up" "conc_ok ops up env seen V config (gw_mapper gw)" "grows up seen"
  "gw_start ops up ext gw" "gw_event ops env" "reply_since up seen config (gw_mapper gw)"
  for ops :: "('r, 'lm, 'ln, 'lb, 'ld) cache_ops" and up :: "('r, 'w) upstream" and env seen V config gw ext
  by unfold_locales (auto intro: gw_start_safe reply_since_grows dest: gw_event_ok)

text \<open>The contracts of the four maps.\<close>

definition maps_ok :: "('r, 'lm, 'ln, 'lb, 'ld) cache_ops \<Rightarrow> ('r, 'lm, 'ln, 'lb, 'ld) views \<Rightarrow> bool" where
  "maps_ok ops V \<longleftrightarrow>
     (case view_metadata V of (valid, cap, items) \<Rightarrow> ttl_lru (metadata_ops ops) valid cap items) \<and>
     (case view_negative V of (valid, cap, items) \<Rightarrow> ttl_lru (negative_ops ops) valid cap items) \<and>
     (case view_blocks V of (valid, cap, items) \<Rightarrow> ttl_lru (blocks_ops ops) valid cap items) \<and>
     (case view_dirs V of (valid, cap, items) \<Rightarrow> ttl_lru (dirs_ops ops) valid cap items)"

text \<open>Budgets below half the range of \<^verbatim>\<open>usize\<close>.\<close>

definition budgets_ok :: "cache_config \<Rightarrow> bool" where
  "budgets_ok config \<longleftrightarrow> 2 * unat (metadata_capacity config) < 2 ^ 64 \<and> 2 * unat (blocks_capacity config) < 2 ^ 64 \<and>
     2 * unat (listing_capacity_entries config) < 2 ^ 64"

lemma conc_ok_new:
  assumes "maps_ok ops V" "budgets_ok config" "witnessed up env seen"
  shows "conc_ok ops up env seen V config m \<lparr>gs_caches = caches_new ops config, gs_world = w, gs_seq = n\<rparr>"
  using assms
  by (auto simp: conc_ok_def caches_new_def maps_ok_def budgets_ok_def intro!: cache_holds_new capacity_pos split: prod.splits)

abbreviation gw_init where
  "gw_init ops config w n \<equiv> conc_new \<lparr>gs_caches = caches_new ops config, gs_world = w, gs_seq = n\<rparr>"

abbreviation gw_conc_step where
  "gw_conc_step ops up ext gw env \<equiv> conc_step (gw_ask up) (gw_start ops up ext gw) (gw_event ops env)"

section \<open>Properties\<close>

text \<open>
  Claim C7: bounded staleness under concurrency.  Whatever requests run at the same time, wherever they are
  interrupted or dropped, and whatever happens outside, every finished request rests on answers of
  upstream that reached the gateway since its arrival or less than one time to live before.  A
  \<^verbatim>\<open>HeadObject\<close> reports the length, time and ETag of such an answer for its path, or says
  \<open>NoSuchKey\<close> because of one.  A \<^verbatim>\<open>GetObject\<close> has headers of such an answer and streams from a reader that was
  opened, no longer ago than the block TTL, after upstream had reported that very length and
  modification time.  A directory listing is one upstream gave.
\<close>

theorem concurrent_answers_recent:
  assumes "maps_ok ops V" "budgets_ok config" "witnessed up env seen"
    and "(gw_conc_step ops up ext gw env)\<^sup>*\<^sup>* (gw_init ops config w n) st"
    and "(q, st0, x) \<in> set (finished st)"
  shows "reply_since up seen config (gw_mapper gw) q st0 x (shared st)"
  using gw_server.conc_run_inv [OF assms(4) conc_ok_new [OF assms(1-3)]] assms(5)
  by (auto simp: gw_server.conc_inv_def)

text \<open>
  Claim C16: the caches stay bounded under concurrency.  In every state that requests running at the same
  time can reach, each of the four caches has at most its configured number of entries, and the
  listings cached together have at most the configured number of files and directories.
\<close>

theorem concurrent_caches_bounded:
  assumes "maps_ok ops V" "budgets_ok config" "witnessed up env seen"
    and "(gw_conc_step ops up ext gw env)\<^sup>*\<^sup>* (gw_init ops config w n) st"
  shows "let cs = gs_caches (shared st) in
    ttl_len (metadata_ops ops) (metadata cs) \<le> capacity (metadata_capacity config) \<and>
    ttl_len (negative_ops ops) (negative cs) \<le> capacity (metadata_capacity config) \<and>
    ttl_len (blocks_ops ops) (blocks_cache cs) \<le> capacity (blocks_capacity config) \<and>
    ttl_len (dirs_ops ops) (dirs_cache cs) \<le> capacity (listing_capacity_entries config) \<and>
    unat (weight (dirs_cache cs)) \<le> unat (listing_capacity_entries config)"
proof -
  have "conc_ok ops up env seen V config (gw_mapper gw) (shared st)"
    using gw_server.conc_run_inv [OF assms(4) conc_ok_new [OF assms(1-3)]] by (simp add: gw_server.conc_inv_def)
  from conc_okD(2-5) [OF this, THEN cache_holds_bound] show ?thesis by (simp add: Let_def)
qed

section \<open>Instances\<close>

text \<open>A cluster that remembers its answers, and small caches.\<close>

definition memo_up :: "(unit, (nat \<times> call \<times> unit answer) list \<times> nat) upstream" where
  "memo_up =
     \<lparr>get_file_info = (\<lambda>(h, t) p. (hist_answer p, ((Suc t, AskInfo p, Info (hist_answer p)) # h, Suc t))),
      list_status = (\<lambda>(h, t) d r. (test_ns d, ((Suc t, AskList d, Listed (test_ns d)) # h, Suc t))),
      read_file = (\<lambda>(h, t) p. (Inr (), ((Suc t, AskOpen p, Opened (Inr ())) # h, Suc t))), file_length = (\<lambda>r. 7),
      read_range_stream = (\<lambda>w r a n. [Inr ''content'']), clock = snd, wall_nanos = snd\<rparr>"

definition memo_ops ::
  "(unit, nat \<times> (string \<times> file_meta entry) list, nat \<times> (string \<times> unit entry) list,
    nat \<times> (string \<times> unit cached_reader entry) list, nat \<times> (string \<times> dir_listing entry) list) cache_ops" where
  "memo_ops = test_ops"

definition memo_seen :: "(nat \<times> call \<times> unit answer) list \<times> nat \<Rightarrow> unit answers" where
  "memo_seen w = {x \<in> set (fst w). fst x \<le> snd w}"

definition memo_env :: "(nat \<times> call \<times> unit answer) list \<times> nat \<Rightarrow> (nat \<times> call \<times> unit answer) list \<times> nat \<Rightarrow> bool" where
  "memo_env w w' \<longleftrightarrow> fst w' = fst w \<and> snd w \<le> snd w'"

lemma memo_witnessed: "witnessed memo_up memo_env memo_seen"
proof -
  have "case ask_upstream memo_up c w of (a, w') \<Rightarrow>
      later memo_up memo_seen w w' \<and> (clock memo_up w', c, a) \<in> memo_seen w'" for c w
    by (cases c; cases w) (auto simp: memo_up_def memo_seen_def later_def ask_upstream.simps)
  then show ?thesis by (auto simp: witnessed_def memo_up_def memo_seen_def memo_env_def later_def)
qed

definition small_config :: cache_config where
  "small_config = cache_config_default\<lparr>enabled := True, metadata_ttl_ms := 1, blocks_ttl_ms := 1, listing_ttl_ms := 1,
     negative_ttl_ms := 1, metadata_capacity := 2, blocks_capacity := 2, listing_capacity_entries := 4, listing_max_dir_entries := 4\<rparr>"

definition list_views where
  "list_views = \<lparr>view_metadata = (list_lru_valid, fst, snd), view_negative = (list_lru_valid, fst, snd),
     view_blocks = (list_lru_valid, fst, snd), view_dirs = (list_lru_valid, fst, snd)\<rparr>"

lemma list_maps_ok: "maps_ok memo_ops list_views"
  by (simp add: maps_ok_def list_views_def memo_ops_def test_ops_def list_ttl.ttl_lru_axioms)

lemma small_budgets: "budgets_ok small_config"
  by (simp add: budgets_ok_def small_config_def)

text \<open>Two requests for one object, whose lookups overlap.\<close>

definition demo_run where
  "demo_run = fold (conc_act (gw_ask memo_up) (gw_start memo_ops memo_up test_externs (gateway_new data_config)))
     [Arrive (HeadCall test_head_input), Arrive (HeadCall test_head_input), Resume 1, Resume 0]
     (gw_init memo_ops small_config ([], 0) 0)"

lemma empty_get: "ttl_get list_lru now (ttl_new list_lru n t w) k = (None, ttl_new list_lru n t w)"
  by (simp add: ttl_get_def ttl_new_def list_lru_def is_enabled_def promote_def)

lemma head_suspends:
  assumes "in_bucket input = bucket (gw_mapper gw)" "key_to_hdfs_path (gw_mapper gw) (in_key input) = Some p"
    and "\<And>now. ttl_get (metadata_ops ops) now (metadata (gs_caches st)) p = (None, metadata (gs_caches st))"
    and "\<And>now. ttl_get (negative_ops ops) now (negative (gs_caches st)) p = (None, negative (gs_caches st))"
  shows "\<exists>k. gw_start ops up ext gw (HeadCall input) st = (Await (AskInfo p) k, st\<lparr>gs_seq := gs_seq st + 1\<rparr>) \<and>
    (\<forall>a s. \<exists>r s'. k a s = (Done (HeadReply r), s'))"
  using assms
  by (auto simp: async_then_def head_object_async_def request_log_new_split file_meta_async_def file_meta_answer_def Let_def
      split: answer.split sum.split)

lemma demo_finished:
  "\<exists>r r' s s'. finished demo_run = [(HeadCall test_head_input, s, HeadReply r), (HeadCall test_head_input, s', HeadReply r')]"
proof -
  let ?gw = "gateway_new data_config" and ?H = "HeadCall test_head_input"
  let ?s = "\<lparr>gs_caches = caches_new memo_ops small_config, gs_world = ([], 0), gs_seq = 0\<rparr>"
  have b: "in_bucket test_head_input = bucket (gw_mapper ?gw)"
    by (simp add: test_head_input_def gateway_new_def)
  have p: "key_to_hdfs_path (gw_mapper ?gw) (in_key test_head_input) = Some ''/data/b.txt''" by code_simp
  have e: "ttl_get (metadata_ops memo_ops) now (metadata (caches_new memo_ops small_config)) q =
      (None, metadata (caches_new memo_ops small_config))"
    "ttl_get (negative_ops memo_ops) now (negative (caches_new memo_ops small_config)) q =
      (None, negative (caches_new memo_ops small_config))" for now q
    by (simp_all add: memo_ops_def test_ops_def caches_new_def empty_get)
  obtain k where k: "gw_start memo_ops memo_up test_externs ?gw ?H ?s = (Await (AskInfo ''/data/b.txt'') k, ?s\<lparr>gs_seq := 1\<rparr>)"
    "\<And>a s. \<exists>r s'. k a s = (Done (HeadReply r), s')"
    using head_suspends [OF b p, of memo_ops ?s memo_up test_externs] e by auto
  obtain k' where k': "gw_start memo_ops memo_up test_externs ?gw ?H (?s\<lparr>gs_seq := 1\<rparr>) =
      (Await (AskInfo ''/data/b.txt'') k', ?s\<lparr>gs_seq := 2\<rparr>)"
    "\<And>a s. \<exists>r s'. k' a s = (Done (HeadReply r), s')"
    using head_suspends [OF b p, of memo_ops "?s\<lparr>gs_seq := 1\<rparr>" memo_up test_externs] e by auto
  obtain a w where a: "gw_ask memo_up (AskInfo ''/data/b.txt'') (?s\<lparr>gs_seq := 2\<rparr>) = (a, w)" by fastforce
  from k'(2) obtain r s1 where r: "k' a w = (Done (HeadReply r), s1)" by blast
  obtain a' w' where a': "gw_ask memo_up (AskInfo ''/data/b.txt'') s1 = (a', w')" by fastforce
  from k(2) obtain r' s2 where r': "k a' w' = (Done (HeadReply r'), s2)" by blast
  show ?thesis using k(1) k'(1) a r a' r' by (simp add: demo_run_def conc_new_def park_def del: gw_start.simps)
qed

theorem concurrent_answers_recent_witness:
  "\<exists>st r st0. (gw_conc_step memo_ops memo_up test_externs (gateway_new data_config) memo_env)\<^sup>*\<^sup>*
       (gw_init memo_ops small_config ([], 0) 0) st \<and> length (finished st) = 2 \<and>
     (HeadCall test_head_input, st0, HeadReply r) \<in> set (finished st) \<and>
     head_since memo_up (memo_seen (gs_world (shared st))) small_config (path_mapper_new data_config) (gs_world st0) test_head_input r"
proof -
  have run: "(gw_conc_step memo_ops memo_up test_externs (gateway_new data_config) memo_env)\<^sup>*\<^sup>*
       (gw_init memo_ops small_config ([], 0) 0) demo_run"
    unfolding demo_run_def by (rule conc_schedule)
  obtain r r' s s' where f: "finished demo_run = [(HeadCall test_head_input, s, HeadReply r), (HeadCall test_head_input, s', HeadReply r')]"
    using demo_finished by blast
  then have "(HeadCall test_head_input, s, HeadReply r) \<in> set (finished demo_run)" by (metis list.set_intros(1))
  from concurrent_answers_recent [OF list_maps_ok small_budgets memo_witnessed run this] run f this show ?thesis
    by (intro exI [of _ demo_run] exI [of _ r] exI [of _ s]) (simp add: gateway_new_def)
qed

theorem concurrent_caches_bounded_witness:
  "\<exists>st. (gw_conc_step memo_ops memo_up test_externs (gateway_new data_config) memo_env)\<^sup>*\<^sup>*
       (gw_init memo_ops small_config ([], 0) 0) st \<and> length (finished st) = 2 \<and>
     ttl_len (metadata_ops memo_ops) (metadata (gs_caches (shared st))) \<le> 2"
proof -
  have run: "(gw_conc_step memo_ops memo_up test_externs (gateway_new data_config) memo_env)\<^sup>*\<^sup>*
       (gw_init memo_ops small_config ([], 0) 0) demo_run"
    unfolding demo_run_def by (rule conc_schedule)
  have "length (finished demo_run) = 2" using demo_finished by (metis length_Cons list.size(3) numeral_2_eq_2)
  moreover have "capacity (metadata_capacity small_config) = 2" by (simp add: capacity_def small_config_def)
  ultimately show ?thesis
    using concurrent_caches_bounded [OF list_maps_ok small_budgets memo_witnessed run] run
    by (intro exI [of _ demo_run]) (simp add: Let_def)
qed

end
