(* ===== verification/Listing_Concurrent.thy ===== *)
theory Listing_Concurrent
  imports Gateway_Concurrent
begin

text \<open>
  Listings while other requests run.  On a namespace that does not change, no request disturbs the
  directory cache in a way a listing could notice: a page is exact whatever happens between and
  during the calls of its lister.
\<close>

section \<open>Requests keep the directory cache right\<close>

text \<open>The world stays calm whatever upstream is asked and whatever happens outside.\<close>

definition calm_world :: "('r, 'w) upstream \<Rightarrow> ('w \<Rightarrow> 'w \<Rightarrow> bool) \<Rightarrow> ('w \<Rightarrow> bool) \<Rightarrow> bool" where
  "calm_world up env calm \<longleftrightarrow>
     (\<forall>c w. calm w \<longrightarrow> calm (snd (ask_upstream up c w))) \<and> (\<forall>w w'. calm w \<longrightarrow> env w w' \<longrightarrow> calm w')"

definition steady ::
  "('r, 'lm, 'ln, 'lb, 'ld) cache_ops \<Rightarrow> ('r, 'w) upstream \<Rightarrow> path_mapper \<Rightarrow> ('w \<Rightarrow> 'w \<Rightarrow> bool) \<Rightarrow> ('w \<Rightarrow> bool)
     \<Rightarrow> (string \<Rightarrow> hdfs_error + file_status list) \<Rightarrow> ('ld, dir_listing) view \<Rightarrow> ('w, 'lm, 'ln, 'lb, 'ld) gw_state \<Rightarrow> bool" where
  "steady ops up m env calm ns view st \<longleftrightarrow>
     calm_world up env calm \<and> lister_inv ops up m calm ns (fst view) (fst (snd view)) (snd (snd view)) st"

lemma steady_other:
  assumes "steady ops up m env calm ns view st" "calm (gs_world st')" "dirs_cache (gs_caches st') = dirs_cache (gs_caches st)"
  shows "steady ops up m env calm ns view st'"
  using assms by (simp add: steady_def lister_inv_def)

lemma steady_calm: "steady ops up m env calm ns view st \<Longrightarrow> calm (gs_world st)"
  by (simp add: steady_def lister_inv_def)

lemma steady_ask:
  assumes "steady ops up m env calm ns view st" "gw_ask up c st = (a, st')"
  shows "steady ops up m env calm ns view st'"
proof (rule steady_other [OF assms(1)])
  show "calm (gs_world st')" using assms steady_calm [OF assms(1)]
    by (auto simp: gw_ask_def steady_def calm_world_def split: prod.splits) (metis snd_conv)
  show "dirs_cache (gs_caches st') = dirs_cache (gs_caches st)"
    using assms(2) by (auto simp: gw_ask_def split: prod.splits)
qed

interpretation steady_tasks: async_contract "gw_ask up" "steady ops up m env calm ns view" "\<lambda>_ _. True"
  for ops :: "('r, 'lm, 'ln, 'lb, 'ld) cache_ops" and up :: "('r, 'w) upstream" and m env calm ns view
  by unfold_locales (auto dest: steady_ask)

abbreviation steady_safe where
  "steady_safe ops up m env calm ns view \<equiv> safe_async (gw_ask up) (steady ops up m env calm ns view) (\<lambda>_ _. True)"

lemma steady_step:
  assumes "steady ops up m env calm ns view (snd (f st))" "\<And>x. fst (f st) = Done x \<Longrightarrow> Q x (snd (f st))"
    and "\<And>c k a s s1. fst (f st) = Await c k \<Longrightarrow> steady ops up m env calm ns view s \<Longrightarrow> gw_ask up c s = (a, s1) \<Longrightarrow>
      steady ops up m env calm ns view s1 \<Longrightarrow> steady_safe ops up m env calm ns view Q (k a) s1"
  shows "steady_safe ops up m env calm ns view Q f st"
proof -
  obtain t st1 where f: "f st = (t, st1)" by fastforce
  show ?thesis
  proof (cases t)
    case (Done x)
    with f assms(1,2) show ?thesis by (simp add: safe_async_def)
  next
    case (Await c k)
    have "steady_safe ops up m env calm ns view Q (k a) s1"
      if "steady ops up m env calm ns view s" "gw_ask up c s = (a, s1)" for a s s1
      using Await f that steady_ask [OF that] by (intro assms(3)) auto
    with Await f assms(1) show ?thesis by (auto simp: safe_async_def safe_Await)
  qed
qed

lemma file_meta_steady:
  assumes "steady ops up m env calm ns view st"
  shows "steady_safe ops up m env calm ns view (\<lambda>_ _. True) (file_meta_async ops up ext gw log p) st"
proof -
  have answer: "steady_safe ops up m env calm ns view (\<lambda>_ _. True) (file_meta_answer ops up ext gw log p a) s"
    if "steady ops up m env calm ns view s" for a s
    using that steady_calm [OF that]
    by (auto simp: safe_async_def file_meta_answer_def Let_def intro: steady_other [OF that] split: answer.split sum.split)
  have "steady ops up m env calm ns view (snd (file_meta_async ops up ext gw log p st))"
    using steady_calm [OF assms]
    by (auto simp: file_meta_async_def Let_def intro: steady_other [OF assms] split: prod.split option.split)
  then show ?thesis
  proof (rule steady_step)
    fix c k a s s1
    assume "fst (file_meta_async ops up ext gw log p st) = Await c k" "steady ops up m env calm ns view s1"
    then show "steady_safe ops up m env calm ns view (\<lambda>_ _. True) (k a) s1"
      using answer by (auto simp: file_meta_async_def Let_def split: prod.splits option.splits if_splits)
  qed simp
qed

lemma open_reader_steady:
  assumes "steady ops up m env calm ns view st"
  shows "steady_safe ops up m env calm ns view (\<lambda>_ _. True) (open_reader_async ops up ext gw log p meta) st"
proof -
  have answer: "steady_safe ops up m env calm ns view (\<lambda>_ _. True) (open_reader_answer ops up ext gw log p meta a) s"
    if "steady ops up m env calm ns view s" for a s
    using that steady_calm [OF that]
    by (auto simp: safe_async_def open_reader_answer_def Let_def intro: steady_other [OF that] split: answer.split sum.split)
  have "steady ops up m env calm ns view (snd (open_reader_async ops up ext gw log p meta st))"
    using steady_calm [OF assms]
    by (auto simp: open_reader_async_def Let_def intro: steady_other [OF assms] split: prod.split option.split)
  then show ?thesis
  proof (rule steady_step)
    fix c k a s s1
    assume "fst (open_reader_async ops up ext gw log p meta st) = Await c k" "steady ops up m env calm ns view s1"
    then show "steady_safe ops up m env calm ns view (\<lambda>_ _. True) (k a) s1"
      using answer by (auto simp: open_reader_async_def Let_def split: prod.splits option.splits if_splits)
  qed simp
qed

lemma steady_lru:
  assumes "steady ops up m env calm ns view st"
  shows "ttl_lru (dirs_ops ops) (fst view) (fst (snd view)) (snd (snd view))" "static_upstream up calm ns"
    and "ttl_store.sound (live (snd (snd view))) (cache_inv (fst view) (snd (snd view))) (\<lambda>t d l. ns_answer m ns d = Inr l)
       (dirs_cache (gs_caches st))"
  using assms by (simp_all add: steady_def lister_inv_def)

lemma steady_dirs:
  assumes "steady ops up m env calm ns view st"
    and "ttl_store.sound (live (snd (snd view))) (cache_inv (fst view) (snd (snd view))) (\<lambda>t d l. ns_answer m ns d = Inr l) dc"
  shows "steady ops up m env calm ns view (st\<lparr>gs_caches := (gs_caches st)\<lparr>dirs_cache := dc\<rparr>\<rparr>)"
  using assms by (simp add: steady_def lister_inv_def)

lemma list_dir_steady:
  assumes "steady ops up m env calm ns view st"
  shows "steady_safe ops up m env calm ns view (\<lambda>r s. r = ns_answer m ns d) (list_dir_async ops up m d) st"
proof -
  note store = ttl_lru.is_store [OF steady_lru(1) [OF assms]]
  obtain hit dc where get: "ttl_get (dirs_ops ops) (clock up (gs_world st)) (dirs_cache (gs_caches st)) d = (hit, dc)"
    by fastforce
  have st1: "steady ops up m env calm ns view (st\<lparr>gs_caches := (gs_caches st)\<lparr>dirs_cache := dc\<rparr>\<rparr>)"
    using ttl_store.sound_get [OF store steady_lru(3) [OF assms], of "clock up (gs_world st)" d] get
    by (intro steady_dirs [OF assms]) simp
  have answer: "steady_safe ops up m env calm ns view (\<lambda>r s. r = ns_answer m ns d) (list_dir_answer ops up m d (Listed (ns d))) s"
    if s: "steady ops up m env calm ns view s" for s
  proof -
    have "steady ops up m env calm ns view (s\<lparr>gs_caches := (gs_caches s)\<lparr>dirs_cache :=
        ttl_insert (dirs_ops ops) now (dirs_cache (gs_caches s)) d (listing_from_statuses sts m) w\<rparr>\<rparr>)"
      if "ns d = Inr sts" for sts now w
      by (intro steady_dirs [OF s] ttl_store.sound_ins [OF store steady_lru(3) [OF s]]) (simp add: ns_answer_def that)
    with s show ?thesis
      by (auto simp: safe_async_def list_dir_answer_def ns_answer_def Let_def split: sum.split)
  qed
  show ?thesis
  proof (rule steady_step)
    show "steady ops up m env calm ns view (snd (list_dir_async ops up m d st))"
      using st1 get by (simp add: list_dir_async_def Let_def split: option.split)
    show "x = ns_answer m ns d" if "fst (list_dir_async ops up m d st) = Done x" for x
      using that get ttl_store.sound_get_result [OF store steady_lru(3) [OF assms], of "clock up (gs_world st)" d]
      by (auto simp: list_dir_async_def Let_def split: option.splits)
    fix c k a s s1
    assume k: "fst (list_dir_async ops up m d st) = Await c k" "steady ops up m env calm ns view s"
      "gw_ask up c s = (a, s1)" "steady ops up m env calm ns view s1"
    then have "c = AskList d" "k = list_dir_answer ops up m d"
      using get by (auto simp: list_dir_async_def Let_def split: option.splits)
    moreover from this k(2,3) steady_calm [OF k(2)] have "a = Listed (ns d)"
      using steady_lru(2) [OF k(2)] by (auto simp: gw_ask_def static_upstream_def ask_upstream.simps map_prod_def split: prod.splits) (metis fst_conv)
    ultimately show "steady_safe ops up m env calm ns view (\<lambda>r s. r = ns_answer m ns d) (k a) s1"
      using answer [OF k(4)] by simp
  qed
qed

lemma steady_seq: "steady ops up m env calm ns view (st\<lparr>gs_seq := n\<rparr>) = steady ops up m env calm ns view st"
  by (simp add: steady_def lister_inv_def)

lemma steady_done:
  "steady ops up m env calm ns view (snd (f st)) \<Longrightarrow> (\<exists>x. fst (f st) = Done x) \<Longrightarrow>
   steady_safe ops up m env calm ns view (\<lambda>_ _. True) f st"
  by (rule steady_step) auto

lemma head_object_steady:
  assumes "steady ops up m env calm ns view st"
  shows "steady_safe ops up m env calm ns view (\<lambda>_ _. True) (head_object_async ops up ext gw input) st"
proof (cases "in_bucket input = bucket (gw_mapper gw) \<and> key_to_hdfs_path (gw_mapper gw) (in_key input) \<noteq> None")
  case False
  with assms show ?thesis by (intro steady_done) (auto simp: head_object_async_def request_log_new_split steady_seq)
next
  case True
  then obtain p where p: "key_to_hdfs_path (gw_mapper gw) (in_key input) = Some p" by auto
  let ?log = "object_log up ''HeadObject'' p st"
  show ?thesis
  proof (rule steady_tasks.safe_async_at [OF steady_tasks.safe_async_then [OF file_meta_steady]])
    show "head_object_async ops up ext gw input st = async_then (file_meta_async ops up ext gw ?log p)
        (\<lambda>r. ret (case r of Inl e \<Rightarrow> Inl e | Inr status \<Rightarrow> head_reply ext ?log input p status)) (st\<lparr>gs_seq := gs_seq st + 1\<rparr>)"
      using True p by (simp add: head_object_async_def request_log_new_split Let_def)
  qed (use assms in \<open>auto simp: steady_seq intro: steady_done\<close>)
qed

lemma get_object_resume_steady:
  assumes "steady ops up m env calm ns view st"
  shows "steady_safe ops up m env calm ns view (\<lambda>_ _. True) (get_object_resume ops up ext gw input log p r) st"
proof -
  have forget: "steady ops up m env calm ns view (forget_object ops p s)" if "steady ops up m env calm ns view s" for s
    using steady_calm [OF that] by (auto intro: steady_other [OF that] simp: forget_object_def)
  show ?thesis
  proof (cases "\<exists>status window. r = Inr status \<and> get_plan ext log input p status = Inr window")
    case False
    with assms show ?thesis by (auto simp: get_object_resume_def safe_async_def split: sum.splits)
  next
    case True
    then obtain status a b len cr where r: "r = Inr status" and plan: "get_plan ext log input p status = Inr (a, b, len, cr)"
      by auto
    show ?thesis unfolding get_object_resume_def r plan sum.case prod.case
      by (rule steady_tasks.safe_async_then [OF open_reader_steady [OF assms]])
         (auto simp: safe_async_def intro: forget split: sum.split)
  qed
qed

lemma get_object_steady:
  assumes "steady ops up m env calm ns view st"
  shows "steady_safe ops up m env calm ns view (\<lambda>_ _. True) (get_object_async ops up ext gw input) st"
proof (cases "in_bucket input = bucket (gw_mapper gw) \<and> key_to_hdfs_path (gw_mapper gw) (in_key input) \<noteq> None")
  case False
  with assms show ?thesis by (intro steady_done) (auto simp: get_object_async_def request_log_new_split steady_seq)
next
  case True
  then obtain p where p: "key_to_hdfs_path (gw_mapper gw) (in_key input) = Some p" by auto
  let ?log = "object_log up ''GetObject'' p st"
  show ?thesis
  proof (rule steady_tasks.safe_async_at [OF steady_tasks.safe_async_then [OF file_meta_steady]])
    show "get_object_async ops up ext gw input st = async_then (file_meta_async ops up ext gw ?log p)
        (get_object_resume ops up ext gw input ?log p) (st\<lparr>gs_seq := gs_seq st + 1\<rparr>)"
      using True p by (simp add: get_object_async_def request_log_new_split Let_def)
  qed (use assms in \<open>auto simp: steady_seq intro: get_object_resume_steady\<close>)
qed

lemma gw_start_steady:
  assumes "steady ops up (gw_mapper gw) env calm ns view st"
  shows "steady_safe ops up (gw_mapper gw) env calm ns view (\<lambda>_ _. True) (gw_start ops up ext gw q) st"
  by (cases q) (auto intro!: steady_tasks.safe_async_then [OF head_object_steady [OF assms]]
      steady_tasks.safe_async_then [OF get_object_steady [OF assms]] steady_tasks.safe_async_then [OF list_dir_steady [OF assms]]
      intro: steady_done)

lemma gw_event_steady:
  assumes "gw_event ops env st st'" "steady ops up m env calm ns view st"
  shows "steady ops up m env calm ns view st'"
  using assms
proof (induction rule: gw_event.induct)
  case (outside st w)
  then have "calm w" using steady_calm [OF outside(2)] by (auto simp: steady_def calm_world_def)
  with outside show ?case by (auto intro: steady_other)
next
  case (body_failed st p)
  with steady_calm [OF this] show ?case by (auto intro: steady_other [OF body_failed] simp: forget_object_def)
qed (simp add: steady_seq)

interpretation steady_server: async_server "gw_ask up" "steady ops up (gw_mapper gw) env calm ns view" "\<lambda>_ _. True"
  "gw_start ops up ext gw" "gw_event ops env" "\<lambda>_ _ _ _. True"
  for ops :: "('r, 'lm, 'ln, 'lb, 'ld) cache_ops" and up :: "('r, 'w) upstream" and env calm ns view gw ext
  by unfold_locales (auto intro: gw_start_steady gw_event_steady)

section \<open>A lister among other requests\<close>

text \<open>
  The lister of a listing, with other requests in flight: the schedule \<open>f\<close> says what they do before
  each of its cache lookups and before each answer of upstream.
\<close>

type_synonym ('r, 'w, 'lm, 'ln, 'lb, 'ld) gw_conc =
  "(conc_request, call, 'r answer, ('w, 'lm, 'ln, 'lb, 'ld) gw_state, reply) conc"

definition list_dir_among ::
  "('r, 'lm, 'ln, 'lb, 'ld) cache_ops \<Rightarrow> ('r, 'w) upstream \<Rightarrow> path_mapper
     \<Rightarrow> (nat \<Rightarrow> ('r, 'w, 'lm, 'ln, 'lb, 'ld) gw_conc \<Rightarrow> ('r, 'w, 'lm, 'ln, 'lb, 'ld) gw_conc)
     \<Rightarrow> (('r, 'w, 'lm, 'ln, 'lb, 'ld) gw_conc \<times> nat) lister" where
  "list_dir_among ops up m f stn d =
     (case stn of (st, n) \<Rightarrow> async_among (gw_ask up) f (list_dir_async ops up m d) st n)"

definition among_inv ::
  "('r, 'lm, 'ln, 'lb, 'ld) cache_ops \<Rightarrow> ('r, 'w) upstream \<Rightarrow> externs \<Rightarrow> gateway \<Rightarrow> ('w \<Rightarrow> 'w \<Rightarrow> bool) \<Rightarrow> ('w \<Rightarrow> bool)
     \<Rightarrow> (string \<Rightarrow> hdfs_error + file_status list) \<Rightarrow> ('ld, dir_listing) view
     \<Rightarrow> (nat \<Rightarrow> ('r, 'w, 'lm, 'ln, 'lb, 'ld) gw_conc \<Rightarrow> ('r, 'w, 'lm, 'ln, 'lb, 'ld) gw_conc)
     \<Rightarrow> ('r, 'w, 'lm, 'ln, 'lb, 'ld) gw_conc \<times> nat \<Rightarrow> bool" where
  "among_inv ops up ext gw env calm ns view f stn \<longleftrightarrow>
     (\<forall>n st. (gw_conc_step ops up ext gw env)\<^sup>*\<^sup>* st (f n st)) \<and>
     (\<exists>s. async_server.conc_inv (gw_ask up) (steady ops up (gw_mapper gw) env calm ns view) (\<lambda>_ _. True) (\<lambda>_ _ _ _. True) s (fst stn))"

lemma list_dir_among_answer:
  assumes "among_inv ops up ext gw env calm ns view f stn"
  shows "fst (list_dir_among ops up (gw_mapper gw) f stn d) = ns_answer (gw_mapper gw) ns d \<and>
    among_inv ops up ext gw env calm ns view f (snd (list_dir_among ops up (gw_mapper gw) f stn d))"
proof -
  obtain st n where stn: "stn = (st, n)" by (cases stn)
  from assms obtain s where
    st: "async_server.conc_inv (gw_ask up) (steady ops up (gw_mapper gw) env calm ns view) (\<lambda>_ _. True) (\<lambda>_ _ _ _. True) s st"
    and f: "\<And>n st. (gw_conc_step ops up ext gw env)\<^sup>*\<^sup>* st (f n st)"
    unfolding among_inv_def stn fst_conv by blast
  have "case async_among (gw_ask up) f (list_dir_async ops up (gw_mapper gw) d) st n of (y, st1, n1) \<Rightarrow> y = ns_answer (gw_mapper gw) ns d \<and>
      async_server.conc_inv (gw_ask up) (steady ops up (gw_mapper gw) env calm ns view) (\<lambda>_ _. True) (\<lambda>_ _ _ _. True) s st1"
    by (rule steady_server.async_among_safe [OF list_dir_steady st f])
  with f show ?thesis
    unfolding among_inv_def stn list_dir_among_def
    by (auto split: prod.splits)
qed

interpretation listing_among: stable_lister "list_dir_among ops up (gw_mapper gw) f"
  "among_inv ops up ext gw env calm ns view f" "ns_answer (gw_mapper gw) ns"
  for ops :: "('r, 'lm, 'ln, 'lb, 'ld) cache_ops" and up :: "('r, 'w) upstream" and f env calm ns view ext gw
  by unfold_locales (simp_all add: list_dir_among_answer)

lemma among_inv_new:
  "steady ops up (gw_mapper gw) env calm ns view s \<Longrightarrow> \<forall>n st. (gw_conc_step ops up ext gw env)\<^sup>*\<^sup>* st (f n st) \<Longrightarrow>
   among_inv ops up ext gw env calm ns view f (conc_new s, n)"
  unfolding among_inv_def fst_conv by (blast intro: steady_server.conc_inv_new)

lemma among_inv_logged:
  assumes "among_inv ops up ext gw env calm ns view f (st, n)"
  shows "among_inv ops up ext gw env calm ns view f ((f n st)\<lparr>shared := (shared (f n st))\<lparr>gs_seq := k\<rparr>\<rparr>, n')"
proof -
  from assms obtain s where
    st: "async_server.conc_inv (gw_ask up) (steady ops up (gw_mapper gw) env calm ns view) (\<lambda>_ _. True) (\<lambda>_ _ _ _. True) s st"
    and f: "\<forall>n st. (gw_conc_step ops up ext gw env)\<^sup>*\<^sup>* st (f n st)"
    unfolding among_inv_def fst_conv by blast
  have i: "async_server.conc_inv (gw_ask up) (steady ops up (gw_mapper gw) env calm ns view) (\<lambda>_ _. True) (\<lambda>_ _ _ _. True) s (f n st)"
    by (rule steady_server.others_run(1) [OF f [rule_format] st])
  have "steady ops up (gw_mapper gw) env calm ns view ((shared (f n st))\<lparr>gs_seq := k\<rparr>)"
    using steady_server.conc_inv_ok [OF i] by (simp add: steady_seq)
  from steady_server.conc_inv_shared [OF i this TrueI] f show ?thesis
    unfolding among_inv_def fst_conv by blast
qed

text \<open>\<^verbatim>\<open>ListObjectsV2\<close> among other requests.\<close>

definition list_objects_among ::
  "('r, 'lm, 'ln, 'lb, 'ld) cache_ops \<Rightarrow> ('r, 'w) upstream \<Rightarrow> externs \<Rightarrow> gateway
     \<Rightarrow> (nat \<Rightarrow> ('r, 'w, 'lm, 'ln, 'lb, 'ld) gw_conc \<Rightarrow> ('r, 'w, 'lm, 'ln, 'lb, 'ld) gw_conc) \<Rightarrow> list_input
     \<Rightarrow> ('r, 'w, 'lm, 'ln, 'lb, 'ld) gw_conc \<times> nat
     \<Rightarrow> ((s3_error + list_output s3_response) \<times> ('r, 'w, 'lm, 'ln, 'lb, 'ld) gw_conc \<times> nat) option" where
  "list_objects_among ops up ext gw f input stn =
     (case stn of (st, n) \<Rightarrow>
      let st1 = f n st in
      case request_log_new up ''ListObjectsV2'' (shared st1) of (log, s) \<Rightarrow>
      list_resume (list_dir_among ops up (gw_mapper gw) f) ext gw input log (st1\<lparr>shared := s\<rparr>, Suc n))"

lemma listings_wf: "wf_mapper m \<Longrightarrow> (t, d, l) \<in> listings m H \<Longrightarrow> wf_listing m l"
  by (auto simp: listings_def wf_listing_statuses)

section \<open>Properties\<close>

text \<open>
  Claim C17: a page of \<^verbatim>\<open>ListObjectsV2\<close> is exact while other requests run.  On a finite namespace that does
  not change, whatever other requests arrive, run on, finish or are dropped before the request and
  around every call of its lister, the request is answered with the page that the sorted listing of
  the namespace prescribes, the same as when it runs alone.
\<close>

theorem list_objects_v2_concurrent:
  assumes "calm_world up env calm"
    and "lister_inv ops up (path_mapper_new c) calm ns valid cap items st"
    and "tree_at (path_mapper_new c) (ns_answer (path_mapper_new c) ns) (dir_part (page_prefix input)) (Node fs ds)"
    and "wf_key k" "prefix (page_prefix input) k" "page_prefix input \<notin> {''.'', ''..''}"
    and "length (tree_files (Node fs ds)) \<le> usize_max"
    and "valid_list_input c input" "page_marker ext input = Some after"
    and "\<forall>n cs. (gw_conc_step ops up ext (gateway_new c) env)\<^sup>*\<^sup>* cs (f n cs)"
  shows "\<exists>resp stn'. list_objects_among ops up ext (gateway_new c) f input (conc_new st, 0) = Some (Inr resp, stn') \<and>
    resp_output resp = page_response ext c input
      (page_of (resume_at after (namespace_outputs (Node fs ds) (page_prefix input) (page_delimiter input)))
        (page_size input))"
proof -
  have gw: "gw_mapper (gateway_new c) = path_mapper_new c" by (simp add: gateway_new_def)
  let ?st = "f 0 (conc_new st)"
  obtain log where log: "request_log_new up ''ListObjectsV2'' (shared ?st) = (log, (shared ?st)\<lparr>gs_seq := gs_seq (shared ?st) + 1\<rparr>)"
    by (simp add: request_log_new_def new_request_id_def)
  have "steady ops up (path_mapper_new c) env calm ns (valid, cap, items) st"
    using assms(1,2) by (simp add: steady_def)
  from among_inv_logged [OF among_inv_new [OF this [folded gw] assms(10)]]
  have "among_inv ops up ext (gateway_new c) env calm ns (valid, cap, items) f
      (?st\<lparr>shared := (shared ?st)\<lparr>gs_seq := gs_seq (shared ?st) + 1\<rparr>\<rparr>, Suc 0)" .
  from listing_among.list_resume_window [OF this, unfolded gw, OF assms(3) list_start_matchable [OF assms(4-6)] assms(7-9)]
  show ?thesis unfolding list_objects_among_def prod.case Let_def log gw by blast
qed

text \<open>
  Claim C18: listings are well formed, whatever upstream answers.  In every state that requests running at the
  same time can reach, a listing that the directory cache would serve and a listing that a request
  was given have their files in the byte order of the keys, their directories in the byte order of the keys with a
  slash, and hold only keys that \<open>key_to_hdfs_path\<close> maps to their own path below the root; duplicates,
  foreign, relative and unnormalised paths that upstream might report included.
\<close>

theorem listings_well_formed:
  assumes "maps_ok ops V" "budgets_ok config" "witnessed up env seen" "gw_mapper gw = path_mapper_new c"
    and "(gw_conc_step ops up ext gw env)\<^sup>*\<^sup>* (gw_init ops config w n) st"
  shows "(case ttl_get (dirs_ops ops) now (dirs_cache (gs_caches (shared st))) d of
            (Some l, _) \<Rightarrow> wf_listing (gw_mapper gw) l | _ \<Rightarrow> True) \<and>
    ((q, st0, DirReply (Inr l)) \<in> set (finished st) \<longrightarrow> wf_listing (gw_mapper gw) l)"
proof
  have m: "wf_mapper (gw_mapper gw)" using assms(4) path_mapper_new_wf by simp
  note inv = gw_server.conc_run_inv [OF assms(5) conc_ok_new [OF assms(1-3)]]
  have "conc_ok ops up env seen V config (gw_mapper gw) (shared st)"
    using inv by (simp add: gw_server.conc_inv_def)
  then have "cache_holds (dirs_ops ops) (view_dirs V) (dirs_limits config) (listings (gw_mapper gw) (seen (gs_world (shared st))))
      (dirs_cache (gs_caches (shared st)))"
    by (simp add: conc_ok_def)
  from cache_holds_get(2) [OF this] listings_wf [OF m]
  show "case ttl_get (dirs_ops ops) now (dirs_cache (gs_caches (shared st))) d of
      (Some l, _) \<Rightarrow> wf_listing (gw_mapper gw) l | _ \<Rightarrow> True"
    by (fastforce split: prod.split option.split)
  show "(q, st0, DirReply (Inr l)) \<in> set (finished st) \<longrightarrow> wf_listing (gw_mapper gw) l"
  proof
    assume "(q, st0, DirReply (Inr l)) \<in> set (finished st)"
    then have "reply_since up seen config (gw_mapper gw) q st0 (DirReply (Inr l)) (shared st)"
      using inv by (auto simp: gw_server.conc_inv_def)
    then show "wf_listing (gw_mapper gw) l"
      using listings_wf [OF m] by (cases q) (auto simp: listing_since_def)
  qed
qed

section \<open>Instances\<close>

text \<open>Before each stretch of the listing another listing and a \<^verbatim>\<open>HeadObject\<close> arrive and one of those suspended runs on.\<close>

definition busy where
  "busy n = fold (conc_act (gw_ask test_up) (gw_start test_ops test_up test_externs (gateway_new data_config)))
     [Arrive (ListDirCall ''/data/b''), Arrive (HeadCall test_head_input), Resume n]"

theorem list_objects_v2_concurrent_witness:
  "\<exists>resp stn'. list_objects_among test_ops test_up test_externs (gateway_new data_config) busy test_list_input (conc_new test_state, 0) =
      Some (Inr resp, stn') \<and>
    lo_contents (resp_output resp) = Some [object_of_entry (test_entry_of ''b.txt'')] \<and>
    lo_is_truncated (resp_output resp) \<and> lo_next_continuation_token (resp_output resp) = Some ''txt.b''"
proof -
  let ?pg = "page_of [Content (test_entry_of ''b.txt''), Prefix ''b/'', Prefix ''x/''] 1"
  have calm: "calm_world test_up (=) (\<lambda>w. True)" by (simp add: calm_world_def)
  have busy: "\<forall>n cs. (gw_conc_step test_ops test_up test_externs (gateway_new data_config) (=))\<^sup>*\<^sup>* cs (busy n cs)"
    unfolding busy_def by (intro allI conc_schedule)
  from list_objects_v2_concurrent [OF calm test_lister_inv test_tree_at [unfolded test_tree_def] test_prefix
      test_tree_small [unfolded test_tree_def] test_request(1,2) busy, folded test_tree_def,
      unfolded test_outputs test_request(3)]
  obtain resp stn' where
    "list_objects_among test_ops test_up test_externs (gateway_new data_config) busy test_list_input (conc_new test_state, 0) =
      Some (Inr resp, stn')" "resp_output resp = page_response test_externs data_config test_list_input ?pg" by blast
  with test_page show ?thesis by metis
qed

text \<open>A listing of \<open>/data\<close> that waits for the cluster and gets its answer.\<close>

definition list_run where
  "list_run = fold (conc_act (gw_ask memo_up) (gw_start memo_ops memo_up test_externs (gateway_new data_config)))
     [Arrive (ListDirCall ''/data''), Resume 0] (gw_init memo_ops small_config ([], 0) 0)"

lemma list_run_finished:
  "\<exists>s. finished list_run = [(ListDirCall ''/data'', s, DirReply (Inr (listing_from_statuses
     [test_status ''/data/b'' True, test_status ''/data/b.txt'' False, test_status ''/data/x'' True] (path_mapper_new data_config))))]"
proof -
  have e: "ttl_get (dirs_ops memo_ops) now (dirs_cache (caches_new memo_ops small_config)) q =
      (None, dirs_cache (caches_new memo_ops small_config))" for now q
    by (simp add: memo_ops_def test_ops_def caches_new_def empty_get)
  show ?thesis
    by (simp add: list_run_def conc_new_def park_def async_then_def list_dir_async_def list_dir_answer_def e Let_def
        gw_ask_def ask_upstream.simps memo_up_def test_ns_def gateway_new_def)
qed

theorem listings_well_formed_witness:
  "\<exists>st st0 l. (gw_conc_step memo_ops memo_up test_externs (gateway_new data_config) memo_env)\<^sup>*\<^sup>*
       (gw_init memo_ops small_config ([], 0) 0) st \<and>
     (ListDirCall ''/data'', st0, DirReply (Inr l)) \<in> set (finished st) \<and> wf_listing (path_mapper_new data_config) l"
proof -
  have run: "(gw_conc_step memo_ops memo_up test_externs (gateway_new data_config) memo_env)\<^sup>*\<^sup>*
       (gw_init memo_ops small_config ([], 0) 0) list_run"
    unfolding list_run_def by (rule conc_schedule)
  have gw: "gw_mapper (gateway_new data_config) = path_mapper_new data_config" by (simp add: gateway_new_def)
  obtain s l where "(ListDirCall ''/data'', s, DirReply (Inr l)) \<in> set (finished list_run)"
    using list_run_finished by (metis list.set_intros(1))
  with listings_well_formed [OF list_maps_ok small_budgets memo_witnessed gw run] run show ?thesis
    unfolding gw by blast
qed

end
