(* ===== verification/Backpressure.thy ===== *)
theory Backpressure
  imports Hdfs_Errors
begin

text \<open>
  \<^verbatim>\<open>src/s3/backpressure.rs\<close>: the cap on requests in flight.

  The semaphore is \<^verbatim>\<open>tokio\<close>'s, the parameter \<open>ops\<close> with the contract \<open>counting_semaphore\<close>; the wrapped
  service and the response body it produces are \<^verbatim>\<open>s3s\<close>'s: a body is a value of type \<open>'b\<close> that
  \<open>poll\<close> advances.  The service handles many requests at once, so it is a step relation on
  the semaphore and the requests in flight, each in its own phase.
\<close>

section \<open>The semaphore\<close>

record 's sem_ops =
  sem_new :: "usize \<Rightarrow> 's"
  try_acquire :: "'s \<Rightarrow> 's option"
  sem_release :: "'s \<Rightarrow> 's"

section \<open>The body that holds a permit\<close>

text \<open>A frame, an error, the end of the stream, or nothing yet.\<close>

datatype 'f poll = Pending | Ready "'f option"

record 'b permit_body =
  pb_inner :: 'b
  pb_permit :: bool

definition permit_body_new :: "'b \<Rightarrow> 'b permit_body" where
  "permit_body_new inner = \<lparr>pb_inner = inner, pb_permit = True\<rparr>"

definition release :: "'s sem_ops \<Rightarrow> 's \<Rightarrow> 'b permit_body \<Rightarrow> 's \<times> 'b permit_body" where
  "release ops s pb = (if pb_permit pb then sem_release ops s else s, pb\<lparr>pb_permit := False\<rparr>)"

definition poll_frame ::
  "'s sem_ops \<Rightarrow> ('b \<Rightarrow> 'f poll \<times> 'b) \<Rightarrow> 's \<Rightarrow> 'b permit_body \<Rightarrow> 'f poll \<times> 's \<times> 'b permit_body" where
  "poll_frame ops poll_inner s pb =
     (case poll_inner (pb_inner pb) of (result, inner') \<Rightarrow>
      let this = pb\<lparr>pb_inner := inner'\<rparr>
      in if (case result of Ready None \<Rightarrow> True | _ \<Rightarrow> False)
         then (result, release ops s this)
         else (result, s, this))"

definition drop_body :: "'s sem_ops \<Rightarrow> 's \<Rightarrow> 'b permit_body \<Rightarrow> 's" where
  "drop_body ops s pb = fst (release ops s pb)"

section \<open>The service\<close>

definition slow_down :: s3_error where
  "slow_down = with_message SlowDown ''too many requests in flight; please retry later''"

text \<open>\<open>to_http\<close> is the serialiser of \<^verbatim>\<open>s3s\<close>, \<open>bare\<close> a 503 without a body.\<close>

definition slow_down_response :: "(s3_error \<Rightarrow> 'p option) \<Rightarrow> 'p \<Rightarrow> 'p" where
  "slow_down_response to_http bare = (case to_http slow_down of Some r \<Rightarrow> r | None \<Rightarrow> bare)"

text \<open>A request in flight: the inner service works on it, or its response body is being sent.\<close>

datatype 'b phase = Handling | Streaming "'b permit_body"

record ('s, 'b) bp_service =
  sem :: 's
  inflight :: "'b phase list"

definition backpressure_new :: "'s sem_ops \<Rightarrow> usize \<Rightarrow> ('s, 'b) bp_service" where
  "backpressure_new ops max_concurrent = \<lparr>sem = sem_new ops (max max_concurrent 1), inflight = []\<rparr>"

text \<open>The admission decision of \<^verbatim>\<open>call\<close>: whether the request goes on to the inner service.\<close>

definition bp_call :: "'s sem_ops \<Rightarrow> ('s, 'b) bp_service \<Rightarrow> bool \<times> ('s, 'b) bp_service" where
  "bp_call ops st =
     (case try_acquire ops (sem st) of
        Some s \<Rightarrow> (True, st\<lparr>sem := s, inflight := inflight st @ [Handling]\<rparr>)
      | None \<Rightarrow> (False, st))"

text \<open>
  What can happen: a call; the inner service answers with a body, fails, or its future is dropped
  with the permit; a body is polled; a body is dropped.
\<close>

inductive bp_step ::
  "'s sem_ops \<Rightarrow> ('b \<Rightarrow> 'f poll \<times> 'b) \<Rightarrow> ('s, 'b) bp_service \<Rightarrow> ('s, 'b) bp_service \<Rightarrow> bool"
  for ops poll_inner where
  called: "bp_call ops st = (admitted, st') \<Longrightarrow> bp_step ops poll_inner st st'"
| answered: "inflight st = xs @ Handling # ys \<Longrightarrow>
    bp_step ops poll_inner st (st\<lparr>inflight := xs @ Streaming (permit_body_new body) # ys\<rparr>)"
| failed: "inflight st = xs @ Handling # ys \<Longrightarrow>
    bp_step ops poll_inner st (st\<lparr>sem := sem_release ops (sem st), inflight := xs @ ys\<rparr>)"
| polled: "inflight st = xs @ Streaming pb # ys \<Longrightarrow> poll_frame ops poll_inner (sem st) pb = (r, s, pb') \<Longrightarrow>
    bp_step ops poll_inner st (st\<lparr>sem := s, inflight := xs @ Streaming pb' # ys\<rparr>)"
| dropped: "inflight st = xs @ Streaming pb # ys \<Longrightarrow>
    bp_step ops poll_inner st (st\<lparr>sem := drop_body ops (sem st) pb, inflight := xs @ ys\<rparr>)"

section \<open>Lemmas\<close>

text \<open>The permits out: one per request that is worked on or whose body has not ended.\<close>

fun holds_permit :: "'b phase \<Rightarrow> bool" where
  "holds_permit Handling = True"
| "holds_permit (Streaming pb) = pb_permit pb"

definition permits_out :: "('s, 'b) bp_service \<Rightarrow> nat" where
  "permits_out st = length (filter holds_permit (inflight st))"

text \<open>
  What \<^verbatim>\<open>tokio::sync::Semaphore\<close> promises of its number of available permits.  Creating one with
  more than \<^verbatim>\<open>MAX_PERMITS\<close> (\<^verbatim>\<open>usize::MAX >> 3\<close>), or releasing beyond that, panics: the laws say
  nothing there.
\<close>

definition max_permits :: nat where
  "max_permits = 2 ^ 61 - 1"

locale counting_semaphore =
  fixes ops :: "'s sem_ops" and avail :: "'s \<Rightarrow> nat"
  assumes avail_new: "unat n \<le> max_permits \<Longrightarrow> avail (sem_new ops n) = unat n"
    and avail_release: "avail s < max_permits \<Longrightarrow> avail (sem_release ops s) = Suc (avail s)"
    and acquire_None: "try_acquire ops s = None \<longleftrightarrow> avail s = 0"
    and acquire_Some: "try_acquire ops s = Some s' \<Longrightarrow> avail s = Suc (avail s')"
begin

lemma drop_body_avail:
  "avail s < max_permits \<Longrightarrow> avail (drop_body ops s pb) = avail s + (if pb_permit pb then 1 else 0)"
  by (simp add: drop_body_def release_def avail_release)

lemma poll_frame_permit:
  assumes "poll_frame ops poll_inner s pb = (r, s', pb')" "avail s < max_permits"
  shows "pb_permit pb' \<longleftrightarrow> pb_permit pb \<and> r \<noteq> Ready None"
    and "avail s' = avail s + (if pb_permit pb \<and> r = Ready None then 1 else 0)"
    and "avail (drop_body ops s' pb') = avail (drop_body ops s pb)"
  using assms avail_release
  by (auto simp: poll_frame_def release_def drop_body_def Let_def split: prod.splits poll.splits option.splits if_splits)

lemma poll_frame_idle:
  "poll_frame ops poll_inner s pb = (r, s', pb') \<Longrightarrow> \<not> pb_permit pb \<Longrightarrow> s' = s \<and> \<not> pb_permit pb'"
  by (auto simp: poll_frame_def release_def Let_def split: prod.splits poll.splits option.splits if_splits)

text \<open>The permits out and those available make up the limit.\<close>

definition bp_inv where
  "bp_inv limit st \<longleftrightarrow> avail (sem st) + permits_out st = limit"

lemma bp_step_inv:
  assumes "bp_step ops poll_inner st st'" "bp_inv limit st" "limit \<le> max_permits"
  shows "bp_inv limit st'"
  using assms(1,2)
proof (induction rule: bp_step.induct)
  case (called st admitted st')
  then show ?case using acquire_Some
    by (auto simp: bp_call_def bp_inv_def permits_out_def split: option.splits)
next
  case (failed st xs ys)
  then have "avail (sem st) < max_permits" using assms(3) by (simp add: bp_inv_def permits_out_def)
  with failed show ?case by (simp add: bp_inv_def permits_out_def avail_release)
next
  case (polled st xs pb ys r s pb')
  show ?case
  proof (cases "pb_permit pb")
    case True
    with polled(1,3) have "avail (sem st) < max_permits" using assms(3) by (simp add: bp_inv_def permits_out_def)
    with True polled(1,3) poll_frame_permit [OF polled(2)] show ?thesis by (simp add: bp_inv_def permits_out_def)
  next
    case False
    with polled(1,3) poll_frame_idle [OF polled(2)] show ?thesis by (simp add: bp_inv_def permits_out_def)
  qed
next
  case (dropped st xs pb ys)
  show ?case
  proof (cases "pb_permit pb")
    case True
    with dropped have "avail (sem st) < max_permits" using assms(3) by (simp add: bp_inv_def permits_out_def)
    with True dropped show ?thesis by (simp add: bp_inv_def permits_out_def drop_body_avail)
  next
    case False
    with dropped show ?thesis by (simp add: bp_inv_def permits_out_def drop_body_def release_def)
  qed
qed (auto simp: bp_inv_def permits_out_def permit_body_new_def)

lemma bp_run_inv:
  assumes "(bp_step ops poll_inner)\<^sup>*\<^sup>* (backpressure_new ops n) st" "unat (max n 1) \<le> max_permits"
  shows "avail (sem st) + permits_out st = unat (max n 1)"
proof -
  from assms(1) have "bp_inv (unat (max n 1)) st"
  proof (induction rule: rtranclp_induct)
    case base
    then show ?case using assms(2) by (simp add: bp_inv_def backpressure_new_def permits_out_def avail_new)
  next
    case (step st st')
    then show ?case using bp_step_inv [OF _ _ assms(2)] by blast
  qed
  then show ?thesis by (simp add: bp_inv_def)
qed

lemma bp_call_admits: "fst (bp_call ops st) \<longleftrightarrow> 0 < avail (sem st)"
  using acquire_None [of "sem st"] by (auto simp: bp_call_def split: option.splits)

end

section \<open>Properties\<close>

text \<open>
  Claim C4: the cap on requests in flight.  In every reachable state the permits held by requests
  being handled or by bodies that have not ended, together with the available ones, are exactly the
  configured number (at least one); so never more requests are in flight, a call is refused exactly
  when that many are, and when nothing is in flight every permit is back.
\<close>

theorem backpressure_bounded:
  assumes "counting_semaphore ops avail" "unat (max max_concurrent 1) \<le> max_permits"
    and "(bp_step ops poll_inner)\<^sup>*\<^sup>* (backpressure_new ops max_concurrent) st"
  shows "permits_out st \<le> unat (max max_concurrent 1) \<and>
    (fst (bp_call ops st) \<longleftrightarrow> permits_out st < unat (max max_concurrent 1)) \<and>
    avail (sem st) = unat (max max_concurrent 1) - permits_out st \<and>
    (if inflight st = [] then avail (sem st) = unat (max max_concurrent 1) else permits_out st \<le> length (inflight st))"
proof -
  have "avail (sem st) + permits_out st = unat (max max_concurrent 1)"
    by (rule counting_semaphore.bp_run_inv [OF assms(1,3,2)])
  moreover have "fst (bp_call ops st) \<longleftrightarrow> 0 < avail (sem st)"
    by (rule counting_semaphore.bp_call_admits [OF assms(1)])
  moreover have "permits_out st \<le> length (inflight st)" by (simp add: permits_out_def)
  ultimately show ?thesis by auto
qed

text \<open>
  Claim C33: a permit is held until the response has been sent, and given back once.  Polling a body
  keeps its permit as long as frames, errors or nothing come out; the first end of stream returns it, and
  neither a further poll nor dropping the body returns it again; dropping a body that has not ended
  returns it.
\<close>

theorem permit_released_once:
  assumes "counting_semaphore ops avail" "avail s < max_permits"
    and "poll_frame ops poll_inner s pb = (r, s', pb')"
  shows "avail (drop_body ops s' pb') = avail (drop_body ops s pb) \<and>
    (pb_permit pb' \<longleftrightarrow> pb_permit pb \<and> r \<noteq> Ready None) \<and>
    (avail s' = (if pb_permit pb \<and> \<not> pb_permit pb' then Suc (avail s) else avail s)) \<and>
    avail (drop_body ops s pb) = (if pb_permit pb then Suc (avail s) else avail s)"
  using counting_semaphore.poll_frame_permit [OF assms(1,3,2)]
  by (simp add: counting_semaphore.drop_body_avail [OF assms(1,2)])

section \<open>Instances\<close>

definition nat_sem :: "nat sem_ops" where
  "nat_sem = \<lparr>sem_new = unat, try_acquire = (\<lambda>s. if s = 0 then None else Some (s - 1)), sem_release = Suc\<rparr>"

interpretation nat_sem: counting_semaphore nat_sem id
  by unfold_locales (auto simp: nat_sem_def split: if_splits)

definition poll_list :: "string list \<Rightarrow> string poll \<times> string list" where
  "poll_list fs = (case fs of [] \<Rightarrow> (Ready None, []) | f # fs' \<Rightarrow> (Ready (Some f), fs'))"

theorem backpressure_bounded_witness:
  "\<exists>st. (bp_step nat_sem poll_list)\<^sup>*\<^sup>* (backpressure_new nat_sem 1) st \<and> inflight st = [Streaming (permit_body_new [''a''])] \<and>
     \<not> fst (bp_call nat_sem st) \<and> permits_out st \<le> 1"
proof -
  let ?st = "\<lparr>sem = 0, inflight = [Streaming (permit_body_new [''a''])]\<rparr> :: (nat, string list) bp_service"
  have "bp_step nat_sem poll_list (backpressure_new nat_sem 1) \<lparr>sem = 0, inflight = [Handling]\<rparr>"
    by (rule bp_step.called [where admitted = True]) (simp add: bp_call_def nat_sem_def backpressure_new_def)
  moreover have "bp_step nat_sem poll_list \<lparr>sem = 0, inflight = [Handling]\<rparr> ?st"
    using bp_step.answered [of "\<lparr>sem = 0, inflight = [Handling]\<rparr>" "[]" "[]" nat_sem poll_list "[''a'']"] by simp
  ultimately have run: "(bp_step nat_sem poll_list)\<^sup>*\<^sup>* (backpressure_new nat_sem 1) ?st" by simp
  have "permits_out ?st = 1" "unat (max 1 1 :: usize) \<le> max_permits"
    by (simp_all add: permits_out_def permit_body_new_def max_permits_def)
  with backpressure_bounded [OF nat_sem.counting_semaphore_axioms _ run] run show ?thesis by (intro exI [of _ ?st]) auto
qed

theorem permit_released_once_witness:
  "let (r, s', pb') = poll_frame nat_sem poll_list 4 (permit_body_new []) in
   r = Ready None \<and> s' = 5 \<and> drop_body nat_sem s' pb' = 5 \<and> \<not> pb_permit pb'"
proof -
  have run: "poll_frame nat_sem poll_list 4 (permit_body_new []) = (Ready None, 5, \<lparr>pb_inner = [], pb_permit = False\<rparr>)"
    by code_simp
  have "id 4 < max_permits" by (simp add: max_permits_def)
  from permit_released_once [OF nat_sem.counting_semaphore_axioms this run] show ?thesis
    unfolding run by (simp add: permit_body_new_def)
qed

end
