(* ===== verification/Server.thy ===== *)
theory Server
  imports Gateway Backpressure
begin

text \<open>
  \<^verbatim>\<open>src/s3/server.rs\<close>, \<^verbatim>\<open>src/s3/auth.rs\<close>, \<^verbatim>\<open>src/main.rs\<close> and \<^verbatim>\<open>HdfsGateway::from_config\<close>:
  how the process is put together, and its accept loop.

  The client builder of \<^verbatim>\<open>hdfs-native\<close>, the address parser and the socket are parameters.  The
  service of \<^verbatim>\<open>s3s\<close> is the record of what the gateway configures of it.
\<close>

section \<open>Authentication\<close>

record shared_secret_auth =
  shared_secret :: string

definition get_secret_key :: "shared_secret_auth \<Rightarrow> string \<Rightarrow> s3_error + string" where
  "get_secret_key auth access_key = Inr (shared_secret auth)"

section \<open>The HDFS client\<close>

record ('bld, 'client) client_builder =
  builder_new :: 'bld
  with_url :: "'bld \<Rightarrow> string \<Rightarrow> 'bld"
  with_config :: "'bld \<Rightarrow> (string \<rightharpoonup> string) \<Rightarrow> 'bld"
  with_config_dir :: "'bld \<Rightarrow> string \<Rightarrow> 'bld"
  with_user :: "'bld \<Rightarrow> string \<Rightarrow> 'bld"
  build_client :: "'bld \<Rightarrow> string + 'client"

definition from_config :: "('bld, 'client) client_builder \<Rightarrow> config \<Rightarrow> string + 'client \<times> gateway" where
  "from_config b config =
     (let b1 = with_url b (builder_new b) (namenode_uri config);
          b2 = (if hdfs_options config \<noteq> Map.empty then with_config b b1 (hdfs_options config) else b1);
          b3 = (case hdfs_config_dir config of Some dir \<Rightarrow> with_config_dir b b2 dir | None \<Rightarrow> b2);
          b4 = (case hdfs_user config of Some user \<Rightarrow> with_user b b3 user | None \<Rightarrow> b3)
      in case build_client b b4 of
           Inl e \<Rightarrow> Inl (''failed to build HDFS client: '' @ e)
         | Inr client \<Rightarrow> Inr (client, gateway_new config))"

section \<open>The service\<close>

record s3_config =
  xml_max_body_size :: nat
  post_object_max_file_size :: nat
  form_max_field_size :: nat
  form_max_fields_size :: nat
  form_max_parts :: nat

record 'client s3_service =
  svc_client :: 'client
  svc_gateway :: gateway
  svc_config :: s3_config
  svc_auth :: "shared_secret_auth option"

definition build_service ::
  "'s sem_ops \<Rightarrow> 'client \<times> gateway \<Rightarrow> config \<Rightarrow> 'client s3_service \<times> ('s, 'b) bp_service" where
  "build_service ops gw config =
     (\<lparr>svc_client = fst gw, svc_gateway = snd gw,
       svc_config = \<lparr>xml_max_body_size = 20 * 1024 * 1024, post_object_max_file_size = 5 * 1024 * 1024 * 1024,
         form_max_field_size = 1024 * 1024, form_max_fields_size = 20 * 1024 * 1024, form_max_parts = 1000\<rparr>,
       svc_auth = (case auth_secret config of Some s \<Rightarrow> Some \<lparr>shared_secret = s\<rparr> | None \<Rightarrow> None)\<rparr>,
      backpressure_new ops (max_concurrent_requests config))"

section \<open>The accept loop\<close>

text \<open>
  What the \<^verbatim>\<open>select!\<close> of one round yields: a connection, an error of \<^verbatim>\<open>accept\<close>, or the end
  of the shutdown future.  The loop hands back the connections it has spawned; without a shutdown
  it does not return.
\<close>

datatype 'c accept_event = Accepted 'c | AcceptError | Shutdown

fun accept_loop :: "'c list \<Rightarrow> 'c accept_event list \<Rightarrow> 'c list option" where
  "accept_loop conns [] = None"
| "accept_loop conns (Accepted c # events) = accept_loop (conns @ [c]) events"
| "accept_loop conns (AcceptError # events) = accept_loop conns events"
| "accept_loop conns (Shutdown # events) = Some conns"

text \<open>
  The drain.  \<open>race conns ms\<close> is what the second \<^verbatim>\<open>select!\<close> yields: whether
  \<^verbatim>\<open>hyper-util\<close>'s \<^verbatim>\<open>GracefulShutdown\<close>, watching \<open>conns\<close>, was done before a timer of
  \<open>ms\<close> milliseconds; both are code of crates.  The function returns after either.
\<close>

datatype drain_outcome = GracefullyShutDown | WaitedAborting

definition drain :: "('c list \<Rightarrow> nat \<Rightarrow> drain_outcome) \<Rightarrow> 'c list \<Rightarrow> drain_outcome" where
  "drain race conns = race conns (10 * 1000)"

definition serve_until ::
  "('c list \<Rightarrow> nat \<Rightarrow> drain_outcome) \<Rightarrow> 'c accept_event list \<Rightarrow> ('c list \<times> drain_outcome) option" where
  "serve_until race events = map_option (\<lambda>conns. (conns, drain race conns)) (accept_loop [] events)"

section \<open>The main program\<close>

datatype ('io, 'toml) start_error =
    ConfigFailed "('io, 'toml) config_error"
  | ClientFailed string
  | BadAddress string
  | BindFailed string

text \<open>Up to the call of \<^verbatim>\<open>serve\<close>: configuration, client, service, address, socket.\<close>

definition main_start where
  "main_start load_config b ops parse_addr bind =
     (case load_config of
        Inl e \<Rightarrow> Inl (ConfigFailed e)
      | Inr config \<Rightarrow>
          (case from_config b config of
             Inl e \<Rightarrow> Inl (ClientFailed e)
           | Inr gw \<Rightarrow>
               let service = build_service ops gw config in
               (case parse_addr (listen_addr config) of
                  Inl e \<Rightarrow> Inl (BadAddress e)
                | Inr addr \<Rightarrow>
                    (case bind addr of Inl e \<Rightarrow> Inl (BindFailed e) | Inr listener \<Rightarrow> Inr (listener, service)))))"

section \<open>Properties\<close>

lemma accept_loop_shutdown:
  "accept_loop conns events =
     (if Shutdown \<in> set events
      then Some (conns @ List.map_filter (\<lambda>e. case e of Accepted c \<Rightarrow> Some c | _ \<Rightarrow> None)
                           (takeWhile (\<lambda>e. e \<noteq> Shutdown) events))
      else None)"
  by (induction conns events rule: accept_loop.induct) (auto simp: map_filter_simps)

text \<open>
  The accept loop goes on past every error of \<open>accept\<close> and ends exactly at the shutdown signal; the
  connections accepted before it, and no others, are raced against ten seconds.
\<close>

lemma serve_until_shutdown:
  "serve_until race events =
     (if Shutdown \<in> set events
      then (let conns = List.map_filter (\<lambda>e. case e of Accepted c \<Rightarrow> Some c | _ \<Rightarrow> None)
                          (takeWhile (\<lambda>e. e \<noteq> Shutdown) events)
            in Some (conns, race conns 10000))
      else None)"
  by (simp add: serve_until_def accept_loop_shutdown drain_def Let_def)

lemma from_config_gateway: "from_config b c = Inr (client, gw) \<Longrightarrow> gw = gateway_new c"
  by (auto simp: from_config_def Let_def split: sum.splits)

text \<open>
  Claim C34: a gateway that starts is set up as configured.  The configuration it runs with has passed
  validation; requests are capped at exactly the configured positive number (up to the largest semaphore); signatures are checked
  if and only if a secret is configured, and then against that secret for every access key; the
  gateway's root and bucket are the configured ones.
\<close>

theorem main_start_configured:
  assumes "main_start (load read_text parse_toml env check_bucket_name args) b ops parse_addr bind =
      Inr (listener, service, bp)"
    and "counting_semaphore ops avail"
  shows "\<exists>c. load read_text parse_toml env check_bucket_name args = Inr c \<and>
    0 < unat (max_concurrent_requests c) \<and> inflight bp = [] \<and>
    (unat (max_concurrent_requests c) \<le> max_permits \<longrightarrow> avail (sem bp) = unat (max_concurrent_requests c)) \<and>
    (case svc_auth service of
       None \<Rightarrow> auth_secret c = None
     | Some auth \<Rightarrow> get_secret_key auth access_key = Inr (the (auth_secret c)) \<and> auth_secret c \<noteq> None) \<and>
    gw_mapper (svc_gateway service) = path_mapper_new c \<and> gw_config (svc_gateway service) = c"
proof -
  from assms(1) obtain c client where load: "load read_text parse_toml env check_bucket_name args = Inr c"
    and svc: "build_service ops (client, gateway_new c) c = (service, bp)"
    by (auto simp: main_start_def Let_def dest!: from_config_gateway split: sum.splits)
  then have pos: "0 < max_concurrent_requests c"
    by (auto simp: load_def Let_def dest: validate_InrD(5) split: sum.splits)
  then have "max (max_concurrent_requests c) 1 = max_concurrent_requests c"
    by (metis max.absorb1 word_gt_0 word_less_1 linorder_not_le)
  then have "unat (max_concurrent_requests c) \<le> max_permits \<longrightarrow> avail (sem bp) = unat (max_concurrent_requests c)"
    "inflight bp = []"
    using counting_semaphore.avail_new [OF assms(2)] svc by (auto simp: build_service_def backpressure_new_def)
  moreover have "0 < unat (max_concurrent_requests c)" using pos by (simp add: unat_gt_0 word_gt_0)
  ultimately show ?thesis
    using load svc by (auto simp: build_service_def gateway_new_def get_secret_key_def split: option.splits)
qed

section \<open>Instances\<close>

definition test_builder :: "(string list, string list) client_builder" where
  "test_builder = \<lparr>builder_new = [], with_url = (\<lambda>b u. b @ [u]), with_config = (\<lambda>b m. b @ [''options'']),
     with_config_dir = (\<lambda>b d. b @ [d]), with_user = (\<lambda>b u. b @ [u]), build_client = Inr\<rparr>"

theorem main_start_configured_witness:
  "\<exists>listener service (bp :: (nat, string list) bp_service).
     main_start (load (\<lambda>p. Inl ()) (\<lambda>t. Inl ()) Map.empty (\<lambda>b. True) (test_args\<lparr>arg_auth_secret := Some ''s''\<rparr>))
       test_builder nat_sem Inr Inr = Inr (listener, service, bp) \<and>
     listener = ''0.0.0.0:8080'' \<and> sem bp = 2048 \<and> svc_auth service = Some \<lparr>shared_secret = ''s''\<rparr>"
proof -
  let ?args = "test_args\<lparr>arg_auth_secret := Some ''s''\<rparr>"
  define c where "c = apply_args ?args config_default"
  have c: "listen_addr c = ''0.0.0.0:8080''" "max_concurrent_requests c = 2048" "auth_secret c = Some ''s''"
    by (simp_all add: c_def apply_args_def test_args_def config_default_def default_listen_addr_def
        default_max_concurrent_requests_def)
  have load: "load (\<lambda>p. Inl ()) (\<lambda>t. Inl ()) Map.empty (\<lambda>b. True) ?args = (Inr c :: (unit, unit) config_error + config)"
    unfolding c_def
    by (rule load_plain) (simp_all add: load_base_def from_env_def validate_def apply_args_def test_args_def
        config_default_def cache_config_default_def default_max_concurrent_requests_def)
  then obtain service and bp :: "(nat, string list) bp_service" where
    start: "main_start (load (\<lambda>p. Inl ()) (\<lambda>t. Inl ()) Map.empty (\<lambda>b. True) ?args) test_builder nat_sem Inr Inr =
      Inr (''0.0.0.0:8080'', service, bp)" and auth: "svc_auth service = Some \<lparr>shared_secret = ''s''\<rparr>"
    by (simp add: main_start_def from_config_def test_builder_def build_service_def Let_def c)
  from main_start_configured [OF start nat_sem.counting_semaphore_axioms] load c have "sem bp = 2048"
    by (auto simp: max_permits_def)
  with start auth show ?thesis by blast
qed

end
