(* ===== verification/Gateway_Served.thy ===== *)
theory Gateway_Served
  imports Gateway_Concurrent Server
begin

text \<open>
  The server as a whole: the in-flight cap of \<^verbatim>\<open>backpressure.rs\<close> in front of the handlers of
  \<^verbatim>\<open>mod.rs\<close> that run at the same time on the shared caches.  \<open>Backpressure\<close> and
  \<open>Gateway_Concurrent\<close> each study one side; here a request takes a permit, waits for its handler, runs, and
  holds the permit until its body has been sent.
\<close>

section \<open>Requests behind the cap\<close>

text \<open>
  The service with its permits, the number of admitted requests whose handler has not begun (\<^verbatim>\<open>s3s\<close> reads and
  checks the request first), and the handlers in flight.
\<close>

record ('p, 'b, 'q, 'c, 'a, 's, 'x) served =
  sv_service :: "('p, 'b) bp_service"
  sv_waiting :: nat
  sv_conc :: "('q, 'c, 'a, 's, 'x) conc"

fun is_handling :: "'b phase \<Rightarrow> bool" where
  "is_handling Handling = True"
| "is_handling (Streaming pb) = False"

definition handling :: "('p, 'b) bp_service \<Rightarrow> nat" where
  "handling svc = length (filter is_handling (inflight svc))"

text \<open>Bodies whose end has not been polled yet.\<close>

definition open_bodies :: "('p, 'b) bp_service \<Rightarrow> nat" where
  "open_bodies svc = length (filter (\<lambda>p. \<not> is_handling p \<and> holds_permit p) (inflight svc))"

text \<open>The inner service is done with a request: it has a response, or there is none and the permit is dropped.\<close>

inductive bp_done :: "'p sem_ops \<Rightarrow> ('p, 'b) bp_service \<Rightarrow> ('p, 'b) bp_service \<Rightarrow> bool" for ops where
  done_body: "inflight svc = xs @ Handling # ys \<Longrightarrow>
    bp_done ops svc (svc\<lparr>inflight := xs @ Streaming (permit_body_new inner) # ys\<rparr>)"
| done_none: "inflight svc = xs @ Handling # ys \<Longrightarrow>
    bp_done ops svc (svc\<lparr>sem := sem_release ops (sem svc), inflight := xs @ ys\<rparr>)"

text \<open>
  A call, admitted or not; the handler of an admitted request begins; \<^verbatim>\<open>s3s\<close> refuses a request before
  its handler, or its connection is lost; a handler gets an answer; the connection of a running request is
  lost; a finished handler's response is passed on; its body is polled or dropped; something else happens.
\<close>

inductive served_step ::
  "'p sem_ops \<Rightarrow> ('b \<Rightarrow> 'f poll \<times> 'b) \<Rightarrow> ('c \<Rightarrow> 's \<Rightarrow> 'a \<times> 's) \<Rightarrow> ('q \<Rightarrow> ('c, 'a, 's, 'x) async) \<Rightarrow> ('s \<Rightarrow> 's \<Rightarrow> bool)
     \<Rightarrow> ('p, 'b, 'q, 'c, 'a, 's, 'x) served \<Rightarrow> ('p, 'b, 'q, 'c, 'a, 's, 'x) served \<Rightarrow> bool"
  for sops poll_inner ask start other where
  sv_called: "bp_call sops (sv_service st) = (admitted, svc) \<Longrightarrow>
    served_step sops poll_inner ask start other st
      (st\<lparr>sv_service := svc, sv_waiting := sv_waiting st + (if admitted then 1 else 0)\<rparr>)"
| sv_begun: "sv_waiting st = Suc n \<Longrightarrow>
    served_step sops poll_inner ask start other st
      (st\<lparr>sv_waiting := n, sv_conc := conc_act ask start (Arrive q) (sv_conc st)\<rparr>)"
| sv_refused: "sv_waiting st = Suc n \<Longrightarrow> bp_done sops (sv_service st) svc \<Longrightarrow>
    served_step sops poll_inner ask start other st (st\<lparr>sv_waiting := n, sv_service := svc\<rparr>)"
| sv_resumed: "served_step sops poll_inner ask start other st (st\<lparr>sv_conc := conc_act ask start (Resume i) (sv_conc st)\<rparr>)"
| sv_lost: "i < length (pending (sv_conc st)) \<Longrightarrow> inflight (sv_service st) = xs @ Handling # ys \<Longrightarrow>
    served_step sops poll_inner ask start other st
      (st\<lparr>sv_conc := conc_act ask start (Lose i) (sv_conc st),
          sv_service := (sv_service st)\<lparr>sem := sem_release sops (sem (sv_service st)), inflight := xs @ ys\<rparr>\<rparr>)"
| sv_replied: "sv_waiting st + length (pending (sv_conc st)) < handling (sv_service st) \<Longrightarrow> bp_done sops (sv_service st) svc \<Longrightarrow>
    served_step sops poll_inner ask start other st (st\<lparr>sv_service := svc\<rparr>)"
| sv_polled: "inflight (sv_service st) = xs @ Streaming pb # ys \<Longrightarrow>
    poll_frame sops poll_inner (sem (sv_service st)) pb = (r, s, pb') \<Longrightarrow>
    served_step sops poll_inner ask start other st
      (st\<lparr>sv_service := (sv_service st)\<lparr>sem := s, inflight := xs @ Streaming pb' # ys\<rparr>\<rparr>)"
| sv_dropped: "inflight (sv_service st) = xs @ Streaming pb # ys \<Longrightarrow>
    served_step sops poll_inner ask start other st
      (st\<lparr>sv_service := (sv_service st)\<lparr>sem := drop_body sops (sem (sv_service st)) pb, inflight := xs @ ys\<rparr>\<rparr>)"
| sv_elapsed: "other (shared (sv_conc st)) s \<Longrightarrow>
    served_step sops poll_inner ask start other st (st\<lparr>sv_conc := (sv_conc st)\<lparr>shared := s\<rparr>\<rparr>)"

section \<open>Its parts run as they do alone\<close>

lemma bp_done_step: "bp_done sops svc svc' \<Longrightarrow> bp_step sops poll_inner svc svc'"
  by (induction rule: bp_done.induct) (auto intro: bp_step.answered bp_step.failed)

lemma served_step_service:
  "served_step sops poll_inner ask start other st st' \<Longrightarrow>
   (bp_step sops poll_inner)\<^sup>*\<^sup>* (sv_service st) (sv_service st')"
  by (induction rule: served_step.induct)
     (auto intro: bp_done_step bp_step.called bp_step.failed bp_step.polled bp_step.dropped r_into_rtranclp)

lemma served_step_conc:
  "served_step sops poll_inner ask start other st st' \<Longrightarrow>
   (conc_step ask start other)\<^sup>*\<^sup>* (sv_conc st) (sv_conc st')"
  by (induction rule: served_step.induct) (auto simp del: conc_act.simps intro: conc_act_step conc_step.elapsed r_into_rtranclp)

lemma served_run_parts:
  assumes "(served_step sops poll_inner ask start other)\<^sup>*\<^sup>* st st'"
  shows "(bp_step sops poll_inner)\<^sup>*\<^sup>* (sv_service st) (sv_service st')"
    and "(conc_step ask start other)\<^sup>*\<^sup>* (sv_conc st) (sv_conc st')"
  using assms
  by (induction rule: rtranclp_induct) (auto intro: rtranclp_trans served_step_service served_step_conc)

section \<open>Every handler holds a permit\<close>

lemma handling_split: "inflight svc = xs @ Handling # ys \<Longrightarrow> handling svc = Suc (length (filter is_handling (xs @ ys)))"
  by (simp add: handling_def)

lemma permits_handling: "permits_out svc = handling svc + open_bodies svc"
proof -
  have "length (filter holds_permit ps) = length (filter is_handling ps) + length (filter (\<lambda>p. \<not> is_handling p \<and> holds_permit p) ps)"
    for ps :: "'b phase list"
  proof (induction ps)
    case (Cons p ps)
    then show ?case by (cases p) auto
  qed simp
  then show ?thesis by (simp add: permits_out_def handling_def open_bodies_def)
qed

lemma bp_done_handling: "bp_done sops svc svc' \<Longrightarrow> handling svc = Suc (handling svc')"
  by (induction rule: bp_done.induct) (auto simp: handling_def)

lemma pending_act:
  "length (pending (conc_act ask start (Arrive q) c)) \<le> Suc (length (pending c))"
  "length (pending (conc_act ask start (Resume i) c)) \<le> length (pending c)"
  "i < length (pending c) \<Longrightarrow> Suc (length (pending (conc_act ask start (Lose i) c))) = length (pending c)"
  by (auto simp: park_def split: prod.split task.split)

definition permits_cover :: "('p, 'b, 'q, 'c, 'a, 's, 'x) served \<Rightarrow> bool" where
  "permits_cover st \<longleftrightarrow> sv_waiting st + length (pending (sv_conc st)) \<le> handling (sv_service st)"

lemma served_step_cover:
  assumes "served_step sops poll_inner ask start other st st'" "permits_cover st"
  shows "permits_cover st'"
  using assms
proof (induction rule: served_step.induct)
  case (sv_called st admitted svc)
  then show ?case by (auto simp: permits_cover_def bp_call_def handling_def split: option.splits)
next
  case (sv_begun st n q)
  then show ?case using pending_act(1) [of ask start q "sv_conc st"] by (simp add: permits_cover_def)
next
  case (sv_refused st n svc)
  then show ?case using bp_done_handling by (fastforce simp: permits_cover_def)
next
  case (sv_resumed st i)
  then show ?case using pending_act(2) [of ask start i "sv_conc st"] by (simp add: permits_cover_def)
next
  case (sv_lost i st xs ys)
  then show ?case using pending_act(3) [of i "sv_conc st" ask start] handling_split [OF sv_lost(2)]
    by (simp add: permits_cover_def handling_def del: conc_act.simps)
next
  case (sv_replied st svc)
  then show ?case using bp_done_handling by (fastforce simp: permits_cover_def)
qed (simp_all add: permits_cover_def handling_def)

lemma served_run_cover:
  "(served_step sops poll_inner ask start other)\<^sup>*\<^sup>* st st' \<Longrightarrow> permits_cover st \<Longrightarrow> permits_cover st'"
  by (induction rule: rtranclp_induct) (auto intro: served_step_cover)

section \<open>What is in flight can end\<close>

lemma handling_pos: "0 < handling svc \<longleftrightarrow> (\<exists>xs ys. inflight svc = xs @ Handling # ys)"
proof -
  have "0 < length (filter is_handling ps) \<longleftrightarrow> Handling \<in> set ps" for ps :: "'b phase list"
  proof (induction ps)
    case (Cons p ps)
    then show ?case by (cases p) auto
  qed simp
  then show ?thesis by (simp add: handling_def in_set_conv_decomp)
qed

text \<open>The connection of some request in flight ends, whatever state the request is in.\<close>

lemma served_end_one:
  assumes "permits_cover st" "inflight (sv_service st) \<noteq> []"
  obtains st' where "served_step sops poll_inner ask start other st st'"
    "length (inflight (sv_service st')) < length (inflight (sv_service st))"
proof (cases "0 < handling (sv_service st)")
  case True
  then obtain xs ys where at: "inflight (sv_service st) = xs @ Handling # ys" unfolding handling_pos by blast
  note gone = done_none [OF at, of sops]
  consider n where "sv_waiting st = Suc n" | "0 < length (pending (sv_conc st))"
    | "sv_waiting st + length (pending (sv_conc st)) < handling (sv_service st)"
    using True by (cases "sv_waiting st"; cases "pending (sv_conc st)") auto
  then show ?thesis
  proof cases
    case 1
    show ?thesis by (rule that [OF sv_refused [OF 1 gone]]) (simp add: at)
  next
    case 2
    show ?thesis by (rule that [OF sv_lost [OF 2 at]]) (simp add: at)
  next
    case 3
    show ?thesis by (rule that [OF sv_replied [OF 3 gone]]) (simp add: at)
  qed
next
  case False
  from assms(2) obtain ph ps where at: "inflight (sv_service st) = [] @ ph # ps" by (cases "inflight (sv_service st)") auto
  with False obtain pb where "ph = Streaming pb" by (cases ph) (auto simp: handling_def)
  note drop = sv_dropped [OF at [unfolded this]]
  show ?thesis by (rule that [OF drop]) (simp add: at)
qed

lemma served_drains:
  assumes "permits_cover st"
  shows "\<exists>st'. (served_step sops poll_inner ask start other)\<^sup>*\<^sup>* st st' \<and> inflight (sv_service st') = []"
  using assms
proof (induction "length (inflight (sv_service st))" arbitrary: st rule: less_induct)
  case less
  show ?case
  proof (cases "inflight (sv_service st) = []")
    case False
    obtain st1 where st1: "served_step sops poll_inner ask start other st st1"
      "length (inflight (sv_service st1)) < length (inflight (sv_service st))"
      using served_end_one [OF less.prems False] .
    from less.hyps [OF st1(2) served_step_cover [OF st1(1) less.prems]] st1(1)
    show ?thesis by (blast intro: converse_rtranclp_into_rtranclp)
  qed blast
qed

section \<open>The gateway behind its cap\<close>

abbreviation gw_served_step where
  "gw_served_step sops poll_inner ops up ext gw env \<equiv>
     served_step sops poll_inner (gw_ask up) (gw_start ops up ext gw) (gw_event ops env)"

text \<open>A server as \<^verbatim>\<open>build_service\<close> makes it of a configuration, before its first request.\<close>

definition served_new where
  "served_new sops ops client config w n =
     \<lparr>sv_service = snd (build_service sops (client, gateway_new config) config), sv_waiting = 0,
      sv_conc = gw_init ops (cache config) w n\<rparr>"

text \<open>The limit \<^verbatim>\<open>max_concurrent_requests\<close>, at least one.\<close>

definition request_limit :: "config \<Rightarrow> nat" where
  "request_limit config = unat (max (max_concurrent_requests config) 1)"

lemma served_new_simps [simp]:
  "sv_service (served_new sops ops client config w n) = backpressure_new sops (max_concurrent_requests config)"
  "sv_conc (served_new sops ops client config w n) = gw_init ops (cache config) w n"
  "permits_cover (served_new sops ops client config w n)"
  by (simp_all add: served_new_def build_service_def permits_cover_def conc_new_def)

section \<open>Properties\<close>

text \<open>
  Claim C5: the cap bounds the load on the cluster.  However many requests arrive and however they
  interleave, fail or lose their connection, the admitted requests that wait for their handler, the calls
  to the cluster that handlers wait for and the bodies that are being streamed are together never more than
  \<^verbatim>\<open>max_concurrent_requests\<close>; and a request is turned away only when that many permits are held.
\<close>

theorem cluster_load_bounded:
  assumes "counting_semaphore sops avail" "request_limit config \<le> max_permits"
    and "(gw_served_step sops poll_inner ops up ext (gateway_new config) env)\<^sup>*\<^sup>* (served_new sops ops client config w n) st"
  shows "sv_waiting st + length (pending (sv_conc st)) + open_bodies (sv_service st) \<le> request_limit config \<and>
    (fst (bp_call sops (sv_service st)) \<longleftrightarrow> handling (sv_service st) + open_bodies (sv_service st) < request_limit config)"
proof -
  have "(bp_step sops poll_inner)\<^sup>*\<^sup>* (backpressure_new sops (max_concurrent_requests config)) (sv_service st)"
    using served_run_parts(1) [OF assms(3)] by simp
  from counting_semaphore.bp_run_inv [OF assms(1) this] assms(2)
  have "avail (sem (sv_service st)) + (handling (sv_service st) + open_bodies (sv_service st)) = request_limit config"
    by (simp add: request_limit_def permits_handling)
  moreover have "permits_cover st" using served_run_cover [OF assms(3)] by simp
  ultimately show ?thesis
    using counting_semaphore.bp_call_admits [OF assms(1), of "sv_service st"] by (auto simp: permits_cover_def)
qed

text \<open>
  The server refines its parts.  Whatever the server does, its service makes a run of the
  backpressure service and its handlers make a run of the concurrent handlers, from the states
  the configuration prescribes, and a handler runs only while its request holds a permit.  What is proved of
  each part alone holds of the server.
\<close>

lemma server_refines_parts:
  assumes "(gw_served_step sops poll_inner ops up ext (gateway_new config) env)\<^sup>*\<^sup>* (served_new sops ops client config w n) st"
  shows "(bp_step sops poll_inner)\<^sup>*\<^sup>* (backpressure_new sops (max_concurrent_requests config)) (sv_service st) \<and>
    (gw_conc_step ops up ext (gateway_new config) env)\<^sup>*\<^sup>* (gw_init ops (cache config) w n) (sv_conc st) \<and>
    sv_waiting st + length (pending (sv_conc st)) \<le> handling (sv_service st)"
proof -
  have "permits_cover st" using served_run_cover [OF assms] by simp
  with served_run_parts [OF assms] show ?thesis by (simp add: permits_cover_def)
qed

text \<open>
  Claim C6: no permit is lost.  Whatever has happened, the connections of the requests in flight can
  end one after the other, wherever each request is; then nothing waits, no handler is
  suspended, every permit is back and the next request is admitted.
\<close>

theorem server_can_drain:
  assumes "counting_semaphore sops avail" "request_limit config \<le> max_permits"
    and "(gw_served_step sops poll_inner ops up ext (gateway_new config) env)\<^sup>*\<^sup>* (served_new sops ops client config w n) st"
  shows "\<exists>st'. (gw_served_step sops poll_inner ops up ext (gateway_new config) env)\<^sup>*\<^sup>* st st' \<and>
    inflight (sv_service st') = [] \<and> sv_waiting st' = 0 \<and> pending (sv_conc st') = [] \<and>
    avail (sem (sv_service st')) = request_limit config \<and> fst (bp_call sops (sv_service st'))"
proof -
  have cover: "permits_cover st" using served_run_cover [OF assms(3)] by simp
  then obtain st' where run: "(gw_served_step sops poll_inner ops up ext (gateway_new config) env)\<^sup>*\<^sup>* st st'"
    and idle: "inflight (sv_service st') = []"
    using served_drains by blast
  have "permits_cover st'" using served_run_cover [OF run cover] .
  with idle have rest: "sv_waiting st' = 0" "pending (sv_conc st') = []" by (simp_all add: permits_cover_def handling_def)
  have "(bp_step sops poll_inner)\<^sup>*\<^sup>* (backpressure_new sops (max_concurrent_requests config)) (sv_service st')"
    using served_run_parts(1) [OF rtranclp_trans [OF assms(3) run]] by simp
  from counting_semaphore.bp_run_inv [OF assms(1) this] assms(2) idle
  have "avail (sem (sv_service st')) = request_limit config"
    by (simp add: request_limit_def permits_out_def)
  moreover have "0 < request_limit config" by (auto simp: request_limit_def max_def unat_gt_0)
  ultimately show ?thesis
    using run idle rest counting_semaphore.bp_call_admits [OF assms(1), of "sv_service st'"] by auto
qed

section \<open>Instances\<close>

text \<open>One permit: a first request waits for the cluster, a second one is turned away.\<close>

definition single_config :: config where
  "single_config = data_config\<lparr>max_concurrent_requests := 1, cache := small_config\<rparr>"

definition single_new :: "(nat, string list, conc_request, call, unit answer, _, reply) served" where
  "single_new = served_new nat_sem memo_ops () single_config ([], 0) 0"

definition single_busy where
  "single_busy = single_new\<lparr>sv_service := \<lparr>sem = 0, inflight = [Handling]\<rparr>,
     sv_conc := conc_act (gw_ask memo_up) (gw_start memo_ops memo_up test_externs (gateway_new single_config))
       (Arrive (HeadCall test_head_input)) (sv_conc single_new)\<rparr>"

lemma single_run:
  "(gw_served_step nat_sem poll_list memo_ops memo_up test_externs (gateway_new single_config) memo_env)\<^sup>*\<^sup>* single_new single_busy"
proof -
  let ?R = "gw_served_step nat_sem poll_list memo_ops memo_up test_externs (gateway_new single_config) memo_env"
  have "bp_call nat_sem (sv_service single_new) = (True, \<lparr>sem = 0, inflight = [Handling]\<rparr>)"
    by (simp add: single_new_def bp_call_def backpressure_new_def nat_sem_def single_config_def)
  note call = sv_called [OF this]
  have "?R single_new (single_new\<lparr>sv_service := \<lparr>sem = 0, inflight = [Handling]\<rparr>, sv_waiting := 1\<rparr>)"
    using call by (simp add: single_new_def served_new_def)
  moreover have "?R (single_new\<lparr>sv_service := \<lparr>sem = 0, inflight = [Handling]\<rparr>, sv_waiting := 1\<rparr>) single_busy"
    using sv_begun [where st = "single_new\<lparr>sv_service := \<lparr>sem = 0, inflight = [Handling]\<rparr>, sv_waiting := 1\<rparr>" and n = 0]
    by (simp add: single_busy_def single_new_def served_new_def del: conc_act.simps)
  ultimately show ?thesis by simp
qed

lemma single_pending: "length (pending (sv_conc single_busy)) = 1"
proof -
  let ?gw = "gateway_new single_config" and ?s = "\<lparr>gs_caches = caches_new memo_ops small_config, gs_world = ([], 0), gs_seq = 0\<rparr>"
  have p: "key_to_hdfs_path (gw_mapper ?gw) (in_key test_head_input) = Some ''/data/b.txt''" by code_simp
  have b: "in_bucket test_head_input = bucket (gw_mapper ?gw)" by code_simp
  obtain k where "gw_start memo_ops memo_up test_externs ?gw (HeadCall test_head_input) ?s = (Await (AskInfo ''/data/b.txt'') k, ?s\<lparr>gs_seq := 1\<rparr>)"
    using head_suspends [OF b p, of memo_ops ?s memo_up test_externs]
    by (auto simp: memo_ops_def test_ops_def caches_new_def empty_get)
  then show ?thesis
    by (simp add: single_busy_def single_new_def single_config_def conc_new_def park_def del: gw_start.simps)
qed

theorem cluster_load_bounded_witness:
  "\<exists>st. (gw_served_step nat_sem poll_list memo_ops memo_up test_externs (gateway_new single_config) memo_env)\<^sup>*\<^sup>* single_new st \<and>
     length (pending (sv_conc st)) = 1 \<and> \<not> fst (bp_call nat_sem (sv_service st))"
proof -
  have "request_limit single_config = 1" by (simp add: request_limit_def single_config_def)
  moreover have "handling (sv_service single_busy) = 1" by (simp add: single_busy_def handling_def)
  ultimately show ?thesis
    using cluster_load_bounded [OF nat_sem.counting_semaphore_axioms _ single_run [unfolded single_new_def]] single_run single_pending
    by (intro exI [of _ single_busy]) (simp add: max_permits_def)
qed

theorem server_can_drain_witness:
  "\<exists>st. (gw_served_step nat_sem poll_list memo_ops memo_up test_externs (gateway_new single_config) memo_env)\<^sup>*\<^sup>* single_busy st \<and>
     \<not> fst (bp_call nat_sem (sv_service single_busy)) \<and> inflight (sv_service st) = [] \<and> fst (bp_call nat_sem (sv_service st))"
proof -
  have "request_limit single_config \<le> max_permits" by (simp add: request_limit_def single_config_def max_permits_def)
  moreover have "\<not> fst (bp_call nat_sem (sv_service single_busy))" by (simp add: single_busy_def bp_call_def nat_sem_def)
  ultimately show ?thesis
    using server_can_drain [OF nat_sem.counting_semaphore_axioms _ single_run [unfolded single_new_def]] by blast
qed

end
