(* ===== verification/Py_Gateway.thy ===== *)
theory Py_Gateway
  imports Server
begin

text \<open>
  \<^verbatim>\<open>python/src/lib.rs\<close>: the gateway as a Python object, its background thread and its log bridge.

  \<^verbatim>\<open>tokio\<close>'s \<^verbatim>\<open>Notify\<close> and the borrow flag \<^verbatim>\<open>pyo3\<close> keeps with every object are
  parameters, records of operations with a contract each: a completed \<^verbatim>\<open>notified()\<close> uses up a
  notification; an object is lent to any number of \<^verbatim>\<open>&self\<close> calls or to one \<^verbatim>\<open>&mut self\<close>
  call.  The outcome of the start-up (runtime, client, address, socket) is a parameter, and so is
  whether the interpreter can be entered for a log line.
\<close>

section \<open>The log bridge\<close>

abbreviation newline :: char where "newline \<equiv> CHR 0x0A"

text \<open>\<^verbatim>\<open>PyLogger::write\<close>: what is sent on the channel, and the answer to the writer.\<close>

definition logger_write :: "string \<Rightarrow> string option \<times> nat" where
  "logger_write buf = (if valid_utf8 buf then Some buf else None, length buf)"

function drain_lines :: "string \<Rightarrow> string list \<times> string" where
  "drain_lines pending =
     (case find_sub [newline] pending of
        Some i \<Rightarrow> (case drain_lines (drop (Suc i) pending) of (ls, rest) \<Rightarrow> (take (Suc i) pending # ls, rest))
      | None \<Rightarrow> ([], pending))"
  by pat_completeness auto
termination
  by (relation "measure length") (auto dest!: find_sub_Some_split)

declare drain_lines.simps [simp del]

text \<open>The loop of \<^verbatim>\<open>spawn_log_consumer\<close>: the pieces it passes to \<^verbatim>\<open>emit_line\<close>.\<close>

fun consume_log :: "string \<Rightarrow> string list \<Rightarrow> string list" where
  "consume_log pending [] = (if pending \<noteq> [] then [pending] else [])"
| "consume_log pending (chunk # chunks) =
     (case drain_lines (pending @ chunk) of (ls, rest) \<Rightarrow> ls @ consume_log rest chunks)"

definition trim_end_newlines :: "string \<Rightarrow> string" where
  "trim_end_newlines line = rev (dropWhile (\<lambda>c. c = CHR 0x0D \<or> c = newline) (rev line))"

text \<open>\<open>attaches n\<close> tells whether the interpreter can be entered at the \<open>n\<close>-th try.\<close>

definition emit_line :: "bool \<Rightarrow> (nat \<Rightarrow> bool) \<Rightarrow> string \<Rightarrow> string option" where
  "emit_line has_logger attaches line =
     (let l = trim_end_newlines line in
      if l = [] then None else if \<not> has_logger then None
      else if list_ex attaches [0..<50] then Some l else None)"

text \<open>
  The bridge: what \<^verbatim>\<open>logger.info\<close> is called with for the buffers the formatter writes.
  \<open>attaches i n\<close> is the \<open>n\<close>-th try for the \<open>i\<close>-th piece.
\<close>

fun emit_lines :: "bool \<Rightarrow> (nat \<Rightarrow> nat \<Rightarrow> bool) \<Rightarrow> nat \<Rightarrow> string list \<Rightarrow> string list" where
  "emit_lines has_logger attaches i [] = []"
| "emit_lines has_logger attaches i (piece # pieces) =
     (case emit_line has_logger (attaches i) piece of Some l \<Rightarrow> [l] | None \<Rightarrow> [])
       @ emit_lines has_logger attaches (Suc i) pieces"

definition log_bridge :: "bool \<Rightarrow> (nat \<Rightarrow> nat \<Rightarrow> bool) \<Rightarrow> string list \<Rightarrow> string list" where
  "log_bridge has_logger attaches writes =
     emit_lines has_logger attaches 0 (consume_log [] (List.map_filter (\<lambda>buf. fst (logger_write buf)) writes))"

text \<open>The lines of a text, each with its newline; the last one may have none.\<close>

fun text_lines :: "string \<Rightarrow> string list" where
  "text_lines [] = []"
| "text_lines (c # cs) =
     (if c = newline then [c] # text_lines cs
      else case text_lines cs of [] \<Rightarrow> [[c]] | l # ls \<Rightarrow> (c # l) # ls)"

section \<open>Tracing and panics\<close>

datatype tracing = Silent | ToStderr string | ToPython string

text \<open>\<open>env_filter\<close> is the filter of \<^verbatim>\<open>RUST_LOG\<close> if it is set and parses; the first
  installation wins.\<close>

definition init_tracing :: "bool \<Rightarrow> string option \<Rightarrow> string option \<Rightarrow> string \<Rightarrow> tracing \<Rightarrow> tracing" where
  "init_tracing has_env env_filter level target installed =
     (case (case level of Some l \<Rightarrow> Some l | None \<Rightarrow> if has_env then Some ''info'' else None) of
        None \<Rightarrow> installed
      | Some level_str \<Rightarrow>
          let flt = (case env_filter of Some f \<Rightarrow> f | None \<Rightarrow> level_str) in
          (case installed of
             Silent \<Rightarrow> if target = ''python'' then ToPython flt else ToStderr flt
           | _ \<Rightarrow> installed))"

text \<open>The dynamic type of a panic payload; \<^verbatim>\<open>&payload\<close> of a boxed payload is the box.\<close>

datatype any_value = AnyStr string | AnyString string | AnyBox any_value | AnyOther

fun panic_message :: "any_value \<Rightarrow> string" where
  "panic_message (AnyStr s) = s"
| "panic_message (AnyString s) = s"
| "panic_message _ = ''unknown panic''"

definition panic_report :: "any_value \<Rightarrow> string" where
  "panic_report payload = ''gateway panicked: '' @ panic_message (AnyBox payload)"

section \<open>The object\<close>

text \<open>
  \<^verbatim>\<open>Notify\<close>: \<open>notified n\<close> is the state after a waiter has taken a notification, \<open>None\<close> while
  there is none to take.
\<close>

record 'n notify_ops =
  notify_new :: 'n
  notify_one :: "'n \<Rightarrow> 'n"
  notified :: "'n \<Rightarrow> 'n option"

text \<open>The borrow flag of a Python object.\<close>

record 'b borrow_ops =
  try_borrow :: "'b \<Rightarrow> 'b option"
  release_ref :: "'b \<Rightarrow> 'b"
  try_borrow_mut :: "'b \<Rightarrow> 'b option"
  release_mut :: "'b \<Rightarrow> 'b"

datatype server_thread = Serving | Finished

record 'n py_gateway =
  g_config :: config
  g_shutdown :: 'n
  g_thread :: "server_thread option"
  g_address :: "string option"
  g_log_level :: "string option"
  g_log_target :: string

record py_kwargs =
  kw_config_path :: "string option"
  kw_namenode_uri :: "string option"
  kw_hdfs_root :: "string option"
  kw_bucket_name :: "string option"
  kw_listen_addr :: "string option"
  kw_auth_secret :: "string option"
  kw_hdfs_user :: "string option"
  kw_hdfs_config_dir :: "string option"
  kw_hdfs_options :: "(string \<times> string) list option"
  kw_cache_enabled :: "bool option"
  kw_log_level :: "string option"
  kw_log_to :: "string option"

definition py_args :: "py_kwargs \<Rightarrow> cli_args" where
  "py_args kw =
     \<lparr>arg_config = kw_config_path kw, arg_listen_addr = kw_listen_addr kw, arg_namenode_uri = kw_namenode_uri kw,
      arg_hdfs_root = kw_hdfs_root kw, arg_bucket_name = kw_bucket_name kw, arg_auth_secret = kw_auth_secret kw,
      arg_hdfs_user = kw_hdfs_user kw, arg_hdfs_config_dir = kw_hdfs_config_dir kw,
      arg_hdfs_options = kw_hdfs_options kw, arg_no_cache = False, arg_cache = False\<rparr>"

definition py_new :: "'n notify_ops \<Rightarrow> (cli_args \<Rightarrow> 'e + config) \<Rightarrow> py_kwargs \<Rightarrow> 'e + 'n py_gateway" where
  "py_new nops load_config kw =
     (case load_config (py_args kw) of
        Inl e \<Rightarrow> Inl e
      | Inr config \<Rightarrow>
          Inr \<lparr>g_config = (case kw_cache_enabled kw of Some b \<Rightarrow> set_cache_enabled b config | None \<Rightarrow> config),
               g_shutdown = notify_new nops, g_thread = None, g_address = None, g_log_level = kw_log_level kw,
               g_log_target = (case kw_log_to kw of Some t \<Rightarrow> t | None \<Rightarrow> ''stderr'')\<rparr>)"

text \<open>What the server thread reports before it serves: an error or the bound address.\<close>

definition boot ::
  "string + unit \<Rightarrow> (config \<Rightarrow> string + 'client \<times> gateway) \<Rightarrow> (string \<Rightarrow> string + 'addr) \<Rightarrow> ('addr \<Rightarrow> string)
     \<Rightarrow> ('addr \<Rightarrow> string + string) \<Rightarrow> config \<Rightarrow> string + string" where
  "boot runtime client parse_addr fmt_addr bind config =
     (case runtime of Inl e \<Rightarrow> Inl e | Inr _ \<Rightarrow>
      case client config of Inl e \<Rightarrow> Inl e | Inr gw \<Rightarrow>
      case parse_addr (listen_addr config) of Inl e \<Rightarrow> Inl (''invalid listen_addr: '' @ e) | Inr addr \<Rightarrow>
      case bind addr of Inl e \<Rightarrow> Inl (''failed to bind '' @ fmt_addr addr @ '': '' @ e) | Inr bound \<Rightarrow> Inr bound)"

definition py_start :: "string + string \<Rightarrow> 'n py_gateway \<Rightarrow> (string + unit) \<times> 'n py_gateway" where
  "py_start booted g =
     (if g_thread g \<noteq> None then (Inl ''gateway is already running'', g)
      else case booted of
        Inr addr \<Rightarrow> (Inr (), g\<lparr>g_address := Some addr, g_thread := Some Serving\<rparr>)
      | Inl e \<Rightarrow> (Inl e, g))"

text \<open>
  \<^verbatim>\<open>stop\<close> signals and then joins the thread.  \<open>woken\<close> tells whether the thread that is joined took
  the notification, or was ending by itself.
\<close>

definition py_stop :: "'n notify_ops \<Rightarrow> bool \<Rightarrow> 'n py_gateway \<Rightarrow> (string + unit) \<times> 'n py_gateway" where
  "py_stop nops woken g =
     (case g_thread g of
        Some Finished \<Rightarrow>
          (Inl ''gateway background thread had already terminated (likely a panic)'', g\<lparr>g_thread := None\<rparr>)
      | Some Serving \<Rightarrow>
          (let s = notify_one nops (g_shutdown g) in
           (Inr (), g\<lparr>g_thread := None,
              g_shutdown := (if woken then case notified nops s of Some s' \<Rightarrow> s' | None \<Rightarrow> s else s)\<rparr>))
      | None \<Rightarrow> (Inr (), g\<lparr>g_shutdown := notify_one nops (g_shutdown g)\<rparr>))"

definition is_running :: "'n py_gateway \<Rightarrow> bool" where
  "is_running g = (case g_thread g of Some h \<Rightarrow> h \<noteq> Finished | None \<Rightarrow> False)"

text \<open>The server thread ends when it gets a notification, or on its own (a panic).\<close>

inductive thread_step :: "'n notify_ops \<Rightarrow> 'n py_gateway \<Rightarrow> 'n py_gateway \<Rightarrow> bool" for nops where
  woken: "g_thread g = Some Serving \<Longrightarrow> notified nops (g_shutdown g) = Some s \<Longrightarrow>
    thread_step nops g (g\<lparr>g_thread := Some Finished, g_shutdown := s\<rparr>)"
| panicked: "g_thread g = Some Serving \<Longrightarrow> thread_step nops g (g\<lparr>g_thread := Some Finished\<rparr>)"

text \<open>The object with its borrow flag and the number of \<^verbatim>\<open>serve_blocking\<close> calls in progress.\<close>

record ('n, 'b) py_object =
  po_gateway :: "'n py_gateway"
  po_borrow :: 'b
  po_blocking :: nat

text \<open>A \<^verbatim>\<open>&mut self\<close> method: \<open>None\<close> is the exception of a refused borrow.\<close>

definition call_mut ::
  "'b borrow_ops \<Rightarrow> ('n py_gateway \<Rightarrow> (string + unit) \<times> 'n py_gateway) \<Rightarrow> ('n, 'b) py_object
     \<Rightarrow> (string + unit) option \<times> ('n, 'b) py_object" where
  "call_mut bops f p =
     (case try_borrow_mut bops (po_borrow p) of
        None \<Rightarrow> (None, p)
      | Some b \<Rightarrow>
          (case f (po_gateway p) of (r, g) \<Rightarrow> (Some r, p\<lparr>po_gateway := g, po_borrow := release_mut bops b\<rparr>)))"

text \<open>What a program can do with the object: \<open>start\<close>, \<open>stop\<close>, \<open>serve_blocking\<close> up to its wait; what
  the servers do: end at a notification.\<close>

inductive py_step ::
  "'n notify_ops \<Rightarrow> 'b borrow_ops \<Rightarrow> ('n, 'b) py_object \<Rightarrow> ('n, 'b) py_object \<Rightarrow> bool" for nops bops where
  start: "call_mut bops (py_start booted) p = (r, p') \<Longrightarrow> py_step nops bops p p'"
| stop: "call_mut bops (py_stop nops w) p = (r, p') \<Longrightarrow> py_step nops bops p p'"
| block: "try_borrow bops (po_borrow p) = Some b \<Longrightarrow>
    py_step nops bops p (p\<lparr>po_borrow := b, po_blocking := Suc (po_blocking p)\<rparr>)"
| unblock: "po_blocking p = Suc n \<Longrightarrow> notified nops (g_shutdown (po_gateway p)) = Some s \<Longrightarrow>
    py_step nops bops p (p\<lparr>po_blocking := n, po_borrow := release_ref bops (po_borrow p),
      po_gateway := (po_gateway p)\<lparr>g_shutdown := s\<rparr>\<rparr>)"
| thread: "thread_step nops (po_gateway p) g \<Longrightarrow> py_step nops bops p (p\<lparr>po_gateway := g\<rparr>)"

section \<open>Contracts\<close>

text \<open>
  The documented behaviour of \<^verbatim>\<open>Notify\<close>: there is something to take after \<^verbatim>\<open>notify_one\<close>, and
  only then; taking uses up one notification.
\<close>

locale notifying =
  fixes nops :: "'n notify_ops" and signals :: "'n \<Rightarrow> nat"
  assumes signals_new: "signals (notify_new nops) = 0"
    and signals_one: "0 < signals (notify_one nops s)"
    and signals_one_le: "signals (notify_one nops s) \<le> Suc (signals s)"
    and notified_iff: "notified nops s \<noteq> None \<longleftrightarrow> 0 < signals s"
    and notified_takes: "notified nops s = Some s' \<Longrightarrow> signals s = Suc (signals s')"

text \<open>The borrow rule, between the calls of \<^verbatim>\<open>&mut self\<close> methods.\<close>

locale borrowing =
  fixes bops :: "'b borrow_ops" and readers :: "'b \<Rightarrow> nat"
  assumes borrow_counts: "try_borrow bops b = Some b' \<Longrightarrow> readers b' = Suc (readers b)"
    and release_counts: "readers (release_ref bops b) = readers b - 1"
    and borrow_mut_iff: "try_borrow_mut bops b \<noteq> None \<longleftrightarrow> readers b = 0"
    and borrow_mut_release: "try_borrow_mut bops b = Some b' \<Longrightarrow> readers (release_mut bops b') = 0"

locale py_runtime = notifying nops signals + borrowing bops readers
  for nops :: "'n notify_ops" and signals and bops :: "'b borrow_ops" and readers

section \<open>Lemmas\<close>

lemma text_lines_split:
  "newline \<notin> set xs \<Longrightarrow> text_lines (xs @ newline # ys) = (xs @ [newline]) # text_lines ys"
  by (induction xs) auto

lemma text_lines_single: "newline \<notin> set xs \<Longrightarrow> text_lines xs = (if xs = [] then [] else [xs])"
  by (induction xs) auto

lemma find_newline_split:
  "find_sub [newline] s = Some i \<Longrightarrow> \<exists>xs ys. s = xs @ newline # ys \<and> newline \<notin> set xs \<and> i = length xs"
proof (induction s arbitrary: i)
  case (Cons c s)
  show ?case
  proof (cases "c = newline")
    case True
    with Cons.prems show ?thesis by (intro exI [of _ "[]"] exI [of _ s]) simp
  next
    case False
    with Cons.prems obtain j where "find_sub [newline] s = Some j" "i = Suc j" by auto
    with Cons.IH obtain xs ys where "s = xs @ newline # ys" "newline \<notin> set xs" "i = Suc (length xs)" by blast
    with False show ?thesis by (intro exI [of _ "c # xs"] exI [of _ ys]) simp
  qed
qed simp

text \<open>Draining takes the complete lines and leaves a part without a newline.\<close>

lemma drain_lines_spec:
  assumes "drain_lines s = (ls, rest)"
  shows "newline \<notin> set rest \<and> text_lines (s @ t) = ls @ text_lines (rest @ t)"
  using assms
proof (induction s arbitrary: ls rest rule: drain_lines.induct)
  case (1 s)
  show ?case
  proof (cases "find_sub [newline] s")
    case None
    with 1(2) show ?thesis by (simp add: drain_lines.simps [of s] find_sub_char_None)
  next
    case (Some i)
    then obtain xs ys where s: "s = xs @ newline # ys" "newline \<notin> set xs" "i = length xs"
      using find_newline_split by blast
    obtain ls' where rec: "drain_lines ys = (ls', rest)" and ls: "ls = (xs @ [newline]) # ls'"
      using 1(2) Some s(1,3) by (subst (asm) drain_lines.simps) (auto split: prod.splits)
    have "newline \<notin> set rest \<and> text_lines (ys @ t) = ls' @ text_lines (rest @ t)"
      using 1(1) [OF Some] rec s by simp
    then show ?thesis using text_lines_split [OF s(2), of "ys @ t"] ls s(1) by simp
  qed
qed

lemma consume_log_lines: "newline \<notin> set pending \<Longrightarrow> consume_log pending chunks = text_lines (pending @ concat chunks)"
proof (induction chunks arbitrary: pending)
  case Nil
  then show ?case by (simp add: text_lines_single)
next
  case (Cons chunk chunks)
  obtain ls rest where drain: "drain_lines (pending @ chunk) = (ls, rest)" by fastforce
  from drain_lines_spec [OF this] Cons.IH [of rest] show ?case by (simp add: drain)
qed

lemma emit_lines_exact:
  "emit_lines has_logger attaches i pieces =
     (if has_logger
      then map snd (filter (\<lambda>(k, l). l \<noteq> [] \<and> list_ex (attaches k) [0..<50])
                      (enumerate i (map trim_end_newlines pieces)))
      else [])"
  by (induction pieces arbitrary: i) (auto simp: emit_line_def Let_def)

lemma logger_writes_valid:
  "List.map_filter (\<lambda>buf. fst (logger_write buf)) writes = filter valid_utf8 writes"
  by (induction writes) (auto simp: map_filter_simps logger_write_def)

section \<open>Properties\<close>

text \<open>
  Claim C35: what the log bridge delivers.  Take the buffers the formatter writes, drop those that
  are not valid UTF-8, and cut the rest, as one text, into lines -- wherever a line is cut into
  writes.  The logger is called once for each line that is not empty without its line end and for which
  the interpreter can be entered in one of fifty tries, in the order of the text; without a logger
  it is never called.
\<close>

theorem log_lines_exact:
  "log_bridge has_logger attaches writes =
     (if has_logger
      then map snd (filter (\<lambda>(i, l). l \<noteq> [] \<and> list_ex (attaches i) [0..<50])
                      (enumerate 0 (map trim_end_newlines (text_lines (concat (filter valid_utf8 writes))))))
      else [])"
  unfolding log_bridge_def emit_lines_exact logger_writes_valid by (simp add: consume_log_lines)

text \<open>
  A line is lost when a write ends inside a character, although the writer is told that all of it
  was written: the two writes that share the euro sign are both dropped, with the text around it.
\<close>

lemma log_write_cut_lost:
  "let e = map char_of [0xE2, 0x82, 0xAC :: nat]; a = ''cost 5'' @ take 1 e; b = drop 1 e in
   log_bridge True (\<lambda>i n. True) [a @ b] = [''cost 5'' @ e] \<and>
   log_bridge True (\<lambda>i n. True) [a, b] = [] \<and>
   snd (logger_write a) = length a \<and> snd (logger_write b) = length b"
  by code_simp

context notifying
begin

text \<open>
  The background gateway.  On an object without a thread, \<open>start\<close> reports an error of the
  start-up and leaves the object as it was, or runs at the bound address; then a second \<open>start\<close> is
  refused, the thread ends by itself only if it panics, and \<open>stop\<close> succeeds and leaves an idle object
  without a pending signal that can be started again; if the thread died instead, \<open>stop\<close> reports that
  and clears it.
\<close>

lemma start_stop:
  assumes "g_thread g = None" "signals (g_shutdown g) = 0"
  shows "case booted of
     Inl e \<Rightarrow> py_start booted g = (Inl e, g)
   | Inr addr \<Rightarrow>
       (let run = snd (py_start booted g); stopped = snd (py_stop nops True run);
            died = run\<lparr>g_thread := Some Finished\<rparr> in
        fst (py_start booted g) = Inr () \<and> is_running run \<and> g_address run = Some addr \<and>
        py_start again run = (Inl ''gateway is already running'', run) \<and>
        fst (py_stop nops True run) = Inr () \<and>
        g_thread stopped = None \<and> signals (g_shutdown stopped) = 0 \<and>
        (\<forall>g'. thread_step nops run g' \<longleftrightarrow> g' = died) \<and>
        \<not> is_running died \<and> fst (py_stop nops w died) \<noteq> Inr () \<and>
        snd (py_stop nops w died) = g\<lparr>g_address := Some addr\<rparr>)"
proof (cases booted)
  case (Inr addr)
  obtain s where s: "notified nops (notify_one nops (g_shutdown g)) = Some s"
    using notified_iff signals_one by blast
  then have "signals s = 0" using notified_takes signals_one_le [of "g_shutdown g"] assms(2) by fastforce
  moreover have "notified nops (g_shutdown g) = None" using notified_iff assms(2) by (metis less_irrefl)
  ultimately show ?thesis using Inr s assms(1)
    by (auto simp: Let_def py_start_def py_stop_def is_running_def thread_step.simps)
qed (simp add: py_start_def assms)

text \<open>
  A \<open>stop\<close> too many ends the next run.  \<open>stop\<close> on an idle gateway, documented as a no-op,
  leaves a signal behind: the gateway starts and reports that it runs, then its thread can end by
  itself, and the next \<open>stop\<close> claims that it panicked.
\<close>

lemma stop_idle:
  assumes "g_thread g = None"
  shows "let stopped = snd (py_stop nops w g); run = snd (py_start (Inr addr) stopped) in
    fst (py_stop nops w g) = Inr () \<and> fst (py_start (Inr addr) stopped) = Inr () \<and> is_running run \<and>
    (\<exists>s. let ended = run\<lparr>g_thread := Some Finished, g_shutdown := s\<rparr> in
       notified nops (g_shutdown run) = Some s \<and> thread_step nops run ended \<and> \<not> is_running ended \<and>
       fst (py_stop nops w ended) = Inl ''gateway background thread had already terminated (likely a panic)'')"
proof -
  obtain s where "notified nops (notify_one nops (g_shutdown g)) = Some s"
    using notified_iff signals_one by blast
  with assms show ?thesis
    by (auto simp: Let_def py_start_def py_stop_def is_running_def thread_step.simps)
qed

end

context py_runtime
begin

text \<open>
  \<open>serve_blocking\<close> and \<open>stop\<close>.  While a call of \<open>serve_blocking\<close> waits and no signal is pending from before,
  it borrows the object, so every \<open>stop\<close> is refused before it can signal: whatever methods are called
  and however the threads run, the call goes on.
\<close>

lemma blocking_goes_on:
  assumes "(py_step nops bops)\<^sup>*\<^sup>* p p'" "0 < po_blocking p" "readers (po_borrow p) = po_blocking p"
    "signals (g_shutdown (po_gateway p)) = 0"
  shows "po_blocking p \<le> po_blocking p' \<and> readers (po_borrow p') = po_blocking p' \<and>
    signals (g_shutdown (po_gateway p')) = 0 \<and> call_mut bops (py_stop nops w) p' = (None, p')"
proof -
  have refused: "call_mut bops f q = (None, q)" if "0 < readers (po_borrow q)"
    for f and q :: "('n, 'b) py_object"
    using that borrow_mut_iff [of "po_borrow q"] by (auto simp: call_mut_def split: option.split)
  have "po_blocking p \<le> po_blocking p' \<and> readers (po_borrow p') = po_blocking p' \<and>
    signals (g_shutdown (po_gateway p')) = 0"
    using assms
  proof (induction rule: rtranclp_induct)
    case (step q r)
    then have q: "0 < po_blocking q" "readers (po_borrow q) = po_blocking q" "po_blocking p \<le> po_blocking q"
      and quiet: "signals (g_shutdown (po_gateway q)) = 0" by auto
    from quiet have none: "notified nops (g_shutdown (po_gateway q)) = None"
      using notified_iff by (metis less_irrefl)
    from step.hyps(2) show ?case
      using q quiet none
      by (cases rule: py_step.cases) (auto simp: refused thread_step.simps dest: borrow_counts)
  qed simp
  with assms(2) show ?thesis by (simp add: refused)
qed

end

text \<open>
  \<open>cache_enabled\<close> is applied after validation.  There is a configuration that loads, because
  its caches are off, and from which \<open>Gateway(cache_enabled=True)\<close> is made although the resulting
  configuration does not pass validation.
\<close>

lemma cache_enabled_unvalidated:
  "\<exists>raw kw c g.
     load (\<lambda>p. Inr []) (\<lambda>t. Inr raw) Map.empty (\<lambda>b. True) (py_args kw) = (Inr c :: (unit, unit) config_error + config) \<and>
     py_new nops (load (\<lambda>p. Inr []) (\<lambda>t. Inr raw) Map.empty (\<lambda>b. True)) kw = (Inr g :: (unit, unit) config_error + 'n py_gateway) \<and>
     validate (\<lambda>b. True) (g_config g) =
       (Inl (Invalid ''cache.listing_capacity_entries must be greater than 0'') :: (unit, unit) config_error + unit)"
proof -
  define raw :: raw_config where "raw =
    \<lparr>r_namenode_uri = ''hdfs://n'', r_hdfs_root = ''/'', r_bucket_name = ''b'', r_listen_addr = None,
     r_max_concurrent_requests = None, r_expose_upstream_errors = None, r_hdfs_options = None,
     r_hdfs_config_dir = None, r_hdfs_user = None,
     r_cache = Some \<lparr>r_enabled = None, r_metadata_ttl_ms = None, r_blocks_ttl_ms = None, r_listing_ttl_ms = None,
       r_negative_ttl_ms = None, r_metadata_capacity = None, r_blocks_capacity = None,
       r_listing_capacity_entries = Some 0, r_listing_max_dir_entries = None\<rparr>, r_auth_secret = None\<rparr>"
  define kw where "kw = \<lparr>kw_config_path = Some ''f'', kw_namenode_uri = None, kw_hdfs_root = None, kw_bucket_name = None,
    kw_listen_addr = None, kw_auth_secret = None, kw_hdfs_user = None, kw_hdfs_config_dir = None,
    kw_hdfs_options = None, kw_cache_enabled = Some True, kw_log_level = None, kw_log_to = None\<rparr>"
  let ?c = "apply_args (py_args kw) (config_of_raw raw)"
  have ok: "validate (\<lambda>b. True) ?c = (Inr () :: (unit, unit) config_error + unit)"
    and bad: "validate (\<lambda>b. True) (set_cache_enabled True ?c) =
      (Inl (Invalid ''cache.listing_capacity_entries must be greater than 0'') :: (unit, unit) config_error + unit)"
    by (simp_all add: validate_def apply_args_def set_cache_enabled_def config_of_raw_def cache_of_raw_def raw_def
        kw_def py_args_def cache_config_default_def default_max_concurrent_requests_def Let_def)
  have load: "load (\<lambda>p. Inr []) (\<lambda>t. Inr raw) Map.empty (\<lambda>b. True) (py_args kw) =
      (Inr ?c :: (unit, unit) config_error + config)"
    using ok by (intro load_plain) (simp_all add: load_base_def, simp_all add: py_args_def kw_def)
  with bad show ?thesis by (auto simp: py_new_def kw_def intro!: exI [of _ raw] exI [of _ kw])
qed

section \<open>Instances\<close>

text \<open>\<^verbatim>\<open>Notify\<close> without a registered waiter, which stores one notification, and a borrow flag
  that counts.\<close>

definition one_permit :: "bool notify_ops" where
  "one_permit = \<lparr>notify_new = False, notify_one = (\<lambda>s. True), notified = (\<lambda>s. if s then Some False else None)\<rparr>"

definition counted :: "nat borrow_ops" where
  "counted = \<lparr>try_borrow = (\<lambda>n. Some (Suc n)), release_ref = (\<lambda>n. n - 1),
     try_borrow_mut = (\<lambda>n. if n = 0 then Some 0 else None), release_mut = (\<lambda>n. n)\<rparr>"

interpretation py: py_runtime one_permit of_bool counted "\<lambda>n. n"
  by unfold_locales (auto simp: one_permit_def counted_def split: if_splits)

end
