(* ===== verification/Spec2Isabelle.thy ===== *)
theory Spec2Isabelle
  imports Listing_Concurrent Gateway_Served Py_Gateway
begin

text \<open>
  A verification of the HDFS to S3 gateway: a read-only S3 endpoint over one HDFS directory tree.

  \<^bold>\<open>The program.\<close>  A request enters through the accept loop (\<^verbatim>\<open>src/s3/server.rs\<close>), passes the
  in-flight cap (\<^verbatim>\<open>src/s3/backpressure.rs\<close>) and the signature check of \<^verbatim>\<open>s3s\<close>, which asks
  \<^verbatim>\<open>src/s3/auth.rs\<close> for the secret, and reaches a handler of \<^verbatim>\<open>src/s3/mod.rs\<close>.  The handler turns the
  key into an HDFS path (\<^verbatim>\<open>src/core/path.rs\<close>), looks into the caches (\<^verbatim>\<open>src/s3/cache.rs\<close> over
  \<^verbatim>\<open>src/core/cache.rs\<close>), asks the cluster, maps its errors (\<^verbatim>\<open>src/s3/error.rs\<close>), and answers with a
  range of the file (\<^verbatim>\<open>src/core/range.rs\<close>, \<^verbatim>\<open>src/core/metadata.rs\<close>) or a page of a listing
  (\<^verbatim>\<open>src/core/listing.rs\<close>, \<^verbatim>\<open>src/s3/sorted_listing.rs\<close>).  \<^verbatim>\<open>src/main.rs\<close> and
  \<^verbatim>\<open>python/src/lib.rs\<close> start the process from a configuration (\<^verbatim>\<open>src/config/mod.rs\<close>).

  \<^bold>\<open>The theories\<close>, in the order of their imports.  Definitions keep the names of the source; a
  definition that models a loop of a function is named after the function or its purpose.

  \<^item> \<open>Gateway_Prelude\<close>: byte strings in byte order, \<^verbatim>\<open>Ordering\<close>, stable sorting, the binary search of
    \<^verbatim>\<open>partition_point\<close>, splitting, searching and number formatting, with the lemmas all components share.
  \<^item> \<open>Config\<close> (\<^verbatim>\<open>src/config/mod.rs\<close>): \<open>load\<close> composes \<open>load_base\<close> (a file or \<open>from_env\<close>), \<open>apply_args\<close>,
    \<open>apply_cache_switch\<close> and \<open>validate\<close>.  A configuration that loads is valid and takes every setting from
    the source that has precedence.
  \<^item> \<open>Paths\<close> (\<^verbatim>\<open>src/core/path.rs\<close>): \<open>path_mapper\<close>, \<open>key_to_hdfs_path\<close>, \<open>hdfs_path_to_key\<close>, \<open>list_start\<close>.
    Every path the mapper returns lies at or below the root; the mapper computes segment
    resolution; keys and paths are inverse to each other; \<open>list_start\<close> loses no key.
  \<^item> \<open>Ranges\<close> and \<open>Metadata\<close>: byte ranges on 64-bit words, which never wrap, and the ETag, which two
    objects share exactly when what it is made of agrees.
  \<^item> \<open>Ttl_Cache\<close> (\<^verbatim>\<open>src/core/cache.rs\<close>): the weighted cache over an LRU map.  The map is the locale
    \<open>lru_contract\<close>; \<open>ttl_lru\<close> proves the invariant of every operation (the weight counter is the sum of the
    weights and within budget), and \<open>sublocale\<close> gives the simpler contract \<open>ttl_store\<close> its clients use.
    A list implementation of the map interprets both, so that the contract is not empty.
  \<^item> \<open>Listing\<close> (\<^verbatim>\<open>src/core/listing.rs\<close>): \<open>paginate\<close> and \<open>paginate_slash\<close>.  A listing is specified as one strictly
    sorted list of outputs (\<open>listing_outputs\<close>); a page is a window of it (\<open>page_of\<close>).  The locale
    \<open>page_source\<close> proves once that following the markers enumerates the listing; both paginators, and the
    handler, interpret it.  The comparators that allocate nothing are equal to comparing the
    strings they stand for.
  \<^item> \<open>Hdfs_Errors\<close> (\<^verbatim>\<open>src/s3/error.rs\<close>): the classes of upstream errors and what the client is told.
  \<^item> \<open>Sorted_Listing\<close> (\<^verbatim>\<open>src/s3/sorted_listing.rs\<close>): the lazy merge of directory cursors.  The abstract
    listing is \<open>flat_listing\<close>, the sorted files of a finite tree (\<open>dir_tree\<close>); the frontier invariant relates the
    heap to the part of the tree not yet emitted.  The locale \<open>stable_lister\<close> is what the merge needs
    of a directory lister, \<open>lister_frame\<close> what a listing leaves alone.
  \<^item> \<open>Gateway_State\<close> (\<^verbatim>\<open>src/s3/cache.rs\<close>, \<^verbatim>\<open>HdfsDirLister\<close>): the four caches, the upstream client as a
    record, and the cached lister, which interprets \<open>stable_lister\<close>.
  \<^item> \<open>Gateway\<close> (\<^verbatim>\<open>src/s3/mod.rs\<close>, \<^verbatim>\<open>src/s3/write_policy.rs\<close>): \<open>head_object\<close>, \<open>get_object\<close>, \<open>list_objects_v2\<close>, the
    bucket operations, the refused writes, the body stream and the request ids, as functions on
    \<open>gw_state\<close>.
  \<^item> \<open>Gateway_Listings\<close>: every page of \<open>list_objects_v2\<close> is a window of the sorted listing of the namespace, and
    a client that follows the tokens sees all of it once; what the one-directory listing with
    delimiter \<open>/\<close> has in common with the listing of the whole tree.
  \<^item> \<open>Gateway_Objects\<close>: the body of a \<^verbatim>\<open>GetObject\<close> is the requested window or ends in an error; conditional
    headers; request ids; writes are refused.
  \<^item> \<open>Gateway_System\<close>: histories of whole requests and outside events (\<open>gw_step\<close>), and the invariant that
    the metadata caches hold only recent answers of the cluster.
  \<^item> \<open>Async_Tasks\<close>: asynchronous functions as tasks that are suspended at an \<^verbatim>\<open>await\<close>, their interleaving
    (\<open>conc_step\<close>: arrivals, answers, dropped requests, outside events), and the locales \<open>async_contract\<close> and
    \<open>async_server\<close>, in which a property of every uninterrupted stretch is lifted to all interleavings.
  \<^item> \<open>Gateway_Async\<close>: \<^verbatim>\<open>file_meta\<close>, \<^verbatim>\<open>open_reader\<close>, \<^verbatim>\<open>list_dir\<close>, \<^verbatim>\<open>head_object\<close> and \<^verbatim>\<open>get_object\<close> as such tasks.  Run
    alone they are the functions of \<open>Gateway\<close> and \<open>Gateway_State\<close>; each asks upstream at most once or twice.
  \<^item> \<open>Gateway_Concurrent\<close>: interprets \<open>async_server\<close> for the gateway.  Under every interleaving the four
    caches stay bounded and each reply rests on answers no older than one TTL at its arrival.
  \<^item> \<open>Listing_Concurrent\<close>: interprets \<open>async_server\<close> once more, for the directory cache on a namespace that
    does not change.  The lister of a listing among other requests interprets \<open>stable_lister\<close>, so that
    the pages of \<open>list_objects_v2\<close> stay exact under every schedule.  On any namespace, whatever upstream
    reports, cached and returned listings are well formed (\<open>wf_listing\<close>).
  \<^item> \<open>Backpressure\<close>: interleaved requests as the step relation \<open>bp_step\<close>; permits held and available always
    make up the cap.
  \<^item> \<open>Server\<close> (\<^verbatim>\<open>src/s3/server.rs\<close>, \<^verbatim>\<open>src/s3/auth.rs\<close>, \<^verbatim>\<open>src/main.rs\<close>): the start of the process, the accept
    loop and the drain.
  \<^item> \<open>Gateway_Served\<close>: the composition of \<open>Backpressure\<close> and \<open>Gateway_Concurrent\<close> (\<open>served_step\<close>): a request is
    admitted, waits for its handler, runs, and streams its body.  The server refines both parts, its load
    on the cluster never exceeds the cap, and from every state it can come to rest with all permits back.
  \<^item> \<open>Py_Gateway\<close> (\<^verbatim>\<open>python/src/lib.rs\<close>): the life cycle of the Python object, over the contracts \<open>borrowing\<close> (the
    borrow rule of \<^verbatim>\<open>pyo3\<close>) and \<open>notifying\<close> (\<^verbatim>\<open>Notify\<close>), and the log bridge from the formatter's writes to
    the calls of the Python logger.

  This theory adds what spans them: every listed object can be fetched, and the listing, \<^verbatim>\<open>HeadObject\<close> and
  \<^verbatim>\<open>GetObject\<close> describe it alike.

  \<^bold>\<open>Parameters.\<close>  Third-party crates are arguments: the HDFS client (\<open>upstream\<close>), the LRU maps
  (\<open>cache_ops\<close>), the semaphore (\<open>sem_ops\<close>), base64, MIME guessing, header values and error texts
  (\<open>externs\<close>), the TOML parser and the environment, the race of the graceful shutdown against its timer
  (\<open>drain\<close>), \<^verbatim>\<open>Notify\<close> and the borrow flag of a Python object (\<open>notify_ops\<close>, \<open>borrow_ops\<close>).  What a property
  needs of them is a named hypothesis (\<open>lru_contract\<close>, \<open>counting_semaphore\<close>, \<open>lister_inv\<close>, \<open>served_as\<close>, the token
  codec, the legal header values), with a concrete instance in its witness.

  \<^bold>\<open>Bounds.\<close>  The merge loop is a \<open>partial_function (option)\<close>: a cluster that invents directories for ever
  would keep it running.  On a finite tree it is proved to return.  A flat listing assumes that
  the files of the tree fit a \<^verbatim>\<open>usize\<close> (\<open>usize_max\<close>).  The walk along the tokens has the number of outputs
  as fuel, which is proved to be enough.  The cache assumes a weight budget below \<open>2 ^ 63\<close>, so that
  the sum of the budget and one entry does not wrap.

  \<^bold>\<open>Idealisations.\<close>  Between two awaits a task runs without interruption: the caches are behind mutexes
  and each cache operation is atomic, but a task may be preempted between two cache operations on
  another thread; the code makes no decision on two of them together that the properties rely on.
  The answer of upstream is taken at the moment it reaches the gateway.  Among the concurrent requests
  a \<^verbatim>\<open>ListObjectsV2\<close> appears as the calls of its lister; only the listing under study runs as a whole.  The
  exactness of listings is for a namespace that does not change while it is walked.  A \<open>timestamp\<close> is any
  number of nanoseconds: the conversion of the \<^verbatim>\<open>time\<close> crate panics on a time after the year 9999, so what is
  proved of an object or a listing with such a modification time holds of an answer that the program does
  not give.  The command-line path of the configuration directory is taken to be UTF-8
  (\<^verbatim>\<open>to_string_lossy\<close>).

  \<^bold>\<open>Not modelled.\<close>  Log output (the lines of \<^verbatim>\<open>RequestLog\<close>, the tracing subscriber of \<^verbatim>\<open>main\<close>), which no
  client sees; \<^verbatim>\<open>is_end_stream\<close> and \<^verbatim>\<open>size_hint\<close> of the permit body, which forward; the crate roots, which
  only declare modules; the inside of \<^verbatim>\<open>s3s\<close>, \<^verbatim>\<open>hdfs-native\<close>, \<^verbatim>\<open>tokio\<close> and \<^verbatim>\<open>pyo3\<close>; the test modules.

  \<^bold>\<open>Where the code departs from its documentation.\<close>  Combined conditional headers are not
  evaluated in the precedence of RFC 7232 (\<open>conditions_extra_headers\<close>); an echoed
  \<^verbatim>\<open>Last-Modified\<close> fails its own condition unless the time is a whole second (\<open>echoed_last_modified\<close>); the prefix
  \<open>.\<close> lists nothing (\<open>list_start_dot_prefix\<close>); \<^verbatim>\<open>expose_upstream_errors\<close> has two defaults
  (\<open>expose_default_differs\<close>); a replaced object can be served from its old block map, or its bytes under
  its old ETag, within the metadata TTL (\<open>cached_identity_trusted\<close>); a modification time after the year
  9999 makes a handler panic; in the Python object, \<^verbatim>\<open>stop\<close> on an idle gateway ends its next run
  (\<open>stop_idle\<close>), \<^verbatim>\<open>stop\<close> is refused while \<^verbatim>\<open>serve_blocking\<close> waits, so that only a signal stored before can
  end it (\<open>blocking_goes_on\<close>), a log write that ends inside a character is lost (\<open>log_write_cut_lost\<close>), and
  \<^verbatim>\<open>cache_enabled\<close> is applied after validation (\<open>cache_enabled_unvalidated\<close>).
\<close>

section \<open>Listings and objects agree\<close>

text \<open>
  A state in which path \<open>p\<close> is served as the status \<open>s\<close>: what the caches still hold of the path, or
  else the cluster, describes it like \<open>s\<close>, and a reader of it is as long as \<open>s\<close> says.
\<close>

definition served_as ::
  "('r, 'lm, 'ln, 'lb, 'ld) cache_ops \<Rightarrow> ('r, 'w) upstream \<Rightarrow> ('w, 'lm, 'ln, 'lb, 'ld) gw_state
     \<Rightarrow> string \<Rightarrow> file_status \<Rightarrow> bool" where
  "served_as ops up st p s \<longleftrightarrow>
     (case fst (ttl_get (metadata_ops ops) (clock up (gs_world st)) (metadata (gs_caches st)) p) of
        Some meta \<Rightarrow> meta = meta_of s
      | None \<Rightarrow>
          fst (ttl_get (negative_ops ops) (clock up (gs_world st)) (negative (gs_caches st)) p) = None \<and>
          (\<exists>s' w. get_file_info up (gs_world st) p = (Inr s', w) \<and> meta_of s' = meta_of s)) \<and>
     (\<forall>now v. fst (ttl_get (blocks_ops ops) now (blocks_cache (gs_caches st)) p) = Some v \<longrightarrow>
        cr_length v = fs_length s \<and> cr_mtime v = fs_mtime s \<longrightarrow> file_length up (cr_reader v) = fs_length s) \<and>
     (\<forall>w. \<exists>r w'. read_file up w p = (Inr r, w') \<and> file_length up r = fs_length s)"

lemma file_meta_of_served:
  assumes "served_as ops up st p s"
  shows "\<exists>st1. file_meta_of ops up ext gw log p (st\<lparr>gs_seq := n\<rparr>) = (Inr (meta_of s), st1) \<and>
    blocks_cache (gs_caches st1) = blocks_cache (gs_caches st)"
proof -
  obtain hit mc where m: "ttl_get (metadata_ops ops) (clock up (gs_world st)) (metadata (gs_caches st)) p = (hit, mc)"
    by fastforce
  obtain neg nc where n: "ttl_get (negative_ops ops) (clock up (gs_world st)) (negative (gs_caches st)) p = (neg, nc)"
    by fastforce
  show ?thesis
    using assms by (cases hit) (auto simp: file_meta_of_def served_as_def meta_of_def m n Let_def)
qed

lemma open_reader_served:
  assumes "served_as ops up st p s" "blocks_cache (gs_caches st1) = blocks_cache (gs_caches st)"
  shows "\<exists>r st2. open_reader ops up ext gw log p (meta_of s) st1 = (Inr r, st2) \<and> file_length up r = fs_length s"
proof -
  obtain hit bc where b: "ttl_get (blocks_ops ops) (clock up (gs_world st1)) (blocks_cache (gs_caches st)) p = (hit, bc)"
    by fastforce
  obtain r w where r: "read_file up (gs_world st1) p = (Inr r, w)" "file_length up r = fs_length s"
    using assms(1) unfolding served_as_def by blast
  have "cr_length v = fs_length s \<and> cr_mtime v = fs_mtime s \<longrightarrow> file_length up (cr_reader v) = fs_length s"
    if "hit = Some v" for v
    using assms(1) b that unfolding served_as_def by (metis fst_conv)
  then show ?thesis
    using b r assms(2) by (cases hit) (auto simp: open_reader_def meta_of_def Let_def)
qed

lemma listed_status:
  assumes "wf_mapper m" "e \<in> set (files (listing_from_statuses statuses m))"
  shows "\<exists>s p. s \<in> set statuses \<and> \<not> fs_isdir s \<and> normalize_abs (fs_path s) = Some p \<and>
    key_to_hdfs_path m (key e) = Some p \<and> size e = fs_length s \<and> list_entry.modification_time e = fs_mtime s"
proof -
  from assms(2) obtain s k where s: "s \<in> set statuses" "hdfs_path_to_key m (fs_path s) = Some k" "k \<noteq> []"
    "\<not> fs_isdir s" "e = \<lparr>key = k, size = fs_length s, modification_time = fs_mtime s\<rparr>"
    by (auto simp: listing_from_statuses_sort set_map_filter status_file_def split: option.splits if_splits)
  from s(2,3) have "normalize_abs (fs_path s) = Some (join_root (root m) k)"
    by (auto simp: hdfs_path_to_key_def strip_prefix_def join_root_def prefix_def split: option.splits if_splits)
  moreover have "key_to_hdfs_path m k = Some (join_root (root m) k)"
    using hdfs_path_to_key_wf [OF assms(1) s(2)] s(3) wf_key_path [OF assms(1)] by blast
  ultimately show ?thesis using s by auto
qed

text \<open>What an answer says of the object is what the listing says.\<close>

definition describes :: "'z object_head_scheme \<Rightarrow> s3_object \<Rightarrow> bool" where
  "describes h ob \<longleftrightarrow> content_length h = o_size ob \<and> last_modified h = o_last_modified ob \<and> e_tag h = o_e_tag ob"

text \<open>The requests for a key without conditions and range.\<close>

definition plain_head :: "path_mapper \<Rightarrow> string \<Rightarrow> object_input" where
  "plain_head m k = \<lparr>in_bucket = bucket m, in_key = k, if_match = None, if_unmodified_since = None,
     if_none_match = None, if_modified_since = None\<rparr>"

definition plain_get :: "path_mapper \<Rightarrow> string \<Rightarrow> get_object_input" where
  "plain_get m k = \<lparr>in_bucket = bucket m, in_key = k, if_match = None, if_unmodified_since = None,
     if_none_match = None, if_modified_since = None, in_range = None\<rparr>"

lemma plain_simps:
  "check_conditions ext (plain_head m k) tag modified = None" "check_conditions ext (plain_get m k) tag modified = None"
  "in_bucket (plain_head m k) = bucket m" "in_key (plain_head m k) = k"
  "in_bucket (plain_get m k) = bucket m" "in_key (plain_get m k) = k" "in_range (plain_get m k) = None"
  by (simp_all add: check_conditions_def plain_head_def plain_get_def)

lemma head_served:
  assumes "served_as ops up st p s" "key_to_hdfs_path (path_mapper_new c) k = Some p" "\<not> fs_isdir s"
  shows "\<exists>h. fst (head_object ops up ext (gateway_new c) (plain_head (path_mapper_new c) k) st) = Inr h \<and>
    describes (resp_output h) (object_of_entry \<lparr>key = k, size = fs_length s, modification_time = fs_mtime s\<rparr>)"
proof -
  obtain st1 where meta: "file_meta_of ops up ext (gateway_new c) (object_log up ''HeadObject'' p st) p
      (st\<lparr>gs_seq := gs_seq st + 1\<rparr>) = (Inr (meta_of s), st1)"
    using file_meta_of_served [OF assms(1)] by blast
  then show ?thesis
    using assms(2,3)
    by (auto simp: plain_simps head_object_def request_log_new_split gateway_new_def head_reply_def Let_def meta_of_def
        with_request_id_def s3_response_new_def describes_def object_of_entry_def from_hdfs_def etag_def
        split: option.split)
qed

lemma get_served:
  assumes "served_as ops up st p s" "key_to_hdfs_path (path_mapper_new c) k = Some p" "\<not> fs_isdir s"
  shows "\<exists>g. fst (get_object ops up ext (gateway_new c)
      (plain_get (path_mapper_new c) k) st) = Inr g \<and>
    describes (resp_output g) (object_of_entry \<lparr>key = k, size = fs_length s, modification_time = fs_mtime s\<rparr>) \<and>
    content_range (resp_output g) = None \<and> body_length (resp_output g) = unat (fs_length s)"
proof -
  let ?log = "object_log up ''GetObject'' p st"
  obtain st1 where meta: "file_meta_of ops up ext (gateway_new c) ?log p (st\<lparr>gs_seq := gs_seq st + 1\<rparr>) = (Inr (meta_of s), st1)"
    and same: "blocks_cache (gs_caches st1) = blocks_cache (gs_caches st)"
    using file_meta_of_served [OF assms(1)] by blast
  obtain r st2 where reader: "open_reader ops up ext (gateway_new c) ?log p (meta_of s) st1 = (Inr r, st2)"
    "file_length up r = fs_length s"
    using open_reader_served [OF assms(1) same] by blast
  show ?thesis
    using assms(2,3) meta reader
    by (auto simp: plain_simps get_object_def request_log_new_split gateway_new_def get_plan_def get_reply_def Let_def meta_of_def
        resolve_window_def usize_try_from_def
        with_request_id_def s3_response_new_def describes_def object_of_entry_def from_hdfs_def etag_def
        split: option.split)
qed


section \<open>Instances\<close>


end
